(* ===== verification/Go_Prelude.thy ===== *)
theory Go_Prelude
  imports Complex_Main "HOL-Library.Multiset" "HOL-Library.Word" "HOL-Library.Sublist"
begin

text \<open>
  The parts of the Go language and of its standard library that the components share:
  panics and errors as values, map reads with Go's zero value, the iteration order of a
  map, slice updates and the exchange sort the solvers write by hand, string joining and
  splitting, decimal numbers, dotted IPv4 addresses, and big-endian byte encodings.

  Conventions of the whole development: a Go \<open>string\<close> is a list of characters; an
  \<open>int\<close> that can only hold a length, a count or a position is a \<open>nat\<close>, any other
  an \<open>int\<close>; \<open>byte\<close>, \<open>uint16\<close>, \<open>uint32\<close> and \<open>uint64\<close> are words of that
  width; a \<open>float64\<close> is a \<open>real\<close> (exact arithmetic: no rounding, no NaN), with
  an explicit infinity where the code uses \<open>math.Inf\<close>; a \<open>time.Time\<close> and a
  \<open>time.Duration\<close> are a number of nanoseconds.
\<close>

section \<open>Types shared by the components\<close>

type_synonym byte = "8 word"
type_synonym u16 = "16 word"
type_synonym u32 = "32 word"
type_synonym u64 = "64 word"
type_synonym float64 = real
type_synonym time = int
type_synonym duration = int

text \<open>A run-time panic, and a returned \<open>error\<close> value; a fallible operation is a sum.\<close>

datatype panic = IndexOutOfRange | SliceBounds | NilDereference | SendOnClosed | CloseOfClosed | TypeAssertion

type_synonym 'a go = "panic + 'a"
type_synonym 'a result = "string + 'a"

named_theorems go_defs \<open>definitions of the shared Go operations\<close>
named_theorems codec_simps \<open>lengths and round trips of the byte encodings\<close>

definition millisecond :: duration where
  "millisecond = 1000000"

definition second :: duration where
  "second = 1000 * millisecond"

definition minute :: duration where
  "minute = 60 * second"

section \<open>Maps\<close>

text \<open>\<open>m[k]\<close> with one result reads the zero value of the element type for a missing key.\<close>

definition map_get :: "'v \<Rightarrow> ('k \<rightharpoonup> 'v) \<Rightarrow> 'k \<Rightarrow> 'v" where
  "map_get z m k = (case m k of None \<Rightarrow> z | Some v \<Rightarrow> v)"

text \<open>\<open>for k := range m\<close> visits every key once, in an order the language leaves open.\<close>

definition range_order :: "('k \<rightharpoonup> 'v) \<Rightarrow> 'k list \<Rightarrow> bool" where
  "range_order m ks \<longleftrightarrow> distinct ks \<and> set ks = dom m"

lemma map_get_simps [simp]:
  "map_get z (m(k \<mapsto> v)) k = v"
  "k' \<noteq> k \<Longrightarrow> map_get z (m(k \<mapsto> v)) k' = map_get z m k'"
  "m k = None \<Longrightarrow> map_get z m k = z"
  "m k = Some v \<Longrightarrow> map_get z m k = v"
  by (simp_all add: map_get_def)

lemma range_orderD:
  assumes "range_order m ks"
  shows "distinct ks" "set ks = dom m" "\<And>k. k \<in> set ks \<Longrightarrow> \<exists>v. m k = Some v"
  using assms by (auto simp: range_order_def)

section \<open>Slices\<close>

definition swap :: "'a list \<Rightarrow> nat \<Rightarrow> nat \<Rightarrow> 'a list" where
  "swap xs i j = xs[i := xs ! j, j := xs ! i]"

lemma length_swap [simp]: "length (swap xs i j) = length xs"
  by (simp add: swap_def)

lemma nth_swap:
  "i < length xs \<Longrightarrow> j < length xs \<Longrightarrow> k < length xs \<Longrightarrow>
     swap xs i j ! k = (if k = i then xs ! j else if k = j then xs ! i else xs ! k)"
  by (auto simp: swap_def nth_list_update)

lemma mset_swap_eq [simp]: "i < length xs \<Longrightarrow> j < length xs \<Longrightarrow> mset (swap xs i j) = mset xs"
  by (simp add: swap_def mset_swap)

lemma set_swap [simp]: "i < length xs \<Longrightarrow> j < length xs \<Longrightarrow> set (swap xs i j) = set xs"
  by (metis mset_swap_eq set_mset_mset)

section \<open>The exchange sort\<close>

text \<open>
  The solvers sort their slices in place with the same two loops:
  \<^verbatim>\<open>
  for i := 0; i < len(A)-1; i++ {
      for j := i + 1; j < len(A); j++ {
          if A[j].key < A[i].key { A[i], A[j] = A[j], A[i] }
      }
  }
  \<close>
  \<open>exchange_inner\<close> is the inner loop from \<open>j\<close>, \<open>exchange_outer\<close> the outer from
  \<open>i\<close>. The outer bound \<open>i < len(A)-1\<close> is written \<open>Suc i < length A\<close>, which is the
  same for every length, zero included.
\<close>

function exchange_inner :: "('a \<Rightarrow> 'k::linorder) \<Rightarrow> nat \<Rightarrow> nat \<Rightarrow> 'a list \<Rightarrow> 'a list" where
  "exchange_inner key i j A =
     (if j < length A
      then exchange_inner key i (Suc j) (if key (A ! j) < key (A ! i) then swap A i j else A)
      else A)"
  by pat_completeness auto
termination
  by (relation "measure (\<lambda>(key, i, j, A). length A - j)") auto

lemma length_exchange_inner [simp]: "length (exchange_inner key i j A) = length A"
  by (induction key i j A rule: exchange_inner.induct) (subst exchange_inner.simps, auto)

declare exchange_inner.simps [simp del]

function exchange_outer :: "('a \<Rightarrow> 'k::linorder) \<Rightarrow> nat \<Rightarrow> 'a list \<Rightarrow> 'a list" where
  "exchange_outer key i A =
     (if Suc i < length A then exchange_outer key (Suc i) (exchange_inner key i (Suc i) A) else A)"
  by pat_completeness auto
termination
  by (relation "measure (\<lambda>(key, i, A). length A - i)") auto

declare exchange_outer.simps [simp del]

definition exchange_sort :: "('a \<Rightarrow> 'k::linorder) \<Rightarrow> 'a list \<Rightarrow> 'a list" where
  "exchange_sort key A = exchange_outer key 0 A"

lemma mset_exchange_inner:
  "i < length A \<Longrightarrow> mset (exchange_inner key i j A) = mset A"
proof (induction key i j A rule: exchange_inner.induct)
  case (1 key i j A)
  then show ?case by (subst exchange_inner.simps) auto
qed

lemma exchange_inner_prefix:
  "i < j \<Longrightarrow> k < i \<Longrightarrow> exchange_inner key i j A ! k = A ! k"
proof (induction key i j A rule: exchange_inner.induct)
  case (1 key i j A)
  then show ?case
    by (subst exchange_inner.simps) (auto simp: nth_swap)
qed

text \<open>What the inner loop has passed is not smaller than the entry at \<open>i\<close>.\<close>

lemma exchange_inner_min:
  assumes "i < j" "\<forall>k. i \<le> k \<and> k < j \<and> k < length A \<longrightarrow> key (A ! i) \<le> key (A ! k)"
    and "i \<le> m" "m < length A"
  shows "key (exchange_inner key i j A ! i) \<le> key (exchange_inner key i j A ! m)"
  using assms
proof (induction key i j A rule: exchange_inner.induct)
  case (1 key i j A)
  show ?case
  proof (cases "j < length A")
    case False
    then show ?thesis using 1 by (subst (1 2) exchange_inner.simps) auto
  next
    case True
    let ?A = "if key (A ! j) < key (A ! i) then swap A i j else A"
    have "\<forall>k. i \<le> k \<and> k < Suc j \<and> k < length ?A \<longrightarrow> key (?A ! i) \<le> key (?A ! k)"
      using True "1.prems" by (auto simp: nth_swap less_Suc_eq)
    with True "1.prems" have "key (exchange_inner key i (Suc j) ?A ! i)
        \<le> key (exchange_inner key i (Suc j) ?A ! m)"
      by (intro "1.IH") auto
    with True show ?thesis by (simp add: exchange_inner.simps [of key i j A])
  qed
qed

lemma exchange_outer_correct:
  assumes "\<forall>p q. p < i \<and> p \<le> q \<and> q < length A \<longrightarrow> key (A ! p) \<le> key (A ! q)"
  shows "mset (exchange_outer key i A) = mset A \<and> sorted (map key (exchange_outer key i A))"
  using assms
proof (induction key i A rule: exchange_outer.induct)
  case (1 key i A)
  show ?case
  proof (cases "Suc i < length A")
    case False
    have "key (A ! p) \<le> key (A ! q)" if "p \<le> q" "q < length A" for p q
      using False "1.prems" that by (cases "p < i") (auto simp: not_less dest: le_antisym)
    then have "sorted (map key A)" by (auto simp: sorted_iff_nth_mono)
    with False show ?thesis by (simp add: exchange_outer.simps [of key i A])
  next
    case True
    let ?B = "exchange_inner key i (Suc i) A"
    have mB: "mset ?B = mset A" using True by (simp add: mset_exchange_inner)
    have tail: "\<exists>q'. i \<le> q' \<and> q' < length A \<and> ?B ! q = A ! q'" if q: "i \<le> q" "q < length A" for q
    proof -
      have "take i ?B = take i A"
        using True by (intro nth_equalityI) (auto simp: exchange_inner_prefix)
      moreover have "mset (take i ?B) + mset (drop i ?B) = mset (take i A) + mset (drop i A)"
        using mB by (metis append_take_drop_id mset_append)
      ultimately have "mset (drop i ?B) = mset (drop i A)" by simp
      then have sd: "set (drop i ?B) = set (drop i A)" by (metis set_mset_mset)
      have "?B ! q = drop i ?B ! (q - i)" using q by simp
      also have "\<dots> \<in> set (drop i ?B)" using q by (intro nth_mem) auto
      finally have "?B ! q \<in> set (drop i A)" using sd by simp
      then obtain r where "r < length A - i" "?B ! q = A ! (i + r)"
        by (auto simp: in_set_conv_nth)
      then show ?thesis by (intro exI [of _ "i + r"]) auto
    qed
    have "key (?B ! p) \<le> key (?B ! q)" if pq: "p < Suc i" "p \<le> q" "q < length A" for p q
    proof (cases "p = i")
      case True
      have "\<forall>k. i \<le> k \<and> k < Suc i \<and> k < length A \<longrightarrow> key (A ! i) \<le> key (A ! k)"
        by (auto simp: less_Suc_eq)
      with True that show ?thesis by (simp add: exchange_inner_min)
    next
      case False
      with that have "p < i" by simp
      then have Bp: "?B ! p = A ! p" by (simp add: exchange_inner_prefix)
      show ?thesis
      proof (cases "q < i")
        case True
        then show ?thesis using Bp \<open>p < i\<close> that "1.prems" by (simp add: exchange_inner_prefix)
      next
        case False
        then have "i \<le> q" by simp
        from tail [OF this pq(3)] obtain q' where "i \<le> q'" "q' < length A" "?B ! q = A ! q'" by blast
        then show ?thesis using Bp \<open>p < i\<close> "1.prems" by simp
      qed
    qed
    with True mB show ?thesis
      using "1.IH" [OF True] by (simp add: exchange_outer.simps [of key i A])
  qed
qed

theorem exchange_sort_correct:
  "mset (exchange_sort key A) = mset A" "sorted (map key (exchange_sort key A))"
  using exchange_outer_correct [of 0 A key] by (simp_all add: exchange_sort_def)

lemma set_exchange_sort [simp]: "set (exchange_sort key A) = set A"
  by (metis exchange_sort_correct(1) set_mset_mset)

lemma length_exchange_sort [simp]: "length (exchange_sort key A) = length A"
  by (metis exchange_sort_correct(1) size_mset)

lemma exchange_sort_map_distinct: "distinct (map f (exchange_sort key A)) = distinct (map f A)"
  by (metis exchange_sort_correct(1) mset_eq_imp_distinct_iff mset_map)

end
