(* ===== verification/Go_Bytes.thy ===== *)
theory Go_Bytes
  imports Go_Prelude
begin

unbundle bit_operations_syntax

text \<open>
  Byte slices: \<open>copy\<close> into a slice at an offset, and the big-endian encodings of
  \<open>encoding/binary\<close>. The interface \<open>byte_codec\<close> states what a fixed-width encoding
  promises (width, and both round trips); its lemmas say what a read returns after a write
  into a larger buffer, at the same place and elsewhere.
\<close>

section \<open>Writing into a buffer\<close>

text \<open>\<open>copy(buf[off:], bs)\<close>: as many bytes as fit, the length of \<open>buf\<close> unchanged.\<close>

definition copy_at :: "byte list \<Rightarrow> nat \<Rightarrow> byte list \<Rightarrow> byte list" where
  "copy_at buf off bs =
     take off buf @ take (length buf - off) bs @ drop (off + length bs) buf"

lemma length_copy_at [simp]: "off \<le> length buf \<Longrightarrow> length (copy_at buf off bs) = length buf"
  by (auto simp: copy_at_def min_def)

lemma copy_at_fits:
  "off + length bs \<le> length buf \<Longrightarrow> copy_at buf off bs = take off buf @ bs @ drop (off + length bs) buf"
  by (simp add: copy_at_def)

lemma take_copy_at [simp]: "n \<le> off \<Longrightarrow> off \<le> length buf \<Longrightarrow> take n (copy_at buf off bs) = take n buf"
  by (simp add: copy_at_def min_def)

lemma take_copy_at_end:
  "off + length bs \<le> length buf \<Longrightarrow> take (off + length bs) (copy_at buf off bs) = take off buf @ bs"
  by (simp add: copy_at_fits)

lemma drop_copy_at [simp]:
  "off + length bs \<le> length buf \<Longrightarrow> off + length bs \<le> n \<Longrightarrow> drop n (copy_at buf off bs) = drop n buf"
  by (simp add: copy_at_fits)

lemma drop_copy_at_here:
  "off + length bs \<le> length buf \<Longrightarrow> drop off (copy_at buf off bs) = bs @ drop (off + length bs) buf"
  by (simp add: copy_at_fits)

section \<open>Fixed-width encodings\<close>

definition put_u16 :: "u16 \<Rightarrow> byte list" where
  "put_u16 v = [ucast (drop_bit 8 v), ucast v]"

definition get_u16 :: "byte list \<Rightarrow> u16" where
  "get_u16 bs = push_bit 8 (ucast (bs ! 0)) OR ucast (bs ! 1)"

definition put_u32 :: "u32 \<Rightarrow> byte list" where
  "put_u32 v = [ucast (drop_bit 24 v), ucast (drop_bit 16 v), ucast (drop_bit 8 v), ucast v]"

definition get_u32 :: "byte list \<Rightarrow> u32" where
  "get_u32 bs = push_bit 24 (ucast (bs ! 0)) OR push_bit 16 (ucast (bs ! 1))
     OR push_bit 8 (ucast (bs ! 2)) OR ucast (bs ! 3)"

locale byte_codec =
  fixes put :: "'v \<Rightarrow> byte list"
    and get :: "byte list \<Rightarrow> 'v"
    and width :: nat
  assumes length_put: "length (put v) = width"
    and get_put: "get (put v @ rest) = v"
    and put_get: "width \<le> length bs \<Longrightarrow> put (get bs) = take width bs"
begin

lemma get_copy_at_same:
  "off + width \<le> length buf \<Longrightarrow> get (drop off (copy_at buf off (put v))) = v"
  by (simp add: drop_copy_at_here length_put get_put)

lemma put_inject: "put v = put w \<Longrightarrow> v = w"
  by (metis append_Nil2 get_put)

lemma get_take: "width \<le> length bs \<Longrightarrow> get (take width bs) = get bs"
  by (metis append_Nil2 append_take_drop_id get_put put_get)

lemma get_append: "width \<le> length bs \<Longrightarrow> get (bs @ cs) = get bs"
  by (metis append_eq_conv_conj append_take_drop_id get_put put_get append_assoc)

lemma get_copy_at_before:
  assumes "n + width \<le> off" "off \<le> length buf"
  shows "get (drop n (copy_at buf off bs)) = get (drop n buf)"
proof -
  have "take width (drop n (copy_at buf off bs)) = drop n (take (n + width) (copy_at buf off bs))"
    by (simp add: drop_take)
  also have "\<dots> = take width (drop n buf)" using assms by (simp add: drop_take)
  finally show ?thesis using assms get_take [of "drop n (copy_at buf off bs)"] get_take [of "drop n buf"]
    by simp
qed

end

lemma u16_of_bytes: "push_bit 8 (ucast (ucast (drop_bit 8 v) :: byte)) OR ucast (ucast v :: byte) = (v :: u16)"
  by (rule bit_word_eqI) (auto simp: bit_simps)

lemma u32_of_bytes:
  "push_bit 24 (ucast (ucast (drop_bit 24 v) :: byte)) OR push_bit 16 (ucast (ucast (drop_bit 16 v) :: byte))
   OR push_bit 8 (ucast (ucast (drop_bit 8 v) :: byte)) OR ucast (ucast v :: byte) = (v :: u32)"
  (is "?w = v")
proof (rule bit_word_eqI)
  fix n :: nat
  assume "n < LENGTH(32)"
  then show "bit ?w n = bit v n"
    by (cases "n < 16"; cases "n < 24") (auto simp: bit_simps)
qed

lemma bit_byte_beyond [simp]: "8 \<le> n \<Longrightarrow> \<not> bit (b :: byte) n"
  using bit_imp_le_length [of b n] by auto

lemma bytes_of_u16:
  "put_u16 (push_bit 8 (ucast a) OR ucast b) = [a, b]"
  by (auto simp: put_u16_def intro!: bit_word_eqI simp: bit_simps)

lemma bytes_of_u32:
  "put_u32 (push_bit 24 (ucast a) OR push_bit 16 (ucast b) OR push_bit 8 (ucast c) OR ucast d) = [a, b, c, d]"
  by (auto simp: put_u32_def intro!: bit_word_eqI simp: bit_simps)

interpretation be16: byte_codec put_u16 get_u16 2
proof
  show "length (put_u16 v) = 2" for v by (simp add: put_u16_def)
  show "get_u16 (put_u16 v @ rest) = v" for v rest
    by (simp add: put_u16_def get_u16_def u16_of_bytes)
  show "put_u16 (get_u16 bs) = take 2 bs" if "2 \<le> length bs" for bs
    using that by (cases bs; cases "tl bs") (auto simp: get_u16_def bytes_of_u16)
qed

interpretation be32: byte_codec put_u32 get_u32 4
proof
  show "length (put_u32 v) = 4" for v by (simp add: put_u32_def)
  show "get_u32 (put_u32 v @ rest) = v" for v rest
    by (simp add: put_u32_def get_u32_def u32_of_bytes)
  show "put_u32 (get_u32 bs) = take 4 bs" if len: "4 \<le> length bs" for bs
  proof -
    obtain a b c d r where "bs = a # b # c # d # r"
      using len by (cases bs; cases "tl bs"; cases "tl (tl bs)"; cases "tl (tl (tl bs))") auto
    then show ?thesis by (simp add: get_u32_def bytes_of_u32)
  qed
qed

declare be16.length_put [codec_simps] be16.get_put [codec_simps]
  be32.length_put [codec_simps] be32.get_put [codec_simps]

end
