(* ===== verification/Go_Strings.thy ===== *)
theory Go_Strings
  imports Go_Bytes
begin

text \<open>
  What the code uses of \<open>strings\<close>, \<open>strconv\<close> and \<open>net\<close>: \<open>Join\<close>, \<open>Split\<close>,
  \<open>Itoa\<close>, \<open>ParseUint(s, 10, 16)\<close> with its error dropped, \<open>ParseIP\<close> and
  \<open>IP.String\<close> on IPv4 addresses, with the round trips the components rely on.
  An IP address is the 32-bit value of its four octets; \<open>nil\<close> is \<open>None\<close>. IPv6
  literals are outside the model: \<open>ParseIP\<close> of one is \<open>None\<close> here.
\<close>

section \<open>Join and Split\<close>

fun strings_join :: "string \<Rightarrow> string list \<Rightarrow> string" where
  "strings_join sep [] = []"
| "strings_join sep [x] = x"
| "strings_join sep (x # y # ys) = x @ sep @ strings_join sep (y # ys)"

text \<open>\<open>acc\<close> is the field being read; the leftmost separator ends it.\<close>

function split_from :: "string \<Rightarrow> string \<Rightarrow> string \<Rightarrow> string list" where
  "split_from sep acc s =
     (if s = [] then [acc]
      else if sep \<noteq> [] \<and> prefix sep s then acc # split_from sep [] (drop (length sep) s)
      else split_from sep (acc @ [hd s]) (tl s))"
  by pat_completeness auto
termination
  by (relation "measure (\<lambda>(sep, acc, s). length s)") auto

declare split_from.simps [simp del]

definition strings_split :: "string \<Rightarrow> string \<Rightarrow> string list" where
  "strings_split s sep = split_from sep [] s"

lemma split_from_rest: "sep \<noteq> [] \<Longrightarrow> hd sep \<notin> set x \<Longrightarrow> split_from sep acc x = [acc @ x]"
proof (induction x arbitrary: acc)
  case Nil
  then show ?case by (simp add: split_from.simps)
next
  case (Cons c x)
  have "\<not> prefix sep (c # x)" using Cons.prems by (cases sep) auto
  with Cons show ?case by (simp add: split_from.simps [of sep acc])
qed

lemma split_from_sep:
  "sep \<noteq> [] \<Longrightarrow> hd sep \<notin> set x \<Longrightarrow> split_from sep acc (x @ sep @ r) = (acc @ x) # split_from sep [] r"
proof (induction x arbitrary: acc)
  case Nil
  then show ?case by (simp add: split_from.simps [of sep acc])
next
  case (Cons c x)
  have "\<not> prefix sep ((c # x) @ sep @ r)" using Cons.prems by (cases sep) auto
  with Cons show ?case by (simp add: split_from.simps [of sep acc])
qed

theorem split_join:
  assumes "sep \<noteq> []" "xs \<noteq> []" "\<forall>x \<in> set xs. hd sep \<notin> set x"
  shows "strings_split (strings_join sep xs) sep = xs"
proof -
  have "split_from sep [] (strings_join sep xs) = xs"
    using assms(2,3)
  proof (induction xs rule: induct_list012)
    case (2 x)
    then show ?case using assms(1) by (simp add: split_from_rest)
  next
    case (3 x y ys)
    then show ?case using assms(1) by (simp add: split_from_sep)
  qed simp
  then show ?thesis by (simp add: strings_split_def)
qed

lemma join_inject:
  assumes "sep \<noteq> []" "xs \<noteq> []" "ys \<noteq> []" "\<forall>x \<in> set xs \<union> set ys. hd sep \<notin> set x"
    and "strings_join sep xs = strings_join sep ys"
  shows "xs = ys"
  using assms by (metis Un_iff split_join)

section \<open>Decimal numbers\<close>

definition digit :: "nat \<Rightarrow> char" where
  "digit d = char_of (48 + d)"

fun itoa :: "nat \<Rightarrow> string" where
  "itoa n = (if n < 10 then [digit n] else itoa (n div 10) @ [digit (n mod 10)])"

declare itoa.simps [simp del]

definition digit_val :: "char \<Rightarrow> nat option" where
  "digit_val c = (let n = of_char c :: nat in if 48 \<le> n \<and> n \<le> 57 then Some (n - 48) else None)"

fun parse_dec :: "nat \<Rightarrow> string \<Rightarrow> nat option" where
  "parse_dec acc [] = Some acc"
| "parse_dec acc (c # cs) = (case digit_val c of None \<Rightarrow> None | Some d \<Rightarrow> parse_dec (10 * acc + d) cs)"

text \<open>
  The value of \<open>strconv.ParseUint(s, 10, 16)\<close> when its error is ignored: 0 on a syntax
  error, the largest 16-bit value on a range error, whichever comes first in the string.
\<close>

fun parse_uint16_from :: "nat \<Rightarrow> string \<Rightarrow> nat" where
  "parse_uint16_from acc [] = acc"
| "parse_uint16_from acc (c # cs) =
     (case digit_val c of
        None \<Rightarrow> 0
      | Some d \<Rightarrow> if 10 * acc + d > 65535 then 65535 else parse_uint16_from (10 * acc + d) cs)"

definition parse_uint16 :: "string \<Rightarrow> nat" where
  "parse_uint16 s = parse_uint16_from 0 s"

lemma digit_val_digit [simp]: "d < 10 \<Longrightarrow> digit_val (digit d) = Some d"
  by (simp add: digit_val_def digit_def)

lemma digit_neq: "d < 10 \<Longrightarrow> 48 + d \<noteq> (of_char c :: nat) \<Longrightarrow> digit d \<noteq> c"
  by (auto simp: digit_def)

lemma itoa_nonempty [simp]: "itoa n \<noteq> []"
  by (subst itoa.simps) simp

lemma set_itoa: "set (itoa n) \<subseteq> digit ` {0..<10}"
proof (induction n rule: itoa.induct)
  case (1 n)
  then show ?case by (subst itoa.simps) auto
qed

lemma char_notin_itoa: "\<not> (48 \<le> (of_char c :: nat) \<and> (of_char c :: nat) \<le> 57) \<Longrightarrow> c \<notin> set (itoa n)"
  using set_itoa [of n] by (auto simp: digit_def)

lemma parse_dec_append: "parse_dec acc (xs @ ys) = (case parse_dec acc xs of None \<Rightarrow> None | Some a \<Rightarrow> parse_dec a ys)"
  by (induction acc xs rule: parse_dec.induct) (auto split: option.splits)

lemma parse_itoa: "parse_dec 0 (itoa n) = Some n"
proof (induction n rule: itoa.induct)
  case (1 n)
  then show ?case
    by (cases "n < 10") (simp_all add: itoa.simps [of n] parse_dec_append)
qed

lemma parse_uint16_dec:
  "parse_dec acc s = Some n \<Longrightarrow> n \<le> 65535 \<Longrightarrow> parse_uint16_from acc s = n"
proof (induction acc s rule: parse_dec.induct)
  case (2 acc c cs)
  have mono: "parse_dec a t = Some m \<Longrightarrow> a \<le> m" for a t m
    by (induction a t rule: parse_dec.induct) (fastforce split: option.splits)+
  from 2 show ?case by (auto split: option.splits dest: mono)
qed simp

lemma parse_uint16_itoa [simp]: "n \<le> 65535 \<Longrightarrow> parse_uint16 (itoa n) = n"
  unfolding parse_uint16_def by (rule parse_uint16_dec [OF parse_itoa])

lemma parse_uint16_bound: "parse_uint16 s \<le> 65535"
proof -
  have "acc \<le> 65535 \<Longrightarrow> parse_uint16_from acc s \<le> 65535" for acc
    by (induction acc s rule: parse_uint16_from.induct) (auto split: option.splits)
  then show ?thesis by (simp add: parse_uint16_def)
qed

section \<open>IPv4 addresses\<close>

type_synonym net_IP = "u32 option"

text \<open>An octet is one to three digits without a leading zero, at most 255.\<close>

definition parse_octet :: "string \<Rightarrow> byte option" where
  "parse_octet f =
     (if f = [] \<or> (1 < length f \<and> hd f = CHR ''0'') then None
      else case parse_dec 0 f of None \<Rightarrow> None | Some n \<Rightarrow> if n \<le> 255 then Some (of_nat n) else None)"

definition ParseIP :: "string \<Rightarrow> net_IP" where
  "ParseIP s =
     (case map parse_octet (strings_split s ''.'') of
        [Some a, Some b, Some c, Some d] \<Rightarrow> Some (get_u32 [a, b, c, d])
      | _ \<Rightarrow> None)"

definition ip_string :: "u32 \<Rightarrow> string" where
  "ip_string w = strings_join ''.'' (map (\<lambda>b. itoa (unat b)) (put_u32 w))"

lemma itoa_leading: "hd (itoa n) = CHR ''0'' \<Longrightarrow> n = 0"
proof (induction n rule: itoa.induct)
  case (1 n)
  have z: "digit d = CHR ''0'' \<longleftrightarrow> d = 0" if "d < 10" for d
    using that by (auto simp: digit_def char_of_eq_iff take_bit_eq_mod)
  from 1 show ?case by (cases "n < 10") (auto simp: itoa.simps [of n] z hd_append)
qed

lemma parse_octet_itoa [simp]: "parse_octet (itoa (unat b)) = Some b"
proof -
  have "\<not> (1 < length (itoa (unat b)) \<and> hd (itoa (unat b)) = CHR ''0'')"
    using itoa_leading [of "unat b"] by (auto simp: itoa.simps [of 0])
  moreover have "unat b \<le> 255" using unsigned_less [of b, where 'a = nat] by simp
  ultimately show ?thesis by (simp add: parse_octet_def parse_itoa)
qed

theorem ParseIP_ip_string [simp]: "ParseIP (ip_string w) = Some w"
proof -
  have "strings_split (ip_string w) ''.'' = map (\<lambda>b. itoa (unat b)) (put_u32 w)"
    unfolding ip_string_def by (rule split_join) (auto simp: put_u32_def char_notin_itoa)
  moreover have "get_u32 (put_u32 w) = w" using be32.get_put [of w "[]"] by simp
  ultimately show ?thesis by (simp add: ParseIP_def put_u32_def)
qed

lemma ip_string_inject [simp]: "ip_string v = ip_string w \<longleftrightarrow> v = w"
  by (metis ParseIP_ip_string option.inject)

lemma set_strings_join: "set (strings_join sep xs) \<subseteq> set sep \<union> \<Union> (set ` set xs)"
  by (induction sep xs rule: strings_join.induct) auto

lemma char_notin_ip_string:
  "\<not> (48 \<le> (of_char c :: nat) \<and> (of_char c :: nat) \<le> 57) \<Longrightarrow> c \<noteq> CHR ''.'' \<Longrightarrow> c \<notin> set (ip_string w)"
  using set_strings_join [of "''.''" "map (\<lambda>b. itoa (unat b)) (put_u32 w)"] char_notin_itoa [of c]
  by (auto simp: ip_string_def)

end
