(* ===== verification/Tunnel_Packet.thy ===== *)
theory Tunnel_Packet
  imports Go_Strings
begin

text \<open>
  The tunnel packet of data-proxy/tunnel-packet/tunnel-packet.go: a 24 byte header (hop
  position, four hop addresses, payload length, port, protocol) and a payload of
  sub-packets, each a user id, a length and data.

  The theory holds the packet record, its setters, the append, serialise and parse
  operations, the invariant \<open>wf_packet\<close>, and the abstraction \<open>holds\<close> that relates a packet
  to the list of sub-packets appended to it. The lemmas show that each operation keeps the
  invariant, that a serialised packet parses back to its header and sub-packets, and what
  happens at the limits of the format.
\<close>

section \<open>Data\<close>

definition HeaderSize :: nat where
  "HeaderSize = 24"

definition MaxHops :: nat where
  "MaxHops = 4"

record Packet =
  Buf :: "byte list"
  BuffSize :: nat
  HopPos :: byte
  HopIP :: "u32 list"
  PayloadLen :: u16
  Port :: u16
  Protocol :: byte
  Wp :: nat

record SubPacket =
  UserID :: u32
  Data :: "byte list"

definition ErrInvalidHeader :: string where
  "ErrInvalidHeader = ''invalid packet header: length too short''"

section \<open>Operations\<close>

definition zero_packet :: Packet where
  "zero_packet = \<lparr>Buf = [], BuffSize = 0, HopPos = 0, HopIP = [0, 0, 0, 0],
     PayloadLen = 0, Port = 0, Protocol = 0, Wp = 0\<rparr>"

definition NewPacket :: "nat \<Rightarrow> Packet" where
  "NewPacket buffSizes =
     zero_packet\<lparr>BuffSize := buffSizes, Buf := replicate buffSizes 0, Wp := HeaderSize\<rparr>"

definition SetHopIP :: "int \<Rightarrow> net_IP \<Rightarrow> Packet \<Rightarrow> Packet" where
  "SetHopIP hopIdx ip p =
     (if hopIdx < 0 \<or> hopIdx \<ge> int MaxHops then p
      else case ip of
        None \<Rightarrow> p
      | Some ip4 \<Rightarrow> p\<lparr>HopIP := (HopIP p)[nat hopIdx := ip4]\<rparr>)"

definition SetHopPos :: "byte \<Rightarrow> Packet \<Rightarrow> Packet" where
  "SetHopPos pos p = (if pos < of_nat MaxHops then p\<lparr>HopPos := pos\<rparr> else p)"

definition AdvanceHop :: "Packet \<Rightarrow> Packet go" where
  "AdvanceHop p =
     (if HopPos p < of_nat (MaxHops - 1)
      then let pos = HopPos p + 1
           in if Buf p = [] then Inl IndexOutOfRange
              else Inr (p\<lparr>HopPos := pos, Buf := (Buf p)[0 := pos]\<rparr>)
      else Inr p)"

definition AdvanceRawHop :: "byte list \<Rightarrow> byte list" where
  "AdvanceRawHop pkt =
     (if HeaderSize \<le> length pkt \<and> pkt ! 0 < of_nat (MaxHops - 1) then pkt[0 := pkt ! 0 + 1] else pkt)"

definition SetPort :: "u16 \<Rightarrow> Packet \<Rightarrow> Packet" where
  "SetPort port p = p\<lparr>Port := port\<rparr>"

definition SetProtocol :: "string \<Rightarrow> Packet \<Rightarrow> Packet" where
  "SetProtocol protocol p = (if protocol = ''tcp'' then p\<lparr>Protocol := 6\<rparr> else p\<lparr>Protocol := 17\<rparr>)"

text \<open>
  \<open>Buf[Wp:]\<close> panics when \<open>Wp\<close> is beyond the slice, \<open>PutUint32\<close> and \<open>PutUint16\<close> when it
  is too short; \<open>copy\<close> writes what fits. \<open>uint16(len(data))\<close> keeps the low 16 bits.
\<close>

definition AppendUserPacket :: "u32 \<Rightarrow> byte list \<Rightarrow> Packet \<Rightarrow> (bool \<times> Packet) go" where
  "AppendUserPacket userID data p =
     (let subSize = 4 + 2 + length data
      in if Wp p + subSize > BuffSize p then Inr (False, p)
         else if length (Buf p) < Wp p then Inl SliceBounds
         else if length (Buf p) < Wp p + 4 + 2 then Inl IndexOutOfRange
         else
           let p1 = p\<lparr>Buf := copy_at (Buf p) (Wp p) (put_u32 userID), Wp := Wp p + 4\<rparr>;
               p2 = p1\<lparr>Buf := copy_at (Buf p1) (Wp p1) (put_u16 (of_nat (length data))), Wp := Wp p1 + 2\<rparr>;
               p3 = p2\<lparr>Buf := copy_at (Buf p2) (Wp p2) data, Wp := Wp p2 + length data\<rparr>
           in Inr (True, p3\<lparr>PayloadLen := of_nat (Wp p3 - HeaderSize)\<rparr>))"

definition SerializeHead :: "Packet \<Rightarrow> Packet go" where
  "SerializeHead p =
     (if length (Buf p) < HeaderSize then Inl SliceBounds
      else
        let b = (Buf p)[0 := HopPos p];
            b = copy_at b 1 (put_u32 (HopIP p ! 0));
            b = copy_at b 5 (put_u32 (HopIP p ! 1));
            b = copy_at b 9 (put_u32 (HopIP p ! 2));
            b = copy_at b 13 (put_u32 (HopIP p ! 3));
            b = copy_at b 17 (put_u16 (PayloadLen p));
            b = copy_at b 19 (put_u16 (Port p));
            b = b[21 := Protocol p]
        in Inr (p\<lparr>Buf := b\<rparr>))"

definition TotalBytes :: "Packet \<Rightarrow> nat" where
  "TotalBytes p = HeaderSize + unat (PayloadLen p)"

text \<open>The field reads that \<open>ParseHeader\<close> and \<open>Parse\<close> share.\<close>

definition read_header :: "byte list \<Rightarrow> Packet \<Rightarrow> Packet" where
  "read_header b p =
     p\<lparr>HopPos := b ! 0,
       HopIP := [get_u32 (drop 1 b), get_u32 (drop 5 b), get_u32 (drop 9 b), get_u32 (drop 13 b)],
       PayloadLen := get_u16 (drop 17 b),
       Port := get_u16 (drop 19 b),
       Protocol := b ! 21\<rparr>"

definition ParseHeader :: "byte list \<Rightarrow> Packet result" where
  "ParseHeader raw =
     (if length raw < HeaderSize then Inl ErrInvalidHeader
      else let p = zero_packet\<lparr>Buf := copy_at (replicate HeaderSize 0) 0 (take HeaderSize raw)\<rparr>
           in Inr (read_header (take HeaderSize (Buf p)) p))"

text \<open>
  The loop of \<open>Parse\<close> over what is left in the reader. \<open>binary.Read\<close> fails on fewer bytes
  than the value has; \<open>Read\<close> fails only on an exhausted reader (also for an empty \<open>data\<close>),
  and otherwise fills what it can of \<open>data\<close>, the rest of which stays zero.
\<close>

function parse_subs :: "byte list \<Rightarrow> SubPacket list" where
  "parse_subs r =
     (if length r < 4 then []
      else let userID = get_u32 r; r1 = drop 4 r
        in if length r1 < 2 then []
           else let subLen = unat (get_u16 r1); r2 = drop 2 r1
             in if r2 = [] then []
                else \<lparr>UserID = userID, Data = copy_at (replicate subLen 0) 0 r2\<rparr>
                       # parse_subs (drop subLen r2))"
  by pat_completeness auto
termination
  by (relation "measure length") auto

declare parse_subs.simps [simp del]

definition Parse :: "byte list \<Rightarrow> nat \<Rightarrow> (Packet \<times> SubPacket list) result go" where
  "Parse raw bufferSize =
     (if length raw < HeaderSize then Inr (Inl ''raw data too short'')
      else
        let p = NewPacket bufferSize;
            p = p\<lparr>Buf := copy_at (Buf p) 0 raw\<rparr>
        in if length (Buf p) < HeaderSize then Inl SliceBounds
           else
             let p = read_header (take HeaderSize (Buf p)) p;
                 payloadEnd = HeaderSize + unat (PayloadLen p)
             in if payloadEnd > length raw \<or> payloadEnd > bufferSize
                then Inr (Inl ''invalid payload length'')
                else Inr (Inr (p, parse_subs (drop HeaderSize (take payloadEnd (Buf p))))))"

lemmas packet_consts = HeaderSize_def MaxHops_def

section \<open>Well-formed packets and their content\<close>

text \<open>
  \<open>wf_packet\<close> is what \<open>NewPacket\<close> establishes for a buffer that holds a header and the
  operations keep. \<open>payload\<close> is the written part of the buffer, \<open>holds\<close> says which
  sub-packets it encodes.
\<close>

definition wf_packet :: "Packet \<Rightarrow> bool" where
  "wf_packet p \<longleftrightarrow> length (Buf p) = BuffSize p \<and> HeaderSize \<le> Wp p \<and> Wp p \<le> BuffSize p
     \<and> length (HopIP p) = MaxHops \<and> PayloadLen p = of_nat (Wp p - HeaderSize)"

definition payload :: "Packet \<Rightarrow> byte list" where
  "payload p = drop HeaderSize (take (Wp p) (Buf p))"

definition encode_sub :: "SubPacket \<Rightarrow> byte list" where
  "encode_sub s = put_u32 (UserID s) @ put_u16 (of_nat (length (Data s))) @ Data s"

definition holds :: "Packet \<Rightarrow> SubPacket list \<Rightarrow> bool" where
  "holds p subs \<longleftrightarrow> wf_packet p \<and> payload p = concat (map encode_sub subs)"

text \<open>The header as 22 bytes; the two bytes of padding keep what the buffer had.\<close>

definition header_bytes :: "Packet \<Rightarrow> byte list" where
  "header_bytes p = HopPos p # put_u32 (HopIP p ! 0) @ put_u32 (HopIP p ! 1) @ put_u32 (HopIP p ! 2)
     @ put_u32 (HopIP p ! 3) @ put_u16 (PayloadLen p) @ put_u16 (Port p) @ [Protocol p]"

definition same_header :: "Packet \<Rightarrow> Packet \<Rightarrow> bool" where
  "same_header p q \<longleftrightarrow> HopPos p = HopPos q \<and> HopIP p = HopIP q \<and> PayloadLen p = PayloadLen q
     \<and> Port p = Port q \<and> Protocol p = Protocol q"

lemma length_header_bytes [simp]: "length (header_bytes p) = 22"
  by (simp add: header_bytes_def codec_simps)

lemma NewPacket_holds: "HeaderSize \<le> n \<Longrightarrow> holds (NewPacket n) []"
  by (auto simp: holds_def wf_packet_def payload_def NewPacket_def zero_packet_def packet_consts)

lemma setters_hold:
  assumes "holds p subs"
  shows "holds (SetHopIP i ip p) subs" "holds (SetHopPos pos p) subs"
    "holds (SetPort port p) subs" "holds (SetProtocol proto p) subs"
  using assms
  by (auto simp: holds_def wf_packet_def payload_def SetHopIP_def SetHopPos_def SetPort_def
      SetProtocol_def split: option.splits)

text \<open>Writing a list just behind what is written extends it.\<close>

lemma copy_at_extend:
  "w + length bs \<le> length buf \<Longrightarrow> h \<le> w \<Longrightarrow>
     drop h (take (w + length bs) (copy_at buf w bs)) = drop h (take w buf) @ bs"
  by (simp add: copy_at_fits)

lemma append_fits:
  assumes "wf_packet p" "Wp p + 6 + length data \<le> BuffSize p"
  shows "\<exists>p'. AppendUserPacket userID data p = Inr (True, p') \<and> wf_packet p'
    \<and> payload p' = payload p @ encode_sub \<lparr>UserID = userID, Data = data\<rparr>
    \<and> Wp p' = Wp p + 6 + length data \<and> BuffSize p' = BuffSize p \<and> HopPos p' = HopPos p
    \<and> HopIP p' = HopIP p \<and> Port p' = Port p \<and> Protocol p' = Protocol p"
proof -
  have len: "length (Buf p) = BuffSize p" using assms(1) by (simp add: wf_packet_def)
  let ?b1 = "copy_at (Buf p) (Wp p) (put_u32 userID)"
  let ?b2 = "copy_at ?b1 (Wp p + 4) (put_u16 (of_nat (length data)))"
  let ?b3 = "copy_at ?b2 (Wp p + 6) data"
  have l: "length ?b1 = BuffSize p" "length ?b2 = BuffSize p" "length ?b3 = BuffSize p"
    using assms len by (simp_all add: codec_simps)
  have h: "HeaderSize \<le> Wp p" using assms(1) by (simp add: wf_packet_def)
  have "drop HeaderSize (take (Wp p + 4) ?b1) = payload p @ put_u32 userID"
    using copy_at_extend [of "Wp p" "put_u32 userID" "Buf p" HeaderSize] assms len h
    by (simp add: codec_simps payload_def)
  then have "drop HeaderSize (take (Wp p + 6) ?b2) = payload p @ put_u32 userID @ put_u16 (of_nat (length data))"
    using copy_at_extend [of "Wp p + 4" "put_u16 (of_nat (length data))" ?b1 HeaderSize] assms l h
    unfolding be16.length_put by (simp add: add.commute [of 6 "Wp p"])
  then have "drop HeaderSize (take (Wp p + 6 + length data) ?b3)
      = payload p @ encode_sub \<lparr>UserID = userID, Data = data\<rparr>"
    using copy_at_extend [of "Wp p + 6" data ?b2 HeaderSize] assms l h by (simp add: encode_sub_def)
  moreover have "AppendUserPacket userID data p = Inr (True, p\<lparr>Buf := ?b3,
      Wp := Wp p + 6 + length data, PayloadLen := of_nat (Wp p + 6 + length data - HeaderSize)\<rparr>)"
    using assms(2) len by (simp add: AppendUserPacket_def Let_def add.commute [of 6] add.assoc)
  ultimately show ?thesis
    using assms l by (simp add: wf_packet_def payload_def)
qed

lemma append_full:
  "BuffSize p < Wp p + 6 + length data \<Longrightarrow> AppendUserPacket userID data p = Inr (False, p)"
  by (simp add: AppendUserPacket_def)

section \<open>Serialising and parsing\<close>

lemma copy_at_next:
  "off = length x \<Longrightarrow> length bs \<le> length r \<Longrightarrow> copy_at (x @ r) off bs = (x @ bs) @ drop (length bs) r"
  by (simp add: copy_at_fits)

lemma update_next: "off = length x \<Longrightarrow> r \<noteq> [] \<Longrightarrow> (x @ r)[off := v] = (x @ [v]) @ drop 1 r"
  by (cases r) auto

lemma SerializeHead_bytes:
  assumes "HeaderSize \<le> length (Buf p)"
  shows "SerializeHead p = Inr (p\<lparr>Buf := header_bytes p @ drop 22 (Buf p)\<rparr>)"
proof -
  have "(Buf p)[0 := HopPos p] = [HopPos p] @ drop 1 (Buf p)"
    using assms by (cases "Buf p") (auto simp: packet_consts)
  then show ?thesis
    using assms
    by (simp add: SerializeHead_def Let_def packet_consts header_bytes_def copy_at_next update_next
        codec_simps del: append_assoc append_Cons)
qed

lemma read_header_bytes:
  assumes "length (HopIP p) = MaxHops"
  shows "same_header (read_header (header_bytes p @ rest) q) p"
proof -
  obtain a b c d where "HopIP p = [a, b, c, d]"
    using assms by (auto simp: packet_consts length_Suc_conv numeral_eq_Suc)
  then show ?thesis
    by (simp add: same_header_def read_header_def header_bytes_def codec_simps nth_append)
qed

lemma read_header_frame [simp]:
  "Buf (read_header b q) = Buf q" "BuffSize (read_header b q) = BuffSize q" "Wp (read_header b q) = Wp q"
  by (simp_all add: read_header_def)

lemma copy_at_all: "length bs = length buf \<Longrightarrow> copy_at buf 0 bs = bs"
  by (simp add: copy_at_def)

lemma unat_u16_of_nat: "n < 2 ^ 16 \<Longrightarrow> unat (of_nat n :: u16) = n"
  by (simp add: unsigned_of_nat take_bit_eq_mod)

definition sendable :: "SubPacket \<Rightarrow> bool" where
  "sendable s \<longleftrightarrow> Data s \<noteq> [] \<and> length (Data s) < 2 ^ 16"

lemma parse_encode_sub:
  assumes "length (Data s) < 2 ^ 16" "Data s @ r \<noteq> []"
  shows "parse_subs (encode_sub s @ r) = s # parse_subs r"
proof -
  have "unat (of_nat (length (Data s)) :: u16) = length (Data s)"
    using assms(1) by (simp add: unat_u16_of_nat)
  moreover have "copy_at (replicate (length (Data s)) 0) 0 (Data s @ r) = Data s"
    by (simp add: copy_at_def)
  ultimately show ?thesis
    using assms(2) by (subst parse_subs.simps) (simp add: encode_sub_def codec_simps Let_def)
qed

lemma parse_encode_subs:
  "\<forall>s \<in> set subs. sendable s \<Longrightarrow> parse_subs (concat (map encode_sub subs)) = subs"
proof (induction subs)
  case Nil
  show ?case by (simp add: parse_subs.simps)
next
  case (Cons s subs)
  then show ?case by (simp add: parse_encode_sub sendable_def)
qed

text \<open>A trailing empty sub-packet is not seen: the reader is exhausted when its data is read.\<close>

lemma parse_encode_empty: "Data s = [] \<Longrightarrow> parse_subs (encode_sub s) = []"
  by (subst parse_subs.simps) (simp add: encode_sub_def codec_simps Let_def)

text \<open>The payload length fits its 16 bits in every buffer up to 24 + 65535 bytes.\<close>

lemma TotalBytes_Wp:
  "wf_packet p \<Longrightarrow> BuffSize p < HeaderSize + 2 ^ 16 \<Longrightarrow> TotalBytes p = Wp p"
  using unat_u16_of_nat [of "Wp p - HeaderSize"] by (auto simp: wf_packet_def TotalBytes_def)

lemma Parse_wire:
  assumes "wf_packet p" "BuffSize p < HeaderSize + 2 ^ 16" "Wp p \<le> bufferSize"
    and raw: "raw = take (Wp p) (header_bytes p @ drop 22 (Buf p))"
  shows "\<exists>q. Parse raw bufferSize = Inr (Inr (q, parse_subs (payload p))) \<and> same_header q p
    \<and> take (Wp p) (Buf q) = raw"
proof -
  have w: "HeaderSize \<le> Wp p" "Wp p \<le> length (Buf p)" using assms(1) by (auto simp: wf_packet_def)
  have lr: "length raw = Wp p" using raw w by (simp add: packet_consts)
  let ?b = "copy_at (replicate bufferSize 0) 0 raw"
  have b: "?b = raw @ replicate (bufferSize - Wp p) 0" using lr assms(3) by (simp add: copy_at_def)
  have "take HeaderSize raw = take HeaderSize (header_bytes p @ drop 22 (Buf p))"
    using raw w by (simp only: take_take min_absorb1)
  then have tk: "take HeaderSize ?b = header_bytes p @ take 2 (drop 22 (Buf p))"
    using w lr unfolding b by (simp add: packet_consts)
  have h: "same_header (read_header (take HeaderSize ?b) q) p" for q
    using read_header_bytes assms(1) unfolding tk by (simp add: wf_packet_def)
  have pe: "HeaderSize + unat (PayloadLen p) = Wp p"
    using TotalBytes_Wp [OF assms(1,2)] by (simp add: TotalBytes_def)
  have "drop HeaderSize raw = payload p"
    using raw w by (simp add: payload_def packet_consts drop_take)
  then show ?thesis
    using h w lr assms(3) pe b
    by (auto simp: Parse_def Let_def NewPacket_def same_header_def)
qed

lemma parse_subs_length: "6 * length (parse_subs r) \<le> length r"
proof (induction r rule: parse_subs.induct)
  case (1 r)
  show ?case
  proof (cases "length r < 7")
    case True
    then show ?thesis by (subst parse_subs.simps) (auto simp: Let_def)
  next
    case False
    let ?n = "unat (get_u16 (drop 4 r))"
    from False have "6 * length (parse_subs (drop ?n (drop 2 (drop 4 r)))) \<le> length r - 6 - ?n"
      using 1 [OF _ refl refl _ refl refl] by (simp add: not_less add.commute)
    with False show ?thesis by (subst parse_subs.simps) (auto simp: Let_def)
  qed
qed

lemma Parse_cases:
  assumes "HeaderSize \<le> bufferSize"
  shows "(\<exists>e. Parse raw bufferSize = Inr (Inl e)
       \<and> (length raw < HeaderSize
          \<or> HeaderSize + unat (get_u16 (drop 17 raw)) > min (length raw) bufferSize))
    \<or> (\<exists>p subs. Parse raw bufferSize = Inr (Inr (p, subs))
       \<and> HeaderSize \<le> length raw \<and> HeaderSize + unat (get_u16 (drop 17 raw)) \<le> min (length raw) bufferSize
       \<and> 6 * length subs \<le> unat (PayloadLen p) \<and> length (Buf p) = bufferSize)"
proof (cases "length raw < HeaderSize")
  case False
  let ?b = "copy_at (replicate bufferSize 0) 0 raw"
  have lb: "length ?b = bufferSize" by simp
  have "take HeaderSize ?b = take HeaderSize raw"
    using False assms by (simp add: copy_at_def)
  then have "take 2 (drop 17 (take HeaderSize ?b)) = take 2 (drop 17 raw)"
    by (simp add: drop_take HeaderSize_def)
  then have pl: "get_u16 (drop 17 (take HeaderSize ?b)) = get_u16 (drop 17 raw)"
    using False assms lb be16.get_take [of "drop 17 raw"] be16.get_take [of "drop 17 (take HeaderSize ?b)"]
    by (simp add: HeaderSize_def)
  let ?n = "unat (get_u16 (drop 17 raw))"
  have "6 * length (parse_subs (drop HeaderSize (take (HeaderSize + ?n) ?b))) \<le> ?n"
    by (rule order_trans [OF parse_subs_length]) (simp add: drop_take)
  with False assms lb pl show ?thesis
    by (auto simp: Parse_def Let_def NewPacket_def read_header_def)
qed (auto simp: Parse_def)

section \<open>Properties\<close>

text \<open>C4. Round trip of a packet: a well-formed packet that holds the sub-packets \<open>subs\<close>, none of
  them empty or longer than a 16 bit length can say, is serialised without a panic, and
  \<open>Parse\<close> of the \<open>TotalBytes\<close> that are sent, with any buffer they fit into, returns exactly
  these sub-packets, in order, under the same header.\<close>

theorem packet_roundtrip:
  assumes "holds p subs" "\<forall>s \<in> set subs. sendable s"
    and "BuffSize p < HeaderSize + 2 ^ 16" "Wp p \<le> bufferSize"
  shows "\<exists>p' q. SerializeHead p = Inr p'
    \<and> Parse (take (TotalBytes p') (Buf p')) bufferSize = Inr (Inr (q, subs)) \<and> same_header q p"
proof -
  have wf: "wf_packet p" and subs: "parse_subs (payload p) = subs"
    using assms(1,2) by (auto simp: holds_def parse_encode_subs)
  let ?p = "p\<lparr>Buf := header_bytes p @ drop 22 (Buf p)\<rparr>"
  have "SerializeHead p = Inr ?p" using wf by (intro SerializeHead_bytes) (simp add: wf_packet_def)
  moreover have "TotalBytes ?p = Wp p"
    using TotalBytes_Wp [OF wf assms(3)] by (simp add: TotalBytes_def)
  ultimately show ?thesis using Parse_wire [OF wf assms(3,4) refl] subs by auto
qed

definition sample_packet :: Packet where
  "sample_packet = snd (projr (AppendUserPacket 7 [1, 2] (SetPort 80 (NewPacket 40))))"

theorem packet_roundtrip_witness:
  "holds sample_packet [\<lparr>UserID = 7, Data = [1, 2]\<rparr>] \<and> BuffSize sample_packet = 40
   \<and> (\<exists>p' q. SerializeHead sample_packet = Inr p'
     \<and> Parse (take (TotalBytes p') (Buf p')) 5120 = Inr (Inr (q, [\<lparr>UserID = 7, Data = [1, 2]\<rparr>]))
     \<and> same_header q sample_packet)"
proof -
  have "holds sample_packet [\<lparr>UserID = 7, Data = [1, 2]\<rparr>]" by code_simp
  moreover have "BuffSize sample_packet = 40" by code_simp
  moreover have "Wp sample_packet \<le> 5120" by code_simp
  ultimately show ?thesis
    using packet_roundtrip [of sample_packet "[\<lparr>UserID = 7, Data = [1, 2]\<rparr>]" 5120]
    by (simp add: sendable_def HeaderSize_def)
qed

text \<open>C5. Appending refines appending to the list of sub-packets: on a well-formed packet it never
  panics, it answers true exactly when the sub-packet fits behind the write position, then the
  packet holds one more sub-packet, and otherwise the packet is unchanged.\<close>

theorem append_refines:
  assumes "holds p subs"
  shows "\<exists>ok p'. AppendUserPacket userID data p = Inr (ok, p')
    \<and> (ok \<longleftrightarrow> Wp p + 6 + length data \<le> BuffSize p)
    \<and> (if ok then holds p' (subs @ [\<lparr>UserID = userID, Data = data\<rparr>]) else p' = p)"
proof (cases "Wp p + 6 + length data \<le> BuffSize p")
  case True
  with append_fits [of p data userID] assms show ?thesis by (auto simp: holds_def)
next
  case False
  then show ?thesis using append_full [of p data userID] by auto
qed

theorem append_refines_witness:
  "holds (NewPacket 40) []
   \<and> (\<exists>ok p'. AppendUserPacket 9 [5] (NewPacket 40) = Inr (ok, p')
     \<and> (ok \<longleftrightarrow> Wp (NewPacket 40) + 6 + length [5 :: byte] \<le> BuffSize (NewPacket 40))
     \<and> (if ok then holds p' ([] @ [\<lparr>UserID = 9, Data = [5]\<rparr>]) else p' = NewPacket 40))"
proof -
  have "holds (NewPacket 40) []" by code_simp
  then show ?thesis using append_refines [of "NewPacket 40" "[]" 9 "[5]"] by blast
qed

text \<open>C6. Parsing is total: with a buffer of at least a header, \<open>Parse\<close> never panics, whatever the
  bytes received; it fails exactly when the header is cut short or announces more payload than
  was received or fits, and the sub-packets it returns account for the payload (six bytes at
  least for each of them).\<close>

theorem Parse_total:
  assumes "HeaderSize \<le> bufferSize"
  shows "\<exists>r. Parse raw bufferSize = Inr r
    \<and> ((\<exists>e. r = Inl e) \<longleftrightarrow> length raw < HeaderSize
         \<or> HeaderSize + unat (get_u16 (drop 17 raw)) > min (length raw) bufferSize)
    \<and> (\<forall>p subs. r = Inr (p, subs) \<longrightarrow> 6 * length subs \<le> unat (PayloadLen p)
         \<and> length (Buf p) = bufferSize)"
  using Parse_cases [OF assms, of raw] by auto

theorem Parse_total_witness:
  "HeaderSize \<le> 5120 \<and> (\<exists>r. Parse [1, 2] 5120 = Inr r
    \<and> ((\<exists>e. r = Inl e) \<longleftrightarrow> length [1 :: byte, 2] < HeaderSize
         \<or> HeaderSize + unat (get_u16 (drop 17 [1, 2])) > min (length [1 :: byte, 2]) 5120)
    \<and> (\<forall>p subs. r = Inr (p, subs) \<longrightarrow> 6 * length subs \<le> unat (PayloadLen p)
         \<and> length (Buf p) = 5120))"
proof -
  have "HeaderSize \<le> 5120" by (simp add: HeaderSize_def)
  then show ?thesis using Parse_total [of 5120 "[1, 2]"] by blast
qed

end
