(* ===== verification/Route_Info.thy ===== *)
theory Route_Info
  imports Go_Prelude
begin

text \<open>
  The route records of control-plane/routing/routing/base.go. The data-proxy has the same
  records in its own util package (they are what the control plane answers a proxy in JSON), so
  both planes share these types here.
\<close>

record PathInfo =
  Hops :: "string list"
  Rtt :: float64
  RawRTT :: float64

record RoutingInfo =
  Routing :: "PathInfo list"

record EndPoint =
  ep_IP :: string
  ep_Port :: int
  ep_Provider :: string
  ep_Continent :: string
  ep_Country :: string
  ep_City :: string

record EndPoints =
  ep_Source :: EndPoint
  ep_Dest :: EndPoint

end
