(* ===== verification/Proxy_Util.thy ===== *)
theory Proxy_Util
  imports Go_Strings Route_Info
begin

unbundle bit_operations_syntax

text \<open>
  The helpers of data-proxy/util: request identifiers (req-id.go) and the conversions between
  addresses and their 32 bit form (util.go); the route record is in Route_Info. The
  process-wide counter \<open>reqSeq\<close> is passed and returned; \<open>atomic.AddUint64\<close> makes a call one
  step. Shown: request identifiers repeat only after \<open>2 ^ 24\<close> requests.
\<close>

definition HopIPToNet :: "string \<Rightarrow> net_IP" where
  "HopIPToNet ipStr = (case ParseIP ipStr of None \<Rightarrow> None | Some ip \<Rightarrow> Some ip)"

definition Uint32ToIP :: "u32 \<Rightarrow> net_IP" where
  "Uint32ToIP ipUint32 =
     (let b = put_u32 ipUint32 in Some (get_u32 [b ! 0, b ! 1, b ! 2, b ! 3]))"

text \<open>\<open>net.IP.String()\<close> prints a nil address as \<open><nil>\<close>.\<close>

definition IP_String :: "net_IP \<Rightarrow> string" where
  "IP_String ip = (case ip of None \<Rightarrow> ''<nil>'' | Some w \<Rightarrow> ip_string w)"

definition GenShortReqID :: "string \<Rightarrow> u64 \<Rightarrow> u32 \<times> u64" where
  "GenShortReqID clientIP reqSeq =
     (let seq = reqSeq + 1;
          ipSegment = (case ParseIP clientIP of None \<Rightarrow> 0 | Some ip \<Rightarrow> ucast (put_u32 ip ! 3));
          id = push_bit 24 ipSegment OR (ucast seq AND 0xFFFFFF)
      in (id, seq))"

text \<open>The identifiers of a sequence of requests, by client address.\<close>

fun gen_ids :: "string list \<Rightarrow> u64 \<Rightarrow> u32 list" where
  "gen_ids [] s = []"
| "gen_ids (c # cs) s = (case GenShortReqID c s of (i, s') \<Rightarrow> i # gen_ids cs s')"

section \<open>Conversions\<close>

lemma HopIPToNet_ParseIP [simp]: "HopIPToNet s = ParseIP s"
  by (simp add: HopIPToNet_def split: option.splits)

lemma Uint32ToIP_Some [simp]: "Uint32ToIP w = Some w"
  using be32.get_put [of w "[]"] by (simp add: Uint32ToIP_def put_u32_def)

lemma IP_String_Some [simp]: "IP_String (Some w) = ip_string w"
  by (simp add: IP_String_def)

section \<open>Request identifiers\<close>

lemma low_bits: "(x :: u32) AND 0xFFFFFF = take_bit 24 x"
  by (simp add: take_bit_eq_mask mask_eq_exp_minus_1)

lemma reqid_low:
  "take_bit 24 (fst (GenShortReqID c s)) = take_bit 24 (ucast (s + 1) :: u32)"
  by (simp add: GenShortReqID_def Let_def low_bits take_bit_push_bit)

lemma low_eq_mod: "unat (take_bit 24 (ucast (w :: u64) :: u32)) = unat w mod 2 ^ 24"
proof -
  have "unat (take_bit 24 (ucast w :: u32)) = take_bit 24 (unat (ucast w :: u32))"
    by (rule unsigned_take_bit_eq)
  also have "\<dots> = take_bit 24 (take_bit 32 (unat w))" by (simp add: unsigned_ucast_eq)
  also have "\<dots> = take_bit 24 (unat w)" by simp
  finally show ?thesis by (simp only: take_bit_eq_mod)
qed

lemma unat_succ_mod: "unat (s + 1 :: u64) mod 2 ^ 24 = Suc (unat s) mod 2 ^ 24"
proof -
  have "unat (s + 1) = (unat s + 1) mod 2 ^ 64" by (simp add: unat_word_ariths)
  then show ?thesis by (simp add: mod_mod_cancel)
qed

lemma gen_ids_low:
  "map (\<lambda>i. unat (take_bit 24 i)) (gen_ids cs s) = map (\<lambda>k. (unat s + k) mod 2 ^ 24) [1..<Suc (length cs)]"
proof (induction cs arbitrary: s)
  case (Cons c cs)
  obtain i s' where g: "GenShortReqID c s = (i, s')" by fastforce
  have s': "s' = s + 1" using g by (simp add: GenShortReqID_def Let_def)
  have i: "unat (take_bit 24 i) = Suc (unat s) mod 2 ^ 24"
    using reqid_low [of c s] g low_eq_mod [of "s + 1"] unat_succ_mod [of s] by simp
  have "(unat s' + k) mod 2 ^ 24 = (unat s + Suc k) mod 2 ^ 24" for k
    using unat_succ_mod [of s] unfolding s' by (metis add_Suc add_Suc_right mod_add_left_eq)
  then have "map (\<lambda>k. (unat s' + k) mod 2 ^ 24) [1..<Suc (length cs)]
      = map (\<lambda>k. (unat s + k) mod 2 ^ 24) (map Suc [1..<Suc (length cs)])"
    by (simp del: upt_Suc)
  with Cons.IH [of s'] g i show ?case
    by (simp add: map_Suc_upt upt_conv_Cons [of "Suc 0"] del: upt_Suc)
qed simp

lemma distinct_mod_run:
  assumes "n \<le> (M :: nat)"
  shows "distinct (map (\<lambda>k. (a + k) mod M) [1..<Suc n])"
proof -
  have "(a + j) mod M \<noteq> (a + k) mod M" if "j < k" "k \<le> n" "1 \<le> j" for j k
  proof
    assume "(a + j) mod M = (a + k) mod M"
    then have "M dvd (a + k) - (a + j)" using that by (subst mod_eq_dvd_iff_nat [symmetric]) auto
    then have "M \<le> k - j" using that by (auto dest: dvd_imp_le)
    then show False using that assms by simp
  qed
  then have "inj_on (\<lambda>k. (a + k) mod M) {1..<Suc n}"
    by (intro linorder_inj_onI) auto
  then show ?thesis by (simp add: distinct_map del: upt_Suc)
qed

text \<open>C25. Request identifiers are unique among \<open>2 ^ 24\<close> consecutive requests of a proxy, whatever
  the clients' addresses and the value the counter started from.\<close>

theorem reqids_distinct:
  assumes "length cs \<le> 2 ^ 24"
  shows "distinct (gen_ids cs s)"
proof -
  have "distinct (map (\<lambda>i. unat (take_bit 24 i)) (gen_ids cs s))"
    unfolding gen_ids_low using assms by (rule distinct_mod_run)
  then show ?thesis by (simp add: distinct_map)
qed

theorem reqids_distinct_witness:
  "length [''10.0.0.7'', ''10.0.0.7''] \<le> 2 ^ 24 \<and> distinct (gen_ids [''10.0.0.7'', ''10.0.0.7''] 0xFFFFFFFFFFFFFFFF)"
  using reqids_distinct [of "[''10.0.0.7'', ''10.0.0.7'']" "0xFFFFFFFFFFFFFFFF"] by simp

end
