(* ===== verification/Go_Heap.thy ===== *)
theory Go_Heap
  imports Go_Prelude
begin

text \<open>
  The binary heap of Go's \<open>container/heap\<close>, on a slice whose elements carry their own
  position: \<open>Swap\<close> and \<open>Push\<close> write it, \<open>Pop\<close> sets it to -1, as the \<open>heap.Interface\<close>
  implementations of the source do (\<open>PriorityQueue\<close> in core-domain/k-shortest.go,
  \<open>MinHeap\<close> in aggregator/aggregator.go). An element type is given by the key \<open>Less\<close>
  compares and by the function that writes the position.

  The interface \<open>heap_item\<close> states what the heap needs of the element type; its lemmas
  are the contract of a priority queue: the multiset of payloads after each operation, the
  minimum returned by \<open>Pop\<close>, and that the heap order and the positions are kept.
\<close>

section \<open>The operations\<close>

definition heap_swap :: "(int \<Rightarrow> 'a \<Rightarrow> 'a) \<Rightarrow> 'a list \<Rightarrow> nat \<Rightarrow> nat \<Rightarrow> 'a list" where
  "heap_swap upd h i j = h[i := upd (int i) (h ! j), j := upd (int j) (h ! i)]"

text \<open>The index of the parent; at the root \<open>(0-1)/2\<close> truncates to 0.\<close>

definition par :: "nat \<Rightarrow> nat" where
  "par k = (k - 1) div 2"

lemma par_less: "k \<noteq> 0 \<Longrightarrow> par k < k"
  by (simp add: par_def)

lemma par_le [simp]: "par k \<le> k"
  by (simp add: par_def)

function up :: "('a \<Rightarrow> 'k::linorder) \<Rightarrow> (int \<Rightarrow> 'a \<Rightarrow> 'a) \<Rightarrow> 'a list \<Rightarrow> nat \<Rightarrow> 'a list" where
  "up key upd h j =
     (let i = par j
      in if i = j \<or> \<not> key (h ! j) < key (h ! i) then h else up key upd (heap_swap upd h i j) i)"
  by pat_completeness auto
termination
  by (relation "measure (\<lambda>(key, upd, h, j). j)") (auto simp: par_def)

text \<open>\<open>down\<close> also returns where the element came to rest; it has moved iff that is not \<open>i\<close>.\<close>

function down :: "('a \<Rightarrow> 'k::linorder) \<Rightarrow> (int \<Rightarrow> 'a \<Rightarrow> 'a) \<Rightarrow> 'a list \<Rightarrow> nat \<Rightarrow> nat \<Rightarrow> 'a list \<times> nat" where
  "down key upd h i n =
     (let j1 = 2 * i + 1
      in if n \<le> j1 then (h, i)
         else let j = (if j1 + 1 < n \<and> key (h ! (j1 + 1)) < key (h ! j1) then j1 + 1 else j1)
           in if \<not> key (h ! j) < key (h ! i) then (h, i)
              else down key upd (heap_swap upd h i j) j n)"
  by pat_completeness auto
termination
  by (relation "measure (\<lambda>(key, upd, h, i, n). n - i)") (auto simp: Let_def split: if_splits)

declare up.simps [simp del] down.simps [simp del]

definition heap_push :: "('a \<Rightarrow> 'k::linorder) \<Rightarrow> (int \<Rightarrow> 'a \<Rightarrow> 'a) \<Rightarrow> 'a \<Rightarrow> 'a list \<Rightarrow> 'a list" where
  "heap_push key upd x h = up key upd (h @ [upd (int (length h)) x]) (length h)"

text \<open>\<open>Pop\<close> on an empty heap would panic; its callers test \<open>Len() > 0\<close> first.\<close>

definition heap_pop :: "('a \<Rightarrow> 'k::linorder) \<Rightarrow> (int \<Rightarrow> 'a \<Rightarrow> 'a) \<Rightarrow> 'a list \<Rightarrow> ('a \<times> 'a list) go" where
  "heap_pop key upd h =
     (if h = [] then Inl IndexOutOfRange
      else let n = length h - 1;
               h' = fst (down key upd (heap_swap upd h 0 n) 0 n)
           in Inr (upd (-1) (h' ! n), take n h'))"

definition heap_remove :: "('a \<Rightarrow> 'k::linorder) \<Rightarrow> (int \<Rightarrow> 'a \<Rightarrow> 'a) \<Rightarrow> int \<Rightarrow> 'a list \<Rightarrow> ('a \<times> 'a list) go" where
  "heap_remove key upd i h =
     (if i < 0 \<or> int (length h) \<le> i then Inl IndexOutOfRange
      else let n = length h - 1;
               h' = (if nat i = n then h
                     else case down key upd (heap_swap upd h (nat i) n) (nat i) n of
                       (h1, k) \<Rightarrow> if nat i < k then h1 else up key upd h1 (nat i))
           in Inr (upd (-1) (h' ! n), take n h'))"

section \<open>The heap order\<close>

definition heap_on :: "('a \<Rightarrow> 'k::linorder) \<Rightarrow> 'a list \<Rightarrow> nat \<Rightarrow> bool" where
  "heap_on key h n \<longleftrightarrow> (\<forall>k. 0 < k \<and> k < n \<longrightarrow> key (h ! par k) \<le> key (h ! k))"

abbreviation heap_ok :: "('a \<Rightarrow> 'k::linorder) \<Rightarrow> 'a list \<Rightarrow> bool" where
  "heap_ok key h \<equiv> heap_on key h (length h)"

definition index_ok :: "('a \<Rightarrow> int) \<Rightarrow> 'a list \<Rightarrow> bool" where
  "index_ok idx h \<longleftrightarrow> (\<forall>k < length h. idx (h ! k) = int k)"

text \<open>
  \<open>up_hole h j n\<close>: the order holds but for the edge into \<open>j\<close>. \<open>down_hole h i n\<close>: it
  holds but for the edges at \<open>i\<close>. Both bridge the hole with the edge from its parent.
\<close>

definition up_hole :: "('a \<Rightarrow> 'k::linorder) \<Rightarrow> 'a list \<Rightarrow> nat \<Rightarrow> nat \<Rightarrow> bool" where
  "up_hole key h j n \<longleftrightarrow>
     (\<forall>k. 0 < k \<and> k < n \<and> k \<noteq> j \<longrightarrow> key (h ! par k) \<le> key (h ! k)) \<and>
     (\<forall>k. 0 < k \<and> k < n \<and> par k = j \<and> 0 < j \<longrightarrow> key (h ! par j) \<le> key (h ! k))"

definition down_hole :: "('a \<Rightarrow> 'k::linorder) \<Rightarrow> 'a list \<Rightarrow> nat \<Rightarrow> nat \<Rightarrow> bool" where
  "down_hole key h i n \<longleftrightarrow>
     (\<forall>k. 0 < k \<and> k < n \<and> k \<noteq> i \<and> par k \<noteq> i \<longrightarrow> key (h ! par k) \<le> key (h ! k)) \<and>
     (\<forall>k. 0 < k \<and> k < n \<and> par k = i \<and> 0 < i \<longrightarrow> key (h ! par i) \<le> key (h ! k))"

lemma par_eq_iff: "0 < k \<Longrightarrow> par k = i \<longleftrightarrow> k = 2 * i + 1 \<or> k = 2 * i + 2"
  by (auto simp: par_def)

lemma heap_on_root_min:
  assumes "heap_on key h n" "k < n"
  shows "key (h ! 0) \<le> key (h ! k)"
  using assms(2)
proof (induction k rule: less_induct)
  case (less k)
  show ?case
  proof (cases "k = 0")
    case False
    then have "key (h ! 0) \<le> key (h ! par k)" using less par_less [of k] by auto
    also have "\<dots> \<le> key (h ! k)" using assms(1) less False by (auto simp: heap_on_def)
    finally show ?thesis .
  qed simp
qed

lemma heap_on_cong:
  "(\<And>k. k < n \<Longrightarrow> key (h ! k) = key (h' ! k)) \<Longrightarrow> heap_on key h n = heap_on key h' n"
  unfolding heap_on_def by (metis le_less_trans par_le)

section \<open>The contract\<close>

locale heap_item =
  fixes key :: "'a \<Rightarrow> 'k::linorder"
    and upd :: "int \<Rightarrow> 'a \<Rightarrow> 'a"
    and idx :: "'a \<Rightarrow> int"
    and core :: "'a \<Rightarrow> 'b"
  assumes key_upd [simp]: "key (upd i x) = key x"
    and idx_upd [simp]: "idx (upd i x) = i"
    and core_upd [simp]: "core (upd i x) = core x"
begin

lemma length_heap_swap [simp]: "length (heap_swap upd h i j) = length h"
  by (simp add: heap_swap_def)

lemma key_heap_swap:
  "i < length h \<Longrightarrow> j < length h \<Longrightarrow> k < length h \<Longrightarrow>
     key (heap_swap upd h i j ! k) = (if k = i then key (h ! j) else if k = j then key (h ! i) else key (h ! k))"
  by (auto simp: heap_swap_def nth_list_update)

lemma core_heap_swap:
  assumes "i < length h" "j < length h"
  shows "mset (map core (heap_swap upd h i j)) = mset (map core h)"
proof -
  have "map core (heap_swap upd h i j) = swap (map core h) i j"
    using assms by (simp add: heap_swap_def swap_def map_update)
  then show ?thesis using assms by (metis length_map mset_swap_eq)
qed

lemma index_heap_swap:
  "index_ok idx h \<Longrightarrow> i < length h \<Longrightarrow> j < length h \<Longrightarrow> index_ok idx (heap_swap upd h i j)"
  by (auto simp: index_ok_def heap_swap_def nth_list_update)

subsection \<open>Sifting up\<close>

lemma up_step:
  "up key upd h j = (if par j = j \<or> \<not> key (h ! j) < key (h ! par j) then h
     else up key upd (heap_swap upd h (par j) j) (par j))"
  by (subst up.simps) (simp add: Let_def)

lemma up_frame:
  "j < length h \<Longrightarrow> length (up key upd h j) = length h
     \<and> mset (map core (up key upd h j)) = mset (map core h)
     \<and> (index_ok idx h \<longrightarrow> index_ok idx (up key upd h j))
     \<and> (\<forall>k > j. up key upd h j ! k = h ! k)"
proof (induction j arbitrary: h rule: less_induct)
  case (less j)
  show ?case
  proof (cases "par j = j \<or> \<not> key (h ! j) < key (h ! par j)")
    case False
    then have p: "par j < j" by (metis le_neq_implies_less par_le)
    let ?h = "heap_swap upd h (par j) j"
    have l: "par j < length h" using p less.prems by simp
    have "?h ! k = h ! k" if "k > j" for k
      using that p by (simp add: heap_swap_def)
    with less.IH [OF p, of ?h] l p less.prems False show ?thesis
      by (simp add: up_step [of h j] core_heap_swap index_heap_swap del: mset_map)
  qed (simp add: up_step [of h j])
qed

lemma up_heap:
  "up_hole key h j n \<Longrightarrow> j < n \<Longrightarrow> n \<le> length h \<Longrightarrow> heap_on key (up key upd h j) n"
proof (induction j arbitrary: h rule: less_induct)
  case (less j)
  show ?case
  proof (cases "par j = j \<or> \<not> key (h ! j) < key (h ! par j)")
    case True
    then have "j = 0 \<or> key (h ! par j) \<le> key (h ! j)"
      using par_less [of j] by fastforce
    with less.prems(1) have "heap_on key h n"
      unfolding heap_on_def up_hole_def by (metis less_nat_zero_code)
    with True show ?thesis by (simp add: up_step [of h j])
  next
    case False
    then have p: "par j < j" by (metis le_neq_implies_less par_le)
    let ?h = "heap_swap upd h (par j) j"
    have sw: "key (?h ! k) = (if k = par j then key (h ! j) else if k = j then key (h ! par j) else key (h ! k))"
      if "k < n" for k using that p less.prems by (intro key_heap_swap) auto
    have lt: "key (h ! j) < key (h ! par j)" using False by simp
    have edge: "key (h ! par k) \<le> key (h ! k)" if "0 < k" "k < n" "k \<noteq> j" for k
      using less.prems(1) that by (auto simp: up_hole_def)
    have bridge: "key (h ! par j) \<le> key (h ! k)" if "0 < k" "k < n" "par k = j" for k
      using less.prems(1) that p by (auto simp: up_hole_def)
    have "up_hole key ?h (par j) n"
      unfolding up_hole_def
    proof (intro conjI allI impI)
      fix k assume k: "0 < k \<and> k < n \<and> k \<noteq> par j"
      then have pk: "par k < k" by (simp add: par_less)
      show "key (?h ! par k) \<le> key (?h ! k)"
        using k pk lt edge [of k] bridge [of k] sw [of k] sw [of "par k"]
        by (cases "k = j"; cases "par k = j"; cases "par k = par j") auto
    next
      fix k assume k: "0 < k \<and> k < n \<and> par k = par j \<and> 0 < par j"
      have "par (par j) < par j" using k par_less by simp
      moreover have "key (h ! par (par j)) \<le> key (h ! par j)"
        using k p less.prems(2) by (intro edge) auto
      moreover have "par j < n" using p less.prems by simp
      ultimately show "key (?h ! par (par j)) \<le> key (?h ! k)"
        using k edge [of k] sw [of k] sw [of "par (par j)"] p par_less [of k]
        by (cases "k = j") (auto intro: order_trans)
    qed
    with less.IH [OF p, of ?h] False less.prems p show ?thesis by (simp add: up_step [of h j])
  qed
qed

subsection \<open>Sifting down\<close>

definition child :: "'a list \<Rightarrow> nat \<Rightarrow> nat \<Rightarrow> nat" where
  "child h i n =
     (if 2 * i + 2 < n \<and> key (h ! (2 * i + 2)) < key (h ! (2 * i + 1)) then 2 * i + 2 else 2 * i + 1)"

definition sinks :: "'a list \<Rightarrow> nat \<Rightarrow> nat \<Rightarrow> bool" where
  "sinks h i n \<longleftrightarrow> 2 * i + 1 < n \<and> key (h ! child h i n) < key (h ! i)"

lemma down_step:
  "down key upd h i n =
     (if sinks h i n then down key upd (heap_swap upd h i (child h i n)) (child h i n) n else (h, i))"
  by (subst down.simps) (simp add: Let_def sinks_def child_def)

lemma child_bounds:
  assumes "2 * i + 1 < n"
  shows "i < child h i n" "child h i n < n" "par (child h i n) = i"
  using assms by (auto simp: child_def par_def)

lemma child_min:
  "0 < k \<Longrightarrow> k < n \<Longrightarrow> par k = i \<Longrightarrow> key (h ! child h i n) \<le> key (h ! k)"
  by (auto simp: par_eq_iff child_def)

lemma down_frame:
  "n \<le> length h \<Longrightarrow> length (fst (down key upd h i n)) = length h
     \<and> mset (map core (fst (down key upd h i n))) = mset (map core h)
     \<and> (index_ok idx h \<longrightarrow> index_ok idx (fst (down key upd h i n)))
     \<and> (\<forall>k \<ge> n. fst (down key upd h i n) ! k = h ! k)
     \<and> i \<le> snd (down key upd h i n)"
proof (induction "n - i" arbitrary: h i rule: less_induct)
  case less
  show ?case
  proof (cases "sinks h i n")
    case True
    let ?j = "child h i n" and ?h = "heap_swap upd h i (child h i n)"
    have b: "i < ?j" "?j < n" using True child_bounds by (auto simp: sinks_def)
    have "?h ! k = h ! k" if "k \<ge> n" for k
      using that b by (simp add: heap_swap_def)
    moreover have "n - ?j < n - i" using b by simp
    ultimately show ?thesis using less.hyps [of ?j ?h] b less.prems True
      by (auto simp: down_step [of h i n] core_heap_swap index_heap_swap simp del: mset_map)
  qed (simp add: down_step [of h i n])
qed

text \<open>After one swap the hole has moved to the child, and the edges above it hold.\<close>

lemma down_swap:
  assumes "down_hole key h i n" "sinks h i n" "n \<le> length h"
  shows "down_hole key (heap_swap upd h i (child h i n)) (child h i n) n
    \<and> key (heap_swap upd h i (child h i n) ! i) \<le> key (heap_swap upd h i (child h i n) ! child h i n)"
proof -
  let ?j = "child h i n" and ?h = "heap_swap upd h i (child h i n)"
  have b: "i < ?j" "?j < n" "par ?j = i" and lt: "key (h ! ?j) < key (h ! i)"
    using assms(2) child_bounds by (auto simp: sinks_def)
  have sw: "key (?h ! k) = (if k = i then key (h ! ?j) else if k = ?j then key (h ! i) else key (h ! k))"
    if "k < n" for k using that b assms(3) by (intro key_heap_swap) auto
  have edge: "key (h ! par k) \<le> key (h ! k)" if "0 < k" "k < n" "k \<noteq> i" "par k \<noteq> i" for k
    using assms(1) that by (auto simp: down_hole_def)
  have bridge: "key (h ! par i) \<le> key (h ! ?j)" if "0 < i"
    using assms(1) that b by (auto simp: down_hole_def)
  have "down_hole key ?h ?j n"
    unfolding down_hole_def
  proof (intro conjI allI impI)
    fix k assume k: "0 < k \<and> k < n \<and> k \<noteq> ?j \<and> par k \<noteq> ?j"
    then have pk: "par k < k" by (simp add: par_less)
    show "key (?h ! par k) \<le> key (?h ! k)"
      using k pk bridge edge [of k] child_min [of k n i h] sw [of k] sw [of "par k"]
      by (cases "k = i"; cases "par k = i") auto
  next
    fix k assume k: "0 < k \<and> k < n \<and> par k = ?j \<and> 0 < ?j"
    then have "?j < k" using par_less [of k] by simp
    then show "key (?h ! par ?j) \<le> key (?h ! k)"
      using k b edge [of k] sw [of k] sw [of i] by auto
  qed
  moreover have "key (?h ! i) \<le> key (?h ! ?j)"
    using lt sw [of i] sw [of ?j] b by auto
  ultimately show ?thesis by blast
qed

lemma not_sinks:
  assumes "\<not> sinks h i n" "0 < k" "k < n" "par k = i"
  shows "key (h ! i) \<le> key (h ! k)"
proof -
  have "2 * i + 1 < n" using assms(2-4) by (auto simp: par_eq_iff)
  then have "key (h ! i) \<le> key (h ! child h i n)" using assms(1) by (simp add: sinks_def)
  also have "\<dots> \<le> key (h ! k)" using assms by (intro child_min)
  finally show ?thesis .
qed

lemma down_heap:
  "down_hole key h i n \<Longrightarrow> i = 0 \<or> key (h ! par i) \<le> key (h ! i) \<Longrightarrow> i < n \<Longrightarrow> n \<le> length h \<Longrightarrow>
     heap_on key (fst (down key upd h i n)) n"
proof (induction "n - i" arbitrary: h i rule: less_induct)
  case less
  show ?case
  proof (cases "sinks h i n")
    case True
    let ?j = "child h i n"
    have b: "i < ?j" "?j < n" "par ?j = i" using True child_bounds by (auto simp: sinks_def)
    with down_swap [OF less.prems(1) True less.prems(4)] less.hyps [of ?j] less.prems True
    show ?thesis by (simp add: down_step [of h i n])
  next
    case False
    have "heap_on key h n"
      unfolding heap_on_def
    proof (intro allI impI)
      fix k assume "0 < k \<and> k < n"
      then show "key (h ! par k) \<le> key (h ! k)"
        using less.prems False not_sinks [of h i n k]
        by (cases "k = i"; cases "par k = i") (auto simp: down_hole_def)
    qed
    with False show ?thesis by (simp add: down_step [of h i n])
  qed
qed

text \<open>Without the edge into \<open>i\<close>: either the element sinks, or the hole is left for \<open>up\<close>.\<close>

lemma down_or_up:
  assumes "down_hole key h i n" "i < n" "n \<le> length h" "down key upd h i n = (h', m)"
  shows "if i < m then heap_on key h' n else h' = h \<and> up_hole key h i n"
proof (cases "sinks h i n")
  case True
  let ?j = "child h i n"
  have b: "i < ?j" "?j < n" "par ?j = i" using True child_bounds by (auto simp: sinks_def)
  from down_swap [OF assms(1) True assms(3)] b assms(3)
  have "heap_on key (fst (down key upd (heap_swap upd h i ?j) ?j n)) n"
    by (intro down_heap) auto
  moreover have "?j \<le> snd (down key upd (heap_swap upd h i ?j) ?j n)"
    using down_frame [of n "heap_swap upd h i ?j" ?j] b assms by simp
  ultimately show ?thesis using True b assms(4) by (simp add: down_step [of h i n])
next
  case False
  have "up_hole key h i n"
    using assms(1) not_sinks [OF False] unfolding up_hole_def down_hole_def by metis
  with False assms(4) show ?thesis by (simp add: down_step [of h i n])
qed

subsection \<open>The priority queue operations\<close>

lemmas push_frame =
  up_frame [of "length h" "h @ [upd (int (length h)) x]" for h x, folded heap_push_def, simplified]

lemma length_push [simp]: "length (heap_push key upd x h) = Suc (length h)"
  using push_frame [of x h] by blast

theorem push_core: "mset (map core (heap_push key upd x h)) = add_mset (core x) (mset (map core h))"
  using push_frame [of x h] by simp

theorem push_index:
  assumes "index_ok idx h"
  shows "index_ok idx (heap_push key upd x h)"
proof -
  have "index_ok idx (h @ [upd (int (length h)) x])"
    using assms by (auto simp: index_ok_def nth_append less_Suc_eq)
  then show ?thesis using push_frame [of x h] by blast
qed

theorem push_heap:
  assumes "heap_ok key h"
  shows "heap_ok key (heap_push key upd x h)"
proof -
  let ?h = "h @ [upd (int (length h)) x]"
  have "key (?h ! par k) \<le> key (?h ! k)" if "0 < k" "k < Suc (length h)" "k \<noteq> length h" for k
    using assms that par_less [of k] by (auto simp: heap_on_def nth_append)
  moreover have "\<not> (0 < k \<and> k < Suc (length h) \<and> par k = length h)" for k
    using par_less [of k] by fastforce
  ultimately have "up_hole key ?h (length h) (Suc (length h))"
    unfolding up_hole_def by blast
  then show ?thesis using up_heap [of ?h "length h" "Suc (length h)"] length_push [of x h]
    by (simp add: heap_push_def del: length_push)
qed

text \<open>Both removals bring the element to the end of the slice and cut it off there.\<close>

lemma cut_core:
  assumes "length h' = Suc n" "mset (map core h') = mset (map core h)"
  shows "mset (map core h) = add_mset (core (h' ! n)) (mset (map core (take n h')))"
proof -
  have "h' = take n h' @ [h' ! n]" using assms(1) by (simp add: take_Suc_conv_app_nth [symmetric])
  then have "mset (map core h') = mset (map core (take n h' @ [h' ! n]))" by simp
  with assms(2) show ?thesis by simp
qed

lemma cut_heap: "heap_on key h' n \<Longrightarrow> length h' = Suc n \<Longrightarrow> heap_ok key (take n h')"
  by (subst heap_on_cong [of _ key "take n h'" h']) auto

lemma cut_index: "index_ok idx h' \<Longrightarrow> index_ok idx (take n h')"
  by (auto simp: index_ok_def)

lemma swap_hole:
  "heap_ok key h \<Longrightarrow> length h = Suc n \<Longrightarrow> i \<le> n \<Longrightarrow> down_hole key (heap_swap upd h i n) i n"
  unfolding down_hole_def heap_on_def
proof (intro conjI allI impI)
  fix k assume h: "\<forall>k. 0 < k \<and> k < length h \<longrightarrow> key (h ! par k) \<le> key (h ! k)"
    and n: "length h = Suc n" "i \<le> n" and k: "0 < k \<and> k < n \<and> k \<noteq> i \<and> par k \<noteq> i"
  then have "par k < k" by (simp add: par_less)
  with h n k show "key (heap_swap upd h i n ! par k) \<le> key (heap_swap upd h i n ! k)"
    by (auto simp: key_heap_swap)
next
  fix k assume h: "\<forall>k. 0 < k \<and> k < length h \<longrightarrow> key (h ! par k) \<le> key (h ! k)"
    and n: "length h = Suc n" "i \<le> n" and k: "0 < k \<and> k < n \<and> par k = i \<and> 0 < i"
  then have "par i < i" "i < k" using par_less by auto
  moreover have "key (h ! par i) \<le> key (h ! i)" "key (h ! i) \<le> key (h ! k)"
    using h n k \<open>i < k\<close> by auto
  ultimately show "key (heap_swap upd h i n ! par i) \<le> key (heap_swap upd h i n ! k)"
    using n k by (auto simp: key_heap_swap)
qed

theorem pop_spec:
  assumes "heap_pop key upd h = Inr (x, h')"
  shows "mset (map core h) = add_mset (core x) (mset (map core h'))"
    and "length h = Suc (length h')"
    and "idx x = -1"
    and "index_ok idx h \<Longrightarrow> index_ok idx h'"
    and "heap_ok key h \<Longrightarrow> heap_ok key h'"
    and "heap_ok key h \<Longrightarrow> y \<in> set h \<Longrightarrow> key x \<le> key y"
proof -
  define n where "n = length h - 1"
  define g where "g = fst (down key upd (heap_swap upd h 0 n) 0 n)"
  have ne: "h \<noteq> []" and x: "x = upd (-1) (g ! n)" "h' = take n g"
    using assms by (auto simp: heap_pop_def Let_def n_def g_def split: if_splits)
  then have n: "length h = Suc n" by (simp add: n_def)
  note fr = down_frame [of n "heap_swap upd h 0 n" 0, folded g_def]
  have g: "length g = Suc n" "mset (map core g) = mset (map core h)"
    using fr n core_heap_swap [of 0 h n] by auto
  show "mset (map core h) = add_mset (core x) (mset (map core h'))"
    using cut_core [OF g] x by simp
  show "length h = Suc (length h')" "idx x = -1" using n g x by auto
  show "index_ok idx h'" if "index_ok idx h"
    using that fr n x index_heap_swap [of h 0 n] by (auto intro: cut_index)
  show "heap_ok key h'" if "heap_ok key h"
  proof (cases "n = 0")
    case False
    then have "heap_on key g n"
      using down_heap [OF swap_hole [OF that n, of 0]] n by (simp add: g_def)
    then show ?thesis using cut_heap [of g n] g x by simp
  qed (simp add: x heap_on_def)
  have "g ! n = heap_swap upd h 0 n ! n" using fr n by simp
  then have "key x = key (h ! 0)" using x n key_heap_swap [of 0 h n n] by (auto split: if_splits)
  then show "key x \<le> key y" if "heap_ok key h" "y \<in> set h"
    using that heap_on_root_min [of key h "length h"] by (auto simp: in_set_conv_nth)
qed

lemma pop_total: "h \<noteq> [] \<Longrightarrow> \<exists>x h'. heap_pop key upd h = Inr (x, h')"
  by (simp add: heap_pop_def Let_def)

theorem remove_spec:
  assumes "heap_remove key upd (int i) h = Inr (x, h')"
  shows "i < length h"
    and "mset (map core h) = add_mset (core x) (mset (map core h'))"
    and "core x = core (h ! i)"
    and "length h = Suc (length h')"
    and "index_ok idx h \<Longrightarrow> index_ok idx h'"
    and "heap_ok key h \<Longrightarrow> heap_ok key h'"
proof -
  define n where "n = length h - 1"
  define s where "s = heap_swap upd h i n"
  obtain d m where d: "down key upd s i n = (d, m)" by fastforce
  define g where "g = (if i = n then h else if i < m then d else up key upd d i)"
  show i: "i < length h" using assms by (auto simp: heap_remove_def split: if_splits)
  have x: "x = upd (-1) (g ! n)" "h' = take n g"
    using assms i d by (auto simp: heap_remove_def Let_def n_def s_def g_def split: if_splits)
  have n: "length h = Suc n" "i \<le> n" using i by (simp_all add: n_def)
  have s: "length s = Suc n" "mset (map core s) = mset (map core h)"
    using n core_heap_swap [of i h n] by (auto simp: s_def)
  note fr = down_frame [of n s i, unfolded d, simplified]
  have dl: "length d = Suc n" "mset (map core d) = mset (map core h)" "d ! n = s ! n"
    using fr s by auto
  note ufr = up_frame [of i d]
  have g: "length g = Suc n" "mset (map core g) = mset (map core h)"
    using dl ufr n by (auto simp: g_def)
  show "mset (map core h) = add_mset (core x) (mset (map core h'))"
    using cut_core [OF g] x by simp
  show "length h = Suc (length h')" using n g x by auto
  have "i < n \<Longrightarrow> g ! n = s ! n" using dl ufr n by (auto simp: g_def)
  then show "core x = core (h ! i)"
    using x n by (cases "i = n") (auto simp: g_def s_def heap_swap_def nth_list_update)
  show "index_ok idx h'" if "index_ok idx h"
    using that fr ufr dl s n x index_heap_swap [of h i n]
    by (auto simp: g_def s_def intro!: cut_index split: if_splits)
  show "heap_ok key h'" if "heap_ok key h"
  proof (cases "i = n")
    case True
    then have "heap_on key g n" using that n by (auto simp: g_def heap_on_def)
    then show ?thesis using cut_heap [of g n] g x by simp
  next
    case False
    then have "i < n" using n by simp
    with down_or_up [OF _ this _ d] swap_hole [OF that n] s n
    have "if i < m then heap_on key d n else d = s \<and> up_hole key s i n" by (simp add: s_def)
    then have "heap_on key g n" using \<open>i < n\<close> s up_heap [of s i n] by (auto simp: g_def split: if_splits)
    then show ?thesis using cut_heap [of g n] g x by simp
  qed
qed

lemma remove_total: "i < length h \<Longrightarrow> \<exists>x h'. heap_remove key upd (int i) h = Inr (x, h')"
  by (auto simp: heap_remove_def Let_def)

end

end
