(* ===== verification/Go_Machine.thy ===== *)
theory Go_Machine
  imports Go_Prelude
begin

text \<open>
  Components whose state changes by events that may panic: running a list of events, and the
  contract under which a run never panics and keeps an invariant (\<open>state_machine\<close>), and under
  which it accounts for everything that enters (\<open>accounted_machine\<close>).
\<close>

fun go_run :: "('e \<Rightarrow> 's \<Rightarrow> 's go) \<Rightarrow> 'e list \<Rightarrow> 's \<Rightarrow> 's go" where
  "go_run step [] s = Inr s"
| "go_run step (e # es) s = (case step e s of Inl p \<Rightarrow> Inl p | Inr s' \<Rightarrow> go_run step es s')"

lemma go_run_append:
  "go_run step (es @ fs) s = (case go_run step es s of Inl p \<Rightarrow> Inl p | Inr s' \<Rightarrow> go_run step fs s')"
  by (induction step es s rule: go_run.induct) (auto split: sum.splits)

locale state_machine =
  fixes step :: "'e \<Rightarrow> 's \<Rightarrow> 's go"
    and admissible :: "'e \<Rightarrow> bool"
    and inv :: "'s \<Rightarrow> bool"
  assumes progress: "inv s \<Longrightarrow> admissible e \<Longrightarrow> \<exists>s'. step e s = Inr s' \<and> inv s'"
begin

lemma run_inv:
  "inv s \<Longrightarrow> list_all admissible es \<Longrightarrow> \<exists>s'. go_run step es s = Inr s' \<and> inv s'"
proof (induction es arbitrary: s)
  case (Cons e es)
  then obtain s1 where "step e s = Inr s1" "inv s1" using progress [of s e] by auto
  with Cons show ?case by auto
qed simp

end

locale accounted_machine = state_machine step admissible inv
  for step :: "'e \<Rightarrow> 's \<Rightarrow> 's go" and admissible :: "'e \<Rightarrow> bool" and inv :: "'s \<Rightarrow> bool" +
  fixes total :: "'s \<Rightarrow> 'm::comm_monoid_add"
    and gain :: "'e \<Rightarrow> 'm"
  assumes account: "inv s \<Longrightarrow> admissible e \<Longrightarrow> step e s = Inr s' \<Longrightarrow> total s' = total s + gain e"
begin

lemma run_account:
  "inv s \<Longrightarrow> list_all admissible es \<Longrightarrow> go_run step es s = Inr s' \<Longrightarrow>
     total s' = total s + sum_list (map gain es)"
proof (induction es arbitrary: s)
  case (Cons e es)
  then obtain s1 where s1: "step e s = Inr s1" "inv s1" using progress [of s e] by auto
  with Cons account [of s e s1] show ?case by (simp add: add.assoc)
qed simp

end

end
