(* ===== verification/Aggregator.thy ===== *)
theory Aggregator
  imports Tunnel_Packet Go_Heap Go_Machine Proxy_Util
begin

text \<open>
  The batching aggregator of data-proxy/aggregator/aggregator.go. A worker keeps, per route,
  a list of batches (tunnel packets being filled) and a heap of deadlines; \<open>handleMsg\<close> adds a
  message to a batch or sends it at once, \<open>checkTimeout\<close> sends the batches that are due, and
  \<open>evictStaleBatches\<close> drops the batches of routes that are idle.

  Batches and heap items are reached through pointers, so they live in a store: a batch is
  named by its address, a heap item carries its own in \<open>item_id\<close>, and the \<open>heapItem\<close> field
  of a batch holds the address of its item. An item that has left the heap has the index -1.
  The goroutines of a worker interleave between steps: \<open>handleMsg\<close>, the two halves of
  \<open>checkTimeout\<close> (popping the due items, then sending their batches) and \<open>evictStaleBatches\<close>. In
  the code \<open>handleMsg\<close> and \<open>evictStaleBatches\<close> take and release their locks several times; that a
  check runs in the middle of one of them is not modelled. \<open>time.Now()\<close> is a parameter of a step; the
  packets handed to \<open>TunnelMgr.SendPacket\<close> are collected in \<open>sent\<close>.
\<close>

section \<open>Data\<close>

record aggregatorMsg =
  msg_emerge :: bool
  msg_routingKey :: string
  msg_protocol :: string
  msg_port :: u16
  msg_routingInfo :: PathInfo
  msg_nextHop :: net_IP
  msg_userID :: u32
  msg_data :: "byte list"

record Batch =
  batch_BuffSize :: nat
  RoutingKey :: string
  NextHop :: net_IP
  batch_pkt :: Packet
  heapItem :: "nat option"
  createTime :: time

record HeapItem =
  item_id :: nat
  item_batch :: nat
  item_deadline :: time
  item_index :: int

record sendInfo =
  send_p :: "byte list"
  send_routingKey :: string
  send_next :: net_IP

record worker =
  batches :: "string \<rightharpoonup> nat list"
  w_heap :: "HeapItem list"
  store :: "nat \<rightharpoonup> Batch"
  fresh :: nat
  expired :: "HeapItem list"
  sent :: "sendInfo list"

record agg_config =
  BufferSize :: nat
  BatchTimeoutMs :: int
  BatchNumMap :: "u16 \<rightharpoonup> int"

definition batchMaxAge :: duration where
  "batchMaxAge = 60 * second"

section \<open>The heap of deadlines\<close>

text \<open>\<open>MinHeap\<close>: \<open>Less\<close> compares deadlines, \<open>Swap\<close>, \<open>Push\<close> and \<open>Pop\<close> write the index.\<close>

definition item_upd :: "int \<Rightarrow> HeapItem \<Rightarrow> HeapItem" where
  "item_upd i it = it\<lparr>item_index := i\<rparr>"

definition item_core :: "HeapItem \<Rightarrow> nat \<times> nat \<times> time" where
  "item_core it = (item_id it, item_batch it, item_deadline it)"

interpretation dl: heap_item item_deadline item_upd item_index item_core
  by unfold_locales (simp_all add: item_upd_def item_core_def)

section \<open>Sending\<close>

definition flush :: "byte list \<Rightarrow> string \<Rightarrow> net_IP \<Rightarrow> worker \<Rightarrow> worker" where
  "flush buf routingKey nh w =
     (if buf = [] then w
      else w\<lparr>sent := sent w @ [\<lparr>send_p = buf, send_routingKey = routingKey, send_next = nh\<rparr>]\<rparr>)"

text \<open>The bytes that are sent for a packet: \<open>SerializeHead\<close>, then \<open>Buf[:TotalBytes()]\<close>.\<close>

definition wire :: "Packet \<Rightarrow> (byte list \<times> Packet) go" where
  "wire p =
     (case SerializeHead p of
        Inl e \<Rightarrow> Inl e
      | Inr p \<Rightarrow> if length (Buf p) < TotalBytes p then Inl SliceBounds
                 else Inr (take (TotalBytes p) (Buf p), p))"

section \<open>handleMsg\<close>

text \<open>The loop over \<open>routingInfo.Hops\<close>, and the packet every new batch starts with.\<close>

fun set_hops :: "int \<Rightarrow> string list \<Rightarrow> Packet \<Rightarrow> Packet" where
  "set_hops i [] p = p"
| "set_hops i (h # hs) p = set_hops (i + 1) hs (SetHopIP i (HopIPToNet h) p)"

definition route_packet :: "nat \<Rightarrow> aggregatorMsg \<Rightarrow> Packet" where
  "route_packet buffSize msg =
     SetHopPos 1 (SetProtocol (msg_protocol msg) (SetPort (msg_port msg)
       (set_hops 0 (Hops (msg_routingInfo msg)) (NewPacket buffSize))))"

definition new_batch :: "nat \<Rightarrow> time \<Rightarrow> aggregatorMsg \<Rightarrow> Batch" where
  "new_batch buffSize now msg =
     \<lparr>batch_BuffSize = buffSize, RoutingKey = msg_routingKey msg, NextHop = msg_nextHop msg,
      batch_pkt = route_packet buffSize msg, heapItem = None, createTime = now\<rparr>"

definition send_now :: "nat \<Rightarrow> aggregatorMsg \<Rightarrow> worker \<Rightarrow> worker go" where
  "send_now buffSize msg w =
     (case AppendUserPacket (msg_userID msg) (msg_data msg) (route_packet buffSize msg) of
        Inl e \<Rightarrow> Inl e
      | Inr (False, p) \<Rightarrow> Inr w
      | Inr (True, p) \<Rightarrow>
          (case wire p of
             Inl e \<Rightarrow> Inl e
           | Inr (buf, p) \<Rightarrow> Inr (flush buf (msg_routingKey msg) (msg_nextHop msg) w)))"

definition pick_batch :: "u32 \<Rightarrow> nat list \<Rightarrow> nat option" where
  "pick_batch userID bList =
     (if bList = [] then None
      else if length bList \<le> 1 then Some (bList ! 0)
      else Some (bList ! (unat userID mod length bList)))"

text \<open>Allocating \<open>n\<close> equal batches.\<close>

fun alloc_batches :: "nat \<Rightarrow> Batch \<Rightarrow> worker \<Rightarrow> nat list \<times> worker" where
  "alloc_batches 0 b w = ([], w)"
| "alloc_batches (Suc n) b w =
     (case alloc_batches n b (w\<lparr>store := (store w)(fresh w \<mapsto> b), fresh := fresh w + 1\<rparr>) of
        (ids, w') \<Rightarrow> (fresh w # ids, w'))"

text \<open>The batch for the message: one of its route, or the first of the batches created for it.\<close>

definition find_batch :: "agg_config \<Rightarrow> nat \<Rightarrow> time \<Rightarrow> aggregatorMsg \<Rightarrow> worker \<Rightarrow> nat option \<times> worker" where
  "find_batch cfg buffSize now msg w =
     (case pick_batch (msg_userID msg) (map_get [] (batches w) (msg_routingKey msg)) of
        Some b \<Rightarrow> (Some b, w)
      | None \<Rightarrow>
          let num = (case BatchNumMap cfg (msg_port msg) of
                       None \<Rightarrow> 1 | Some n \<Rightarrow> if n \<le> 0 then 1 else nat n);
              (ids, w) = alloc_batches num (new_batch buffSize now msg) w;
              w = (if batches w (msg_routingKey msg) = None
                   then w\<lparr>batches := (batches w)(msg_routingKey msg \<mapsto> ids)\<rparr> else w)
          in (pick_batch (msg_userID msg) (map_get [] (batches w) (msg_routingKey msg)), w))"

definition push_item :: "duration \<Rightarrow> time \<Rightarrow> nat \<Rightarrow> Batch \<Rightarrow> worker \<Rightarrow> worker" where
  "push_item batchTimeout now bid b w =
     (if heapItem b = None
      then let item = \<lparr>item_id = fresh w, item_batch = bid, item_deadline = now + batchTimeout, item_index = 0\<rparr>
           in w\<lparr>w_heap := heap_push item_deadline item_upd item (w_heap w),
                store := (store w)(bid \<mapsto> b\<lparr>heapItem := Some (fresh w)\<rparr>), fresh := fresh w + 1\<rparr>
      else w\<lparr>store := (store w)(bid \<mapsto> b)\<rparr>)"

text \<open>A batch that cannot take the message is followed by a new one for the same route.\<close>

definition overflow_batch :: "nat \<Rightarrow> duration \<Rightarrow> time \<Rightarrow> aggregatorMsg \<Rightarrow> worker \<Rightarrow> worker go" where
  "overflow_batch buffSize batchTimeout now msg w =
     (let b = new_batch buffSize now msg;
          bid = fresh w;
          w = w\<lparr>store := (store w)(bid \<mapsto> b), fresh := fresh w + 1,
                batches := (batches w)(msg_routingKey msg \<mapsto> map_get [] (batches w) (msg_routingKey msg) @ [bid])\<rparr>
      in case AppendUserPacket (msg_userID msg) (msg_data msg) (batch_pkt b) of
           Inl e \<Rightarrow> Inl e
         | Inr (ok, p) \<Rightarrow> Inr (push_item batchTimeout now bid (b\<lparr>batch_pkt := p\<rparr>) w))"

definition add_to_batch :: "nat \<Rightarrow> duration \<Rightarrow> time \<Rightarrow> aggregatorMsg \<Rightarrow> nat \<Rightarrow> worker \<Rightarrow> worker go" where
  "add_to_batch buffSize batchTimeout now msg bid w =
     (case store w bid of
        None \<Rightarrow> Inl NilDereference
      | Some b \<Rightarrow>
          if heapItem b = None \<and> Wp (batch_pkt b) > HeaderSize
          then overflow_batch buffSize batchTimeout now msg w
          else case AppendUserPacket (msg_userID msg) (msg_data msg) (batch_pkt b) of
                 Inl e \<Rightarrow> Inl e
               | Inr (False, p) \<Rightarrow> overflow_batch buffSize batchTimeout now msg w
               | Inr (True, p) \<Rightarrow> Inr (push_item batchTimeout now bid (b\<lparr>batch_pkt := p\<rparr>) w))"

definition handleMsg :: "agg_config \<Rightarrow> time \<Rightarrow> aggregatorMsg \<Rightarrow> worker \<Rightarrow> worker go" where
  "handleMsg cfg now msg w =
     (let batchTimeout = BatchTimeoutMs cfg * millisecond;
          small = (length (msg_data msg) < 128 \<or> batchTimeout \<le> 20 * millisecond);
          buffSize = (if small then HeaderSize + 4 + 2 + length (msg_data msg) else BufferSize cfg);
          urgent = (msg_emerge msg \<or> small)
      in if urgent then send_now buffSize msg w
         else case find_batch cfg buffSize now msg w of
                (None, w) \<Rightarrow> Inr w
              | (Some bid, w) \<Rightarrow> add_to_batch buffSize batchTimeout now msg bid w)"

section \<open>checkTimeout\<close>

function pop_expired :: "time \<Rightarrow> HeapItem list \<Rightarrow> HeapItem list \<times> HeapItem list" where
  "pop_expired now h =
     (if h = [] \<or> item_deadline (h ! 0) > now then ([], h)
      else case heap_pop item_deadline item_upd h of
             Inl e \<Rightarrow> ([], h)
           | Inr (x, h') \<Rightarrow> (case pop_expired now h' of (es, h'') \<Rightarrow> (x # es, h'')))"
  by pat_completeness auto
termination
  by (relation "measure (\<lambda>(now, h). length h)") (auto dest: dl.pop_spec(2))

declare pop_expired.simps [simp del]

definition checkTimeout_pop :: "time \<Rightarrow> worker \<Rightarrow> worker" where
  "checkTimeout_pop now w =
     (case pop_expired now (w_heap w) of (es, h) \<Rightarrow> w\<lparr>w_heap := h, expired := expired w @ es\<rparr>)"

fun collect_expired :: "time \<Rightarrow> HeapItem list \<Rightarrow> worker \<Rightarrow> (sendInfo list \<times> worker) go" where
  "collect_expired now [] w = Inr ([], w)"
| "collect_expired now (it # its) w =
     (case store w (item_batch it) of
        None \<Rightarrow> Inl NilDereference
      | Some b \<Rightarrow>
          (case wire (batch_pkt b) of
             Inl e \<Rightarrow> Inl e
           | Inr (buf, p) \<Rightarrow>
               let b' = b\<lparr>batch_pkt := p\<lparr>Wp := HeaderSize\<rparr>, createTime := now, heapItem := None\<rparr>;
                   w' = w\<lparr>store := (store w)(item_batch it \<mapsto> b')\<rparr>
               in case collect_expired now its w' of
                    Inl e \<Rightarrow> Inl e
                  | Inr (toSend, w'') \<Rightarrow>
                      Inr (\<lparr>send_p = buf, send_routingKey = RoutingKey b, send_next = NextHop b\<rparr> # toSend, w'')))"

definition checkTimeout_send :: "time \<Rightarrow> worker \<Rightarrow> worker go" where
  "checkTimeout_send now w =
     (case collect_expired now (expired w) w of
        Inl e \<Rightarrow> Inl e
      | Inr (toSend, w') \<Rightarrow>
          Inr (fold (\<lambda>s. flush (send_p s) (send_routingKey s) (send_next s)) toSend (w'\<lparr>expired := []\<rparr>)))"

definition checkTimeout :: "time \<Rightarrow> worker \<Rightarrow> worker go" where
  "checkTimeout now w = checkTimeout_send now (checkTimeout_pop now w)"

section \<open>evictStaleBatches\<close>

text \<open>\<open>b.heapItem.index\<close>, read through the pointer.\<close>

definition index_of :: "nat \<Rightarrow> HeapItem list \<Rightarrow> int" where
  "index_of i h = (case find (\<lambda>it. item_id it = i) h of None \<Rightarrow> -1 | Some it \<Rightarrow> item_index it)"

definition stale :: "time \<Rightarrow> Batch \<Rightarrow> bool" where
  "stale now b \<longleftrightarrow> now - createTime b > batchMaxAge"

fun remove_items :: "nat list \<Rightarrow> worker \<Rightarrow> worker go" where
  "remove_items [] w = Inr w"
| "remove_items (bid # bids) w =
     (case store w bid of
        None \<Rightarrow> Inl NilDereference
      | Some b \<Rightarrow>
          (case heapItem b of
             None \<Rightarrow> remove_items bids w
           | Some i \<Rightarrow>
               (case heap_remove item_deadline item_upd (index_of i (w_heap w)) (w_heap w) of
                  Inl e \<Rightarrow> Inl e
                | Inr (x, h) \<Rightarrow> remove_items bids (w\<lparr>w_heap := h\<rparr>))))"

fun evict_keys :: "time \<Rightarrow> string list \<Rightarrow> worker \<Rightarrow> worker go" where
  "evict_keys now [] w = Inr w"
| "evict_keys now (k # ks) w =
     (let v = map_get [] (batches w) k
      in if \<exists>bid \<in> set v. case store w bid of None \<Rightarrow> False | Some b \<Rightarrow> stale now b
         then case remove_items v w of
                Inl e \<Rightarrow> Inl e
              | Inr w' \<Rightarrow> evict_keys now ks (w'\<lparr>batches := (batches w')(k := None)\<rparr>)
         else evict_keys now ks w)"

text \<open>The keys are a snapshot of the map in the order \<open>ks\<close> the iteration visits them.\<close>

definition evictStaleBatches :: "time \<Rightarrow> string list \<Rightarrow> worker \<Rightarrow> worker go" where
  "evictStaleBatches now ks w = evict_keys now ks w"

definition new_worker :: worker where
  "new_worker = \<lparr>batches = Map.empty, w_heap = [], store = Map.empty, fresh = 0, expired = [], sent = []\<rparr>"

section \<open>Packets on the wire\<close>

text \<open>What a received packet carries, as the next proxy parses it.\<close>

definition packet_subs :: "byte list \<Rightarrow> SubPacket list" where
  "packet_subs buf = (case Parse buf (length buf) of Inr (Inr (p, subs)) \<Rightarrow> subs | _ \<Rightarrow> [])"

lemma unat_of_nat_le: "unat (of_nat n :: u16) \<le> n"
  by (simp add: unsigned_of_nat take_bit_eq_mod)

lemma wire_wf:
  assumes "wf_packet p"
  shows "wire p = Inr (take (TotalBytes p) (header_bytes p @ drop 22 (Buf p)),
    p\<lparr>Buf := header_bytes p @ drop 22 (Buf p)\<rparr>)"
proof -
  have "TotalBytes p \<le> length (Buf p)" "HeaderSize \<le> length (Buf p)"
    using assms unat_of_nat_le [of "Wp p - HeaderSize"] by (auto simp: wf_packet_def TotalBytes_def)
  then show ?thesis
    by (simp add: wire_def SerializeHead_bytes TotalBytes_def HeaderSize_def)
qed

lemma wire_holds:
  assumes "holds p subs" "\<forall>s \<in> set subs. sendable s" "BuffSize p < HeaderSize + 2 ^ 16"
  shows "\<exists>buf p' q. wire p = Inr (buf, p') \<and> buf \<noteq> []
    \<and> Parse buf (length buf) = Inr (Inr (q, subs)) \<and> same_header q p
    \<and> p' = p\<lparr>Buf := Buf p'\<rparr> \<and> length (Buf p') = length (Buf p)"
proof -
  have wf: "wf_packet p" and subs: "parse_subs (payload p) = subs"
    using assms(1,2) by (auto simp: holds_def parse_encode_subs)
  let ?b = "header_bytes p @ drop 22 (Buf p)"
  have len: "HeaderSize \<le> Wp p" "Wp p \<le> length (Buf p)" using wf by (auto simp: wf_packet_def)
  define raw where "raw = take (Wp p) ?b"
  have "length raw = Wp p" "length ?b = length (Buf p)" "raw \<noteq> []"
    using len by (auto simp: HeaderSize_def raw_def header_bytes_def codec_simps)
  moreover obtain q where "Parse raw (Wp p) = Inr (Inr (q, subs))" "same_header q p"
    using Parse_wire [OF wf assms(3) order_refl raw_def] subs by auto
  moreover have "wire p = Inr (raw, p\<lparr>Buf := ?b\<rparr>)"
    unfolding wire_wf [OF wf] TotalBytes_Wp [OF wf assms(3)] raw_def ..
  ultimately show ?thesis by simp
qed

lemma set_hops_holds: "holds p subs \<Longrightarrow> holds (set_hops i hs p) subs"
  by (induction i hs p rule: set_hops.induct) (auto simp: setters_hold)

lemma SetHopIP_BuffSize [simp]: "BuffSize (SetHopIP i ip p) = BuffSize p"
  by (simp add: SetHopIP_def split: option.splits)

lemma set_hops_BuffSize [simp]: "BuffSize (set_hops i hs p) = BuffSize p"
  by (induction i hs p rule: set_hops.induct) auto

lemma SetHopIP_Wp [simp]: "Wp (SetHopIP i ip p) = Wp p"
  by (simp add: SetHopIP_def split: option.splits)

lemma set_hops_Wp [simp]: "Wp (set_hops i hs p) = Wp p"
  by (induction i hs p rule: set_hops.induct) auto

lemma route_packet_frame [simp]:
  "BuffSize (route_packet n msg) = n" "Wp (route_packet n msg) = HeaderSize"
  by (simp_all add: route_packet_def SetHopPos_def SetProtocol_def SetPort_def NewPacket_def)

lemma route_packet_holds: "HeaderSize \<le> n \<Longrightarrow> holds (route_packet n msg) []"
  unfolding route_packet_def by (intro setters_hold set_hops_holds NewPacket_holds)

section \<open>The invariant of a worker\<close>

text \<open>
  A batch with an item in the heap holds sub-packets; one without is empty (its payload
  length is that of the last packet it sent). All batches have the configured size.
\<close>

definition batch_ok :: "nat \<Rightarrow> Batch \<Rightarrow> bool" where
  "batch_ok bsz b \<longleftrightarrow> BuffSize (batch_pkt b) = bsz \<and>
     (case heapItem b of
        None \<Rightarrow> wf_packet (batch_pkt b\<lparr>PayloadLen := 0\<rparr>) \<and> Wp (batch_pkt b) = HeaderSize
      | Some i \<Rightarrow> (\<exists>subs. holds (batch_pkt b) subs \<and> (\<forall>s \<in> set subs. sendable s)))"

text \<open>The items in the heap and those popped but not yet sent, without their index.\<close>

definition cores :: "worker \<Rightarrow> (nat \<times> nat \<times> time) list" where
  "cores w = map item_core (w_heap w @ expired w)"

lemma cores_frame [simp]:
  "cores (w\<lparr>store := st\<rparr>) = cores w" "cores (w\<lparr>batches := m\<rparr>) = cores w"
  "cores (w\<lparr>fresh := n\<rparr>) = cores w" "cores (w\<lparr>sent := ss\<rparr>) = cores w"
  by (simp_all add: cores_def)

definition store_ok :: "nat \<Rightarrow> worker \<Rightarrow> bool" where
  "store_ok bsz w \<longleftrightarrow> (\<forall>bid b. store w bid = Some b \<longrightarrow>
     bid < fresh w \<and> batch_ok bsz b \<and> (\<forall>i. heapItem b = Some i \<longrightarrow> i < fresh w))"

definition items_ok :: "worker \<Rightarrow> bool" where
  "items_ok w \<longleftrightarrow> distinct (map fst (cores w)) \<and>
     (\<forall>(i, bid, d) \<in> set (cores w). \<exists>b. store w bid = Some b \<and> heapItem b = Some i)"

definition route_ok :: "worker \<Rightarrow> string \<Rightarrow> nat \<Rightarrow> bool" where
  "route_ok w k bid \<longleftrightarrow> (\<exists>b. store w bid = Some b \<and> RoutingKey b = k \<and>
     (\<forall>i. heapItem b = Some i \<longrightarrow> (\<exists>d. (i, bid, d) \<in> set (cores w))))"

definition routes_ok :: "worker \<Rightarrow> bool" where
  "routes_ok w \<longleftrightarrow> (\<forall>k ids. batches w k = Some ids \<longrightarrow>
     ids \<noteq> [] \<and> distinct ids \<and> (\<forall>bid \<in> set ids. route_ok w k bid))"

definition heap_inv :: "worker \<Rightarrow> bool" where
  "heap_inv w \<longleftrightarrow> heap_ok item_deadline (w_heap w) \<and> index_ok item_index (w_heap w)"

definition agg_inv :: "nat \<Rightarrow> worker \<Rightarrow> bool" where
  "agg_inv bsz w \<longleftrightarrow> store_ok bsz w \<and> items_ok w \<and> routes_ok w \<and> heap_inv w"

text \<open>The messages a batch holds, those waiting in the worker and those it has sent, by route.\<close>

definition content :: "(nat \<rightharpoonup> Batch) \<Rightarrow> nat \<Rightarrow> (string \<times> SubPacket) multiset" where
  "content st bid = (case st bid of
     None \<Rightarrow> {#} | Some b \<Rightarrow> mset (map (Pair (RoutingKey b)) (parse_subs (payload (batch_pkt b)))))"

definition pending :: "worker \<Rightarrow> (string \<times> SubPacket) multiset" where
  "pending w = (\<Sum>(i, bid, d) \<in># mset (cores w). content (store w) bid)"

definition delivered :: "worker \<Rightarrow> (string \<times> SubPacket) multiset" where
  "delivered w = (\<Sum>s \<in># mset (sent w). mset (map (Pair (send_routingKey s)) (packet_subs (send_p s))))"

definition messages :: "worker \<Rightarrow> (string \<times> SubPacket) multiset" where
  "messages w = pending w + delivered w"

definition msg_content :: "aggregatorMsg \<Rightarrow> string \<times> SubPacket" where
  "msg_content msg = (msg_routingKey msg, \<lparr>UserID = msg_userID msg, Data = msg_data msg\<rparr>)"

lemma agg_inv_init: "agg_inv bsz new_worker"
  by (simp add: agg_inv_def store_ok_def items_ok_def routes_ok_def heap_inv_def cores_def
      new_worker_def heap_on_def index_ok_def)

lemma content_None_item:
  "batch_ok bsz b \<Longrightarrow> heapItem b = None \<Longrightarrow> st bid = Some b \<Longrightarrow> content st bid = {#}"
  by (simp add: batch_ok_def content_def payload_def parse_subs.simps)

text \<open>Appending to a batch, whatever its state.\<close>

lemma append_batch:
  assumes "batch_ok bsz b" "HeaderSize + 2 ^ 16 > bsz" "128 \<le> length d"
  shows "\<exists>ok p. AppendUserPacket u d (batch_pkt b) = Inr (ok, p)
    \<and> (ok \<longleftrightarrow> Wp (batch_pkt b) + 6 + length d \<le> bsz)
    \<and> (ok \<longrightarrow> BuffSize p = bsz \<and> (\<exists>subs. holds p subs \<and> (\<forall>s \<in> set subs. sendable s)
         \<and> subs = parse_subs (payload (batch_pkt b)) @ [\<lparr>UserID = u, Data = d\<rparr>]))"
proof (cases "Wp (batch_pkt b) + 6 + length d \<le> bsz")
  case False
  then show ?thesis using append_full [of "batch_pkt b" d u] assms(1) by (auto simp: batch_ok_def)
next
  case True
  let ?p = "batch_pkt b\<lparr>PayloadLen := of_nat (Wp (batch_pkt b) - HeaderSize)\<rparr>"
  have eq: "AppendUserPacket u d ?p = AppendUserPacket u d (batch_pkt b)"
    using True assms(1) by (simp add: AppendUserPacket_def Let_def batch_ok_def)
  have wf: "wf_packet ?p" using assms(1) by (auto simp: batch_ok_def wf_packet_def holds_def split: option.splits)
  obtain subs where subs: "payload ?p = concat (map encode_sub subs)" "\<forall>s \<in> set subs. sendable s"
  proof (cases "heapItem b")
    case None
    with assms(1) have "payload ?p = concat (map encode_sub [])" by (simp add: batch_ok_def payload_def)
    then show ?thesis using that [of "[]"] by simp
  next
    case (Some i)
    with assms(1) show ?thesis using that by (auto simp: batch_ok_def holds_def payload_def)
  qed
  have new: "sendable \<lparr>UserID = u, Data = d\<rparr>"
    using True assms(2,3) wf by (auto simp: sendable_def wf_packet_def)
  have old: "parse_subs (payload (batch_pkt b)) = subs"
    using parse_encode_subs [OF subs(2)] subs(1) by (simp add: payload_def)
  have size: "BuffSize ?p = bsz" using assms(1) by (simp add: batch_ok_def)
  have "Wp ?p + 6 + length d \<le> BuffSize ?p" using True size by simp
  from append_fits [OF wf this, of u, unfolded eq] obtain p'
    where p': "AppendUserPacket u d (batch_pkt b) = Inr (True, p')" "wf_packet p'"
      "payload p' = payload ?p @ encode_sub \<lparr>UserID = u, Data = d\<rparr>" "BuffSize p' = bsz"
    using size by auto
  then have "holds p' (subs @ [\<lparr>UserID = u, Data = d\<rparr>])" using subs(1) by (simp add: holds_def)
  with p' True subs(2) new old show ?thesis by auto
qed

section \<open>Updating a batch\<close>

abbreviation sum_content :: "(nat \<rightharpoonup> Batch) \<Rightarrow> (nat \<times> nat \<times> time) list \<Rightarrow> (string \<times> SubPacket) multiset" where
  "sum_content st cs \<equiv> (\<Sum>(i, bid, d) \<in># mset cs. content st bid)"

lemma sum_content_other:
  "\<forall>(i, b, d) \<in> set cs. b \<noteq> bid \<Longrightarrow> sum_content (st(bid \<mapsto> b')) cs = sum_content st cs"
  by (intro arg_cong [of _ _ sum_mset] image_mset_cong) (auto simp: content_def)

lemma items_okD:
  "items_ok w \<Longrightarrow> (i, bid, d) \<in> set (cores w) \<Longrightarrow> \<exists>b. store w bid = Some b \<and> heapItem b = Some i"
  by (auto simp: items_ok_def)

lemma items_okI:
  assumes "distinct (map fst (cores w))"
    and "\<And>i bid d. (i, bid, d) \<in> set (cores w) \<Longrightarrow> \<exists>b. store w bid = Some b \<and> heapItem b = Some i"
  shows "items_ok w"
  using assms by (auto simp: items_ok_def)

lemma items_unique:
  assumes "items_ok w" "cores w = xs @ (i, bid, d) # ys"
  shows "\<forall>(j, b, e) \<in> set (xs @ ys). b \<noteq> bid"
proof -
  note item = items_okD [OF assms(1)]
  have nd: "i \<notin> fst ` set (xs @ ys)" using assms by (simp add: items_ok_def image_Un)
  have "b \<noteq> bid" if c: "(j, b, e) \<in> set (xs @ ys)" for j b e
  proof
    assume "b = bid"
    with c assms(2) have "(j, bid, e) \<in> set (cores w)" "(i, bid, d) \<in> set (cores w)" by auto
    from item [OF this(1)] item [OF this(2)] have "i = j" by auto
    with nd c show False by (metis fst_conv image_eqI)
  qed
  then show ?thesis by blast
qed

lemma sum_content_update:
  assumes "items_ok w" "(i, bid, d) \<in> set (cores w)"
  shows "sum_content ((store w)(bid \<mapsto> b')) (cores w) + content (store w) bid
    = pending w + content ((store w)(bid \<mapsto> b')) bid"
proof -
  obtain xs ys where c: "cores w = xs @ (i, bid, d) # ys" using assms(2) by (meson split_list)
  from items_unique [OF assms(1) c]
  have "sum_content ((store w)(bid \<mapsto> b')) xs = sum_content (store w) xs"
    "sum_content ((store w)(bid \<mapsto> b')) ys = sum_content (store w) ys"
    by (intro sum_content_other; auto)+
  then show ?thesis unfolding pending_def c by simp
qed

lemma push_item_cores:
  "heapItem b = None \<Longrightarrow>
     mset (cores (push_item t now bid b w)) = add_mset (fresh w, bid, now + t) (mset (cores w))"
  by (simp add: push_item_def Let_def cores_def dl.push_core [unfolded mset_map] item_core_def)

lemma push_item_frame [simp]:
  "batches (push_item t now bid b w) = batches w" "sent (push_item t now bid b w) = sent w"
  "expired (push_item t now bid b w) = expired w"
  by (simp_all add: push_item_def Let_def)

text \<open>\<open>b'\<close> is the batch \<open>b\<close> at \<open>bid\<close> with a packet that holds sub-packets again.\<close>

lemma push_item_inv:
  assumes inv: "agg_inv bsz w" and b: "store w bid = Some b" "route_ok w (RoutingKey b) bid"
    and p: "holds p subs" "\<forall>s \<in> set subs. sendable s" "BuffSize p = bsz"
  defines "b' \<equiv> b\<lparr>batch_pkt := p\<rparr>"
  shows "agg_inv bsz (push_item t now bid b' w) \<and>
    pending (push_item t now bid b' w) + content (store w) bid
      = pending w + mset (map (Pair (RoutingKey b)) subs)"
proof (cases "heapItem b")
  case (Some i)
  have w': "push_item t now bid b' w = w\<lparr>store := (store w)(bid \<mapsto> b')\<rparr>" (is "_ = ?w")
    using Some by (simp add: push_item_def b'_def)
  obtain d where d: "(i, bid, d) \<in> set (cores w)" using b Some by (auto simp: route_ok_def)
  have "store_ok bsz ?w"
    using inv b p Some by (auto simp: agg_inv_def store_ok_def batch_ok_def b'_def)
  moreover have "\<exists>b. store ?w y = Some b \<and> heapItem b = Some x" if "(x, y, z) \<in> set (cores w)" for x y z
    using items_okD [OF _ that] inv b Some by (auto simp: agg_inv_def b'_def)
  then have "items_ok ?w" using inv by (auto simp: agg_inv_def items_ok_def)
  moreover have "route_ok ?w k y" if "route_ok w k y" for k y
    using that b by (cases "y = bid") (auto simp: route_ok_def b'_def)
  then have "routes_ok ?w" using inv by (auto simp: agg_inv_def routes_ok_def)
  moreover have "heap_inv ?w" using inv by (simp add: agg_inv_def heap_inv_def)
  moreover have "content ((store w)(bid \<mapsto> b')) bid = mset (map (Pair (RoutingKey b)) subs)"
    using p by (simp add: content_def b'_def holds_def parse_encode_subs)
  ultimately show ?thesis
    using sum_content_update [of w i bid d b'] inv d
    unfolding w' by (simp add: agg_inv_def pending_def)
next
  case None
  let ?w = "push_item t now bid b' w" and ?b = "b'\<lparr>heapItem := Some (fresh w)\<rparr>"
  have none: "heapItem b' = None" and rk: "RoutingKey b' = RoutingKey b"
    using None by (simp_all add: b'_def)
  note cs = push_item_cores [OF none, of t now bid w]
  have scs: "set (cores ?w) = insert (fresh w, bid, now + t) (set (cores w))"
    using arg_cong [OF cs, of set_mset] by simp
  have st: "store ?w = (store w)(bid \<mapsto> ?b)" "fresh ?w = fresh w + 1"
    "w_heap ?w = heap_push item_deadline item_upd
      \<lparr>item_id = fresh w, item_batch = bid, item_deadline = now + t, item_index = 0\<rparr> (w_heap w)"
    using none by (simp_all add: push_item_def Let_def)
  have item: "\<exists>b. store w y = Some b \<and> heapItem b = Some x" if "(x, y, z) \<in> set (cores w)" for x y z
    using items_okD [OF _ that] inv by (simp add: agg_inv_def)
  have noitem: "\<forall>(j, y, e) \<in> set (cores w). y \<noteq> bid" using item None b by fastforce
  have "batch_ok bsz ?b" using p by (auto simp: batch_ok_def b'_def)
  then have "store_ok bsz ?w"
    using inv b(1) unfolding agg_inv_def store_ok_def st by (auto intro: less_SucI split: if_splits)
  moreover have "items_ok ?w"
  proof -
    have "fresh w \<notin> fst ` set (cores w)"
      using item inv by (fastforce simp: agg_inv_def store_ok_def)
    moreover have "mset (map fst (cores ?w)) = mset (fresh w # map fst (cores w))" using cs by simp
    ultimately have "distinct (map fst (cores ?w))"
      using inv mset_eq_imp_distinct_iff [of "map fst (cores ?w)" "fresh w # map fst (cores w)"]
      by (simp add: agg_inv_def items_ok_def)
    moreover have "\<exists>b. store ?w y = Some b \<and> heapItem b = Some x" if "(x, y, z) \<in> set (cores ?w)" for x y z
      using that item [of x y z] noitem by (auto simp: scs st)
    ultimately show ?thesis by (auto simp: items_ok_def)
  qed
  moreover have "route_ok ?w k y" if "route_ok w k y" for k y
    using that b(1) rk by (cases "y = bid") (auto simp: route_ok_def scs st)
  then have "routes_ok ?w" using inv by (auto simp: agg_inv_def routes_ok_def)
  moreover have "heap_inv ?w"
    using inv by (simp add: agg_inv_def heap_inv_def st dl.push_heap dl.push_index del: dl.length_push)
  moreover have "content ((store w)(bid \<mapsto> ?b)) bid = mset (map (Pair (RoutingKey b)) subs)"
    using p by (simp add: content_def b'_def holds_def parse_encode_subs)
  moreover have "content (store w) bid = {#}"
    using content_None_item [of bsz b "store w" bid] None b inv by (auto simp: agg_inv_def store_ok_def)
  ultimately show ?thesis
    using sum_content_other [OF noitem, of "store w" ?b]
    by (simp add: agg_inv_def pending_def cs st)
qed

section \<open>Allocating batches\<close>

lemma agg_inv_sent [simp]: "agg_inv bsz (w\<lparr>sent := ss\<rparr>) = agg_inv bsz w"
  by (simp add: agg_inv_def store_ok_def items_ok_def routes_ok_def route_ok_def heap_inv_def)

lemma agg_inv_route:
  assumes "agg_inv bsz w" "ids \<noteq> []" "distinct ids" "\<forall>bid \<in> set ids. route_ok w k bid"
  shows "agg_inv bsz (w\<lparr>batches := (batches w)(k \<mapsto> ids)\<rparr>)"
  using assms by (auto simp: agg_inv_def store_ok_def items_ok_def routes_ok_def route_ok_def heap_inv_def)

lemma alloc_one:
  assumes inv: "agg_inv bsz w" and nb: "batch_ok bsz nb" "heapItem nb = None"
  defines "w' \<equiv> w\<lparr>store := (store w)(fresh w \<mapsto> nb), fresh := fresh w + 1\<rparr>"
  shows "agg_inv bsz w'" "pending w' = pending w"
    "\<And>k bid. route_ok w k bid \<Longrightarrow> bid \<noteq> fresh w \<and> route_ok w' k bid"
proof -
  have old: "bid < fresh w" if "store w bid = Some b" for bid b
    using inv that by (auto simp: agg_inv_def store_ok_def)
  have cs: "cores w' = cores w" by (simp add: w'_def)
  have item: "\<exists>b. store w y = Some b \<and> heapItem b = Some x" if "(x, y, z) \<in> set (cores w)" for x y z
    using items_okD [OF _ that] inv by (simp add: agg_inv_def)
  have fr: "\<forall>(x, y, z) \<in> set (cores w). y \<noteq> fresh w" using item old by fastforce
  show ro: "bid \<noteq> fresh w \<and> route_ok w' k bid" if "route_ok w k bid" for k bid
    using that old by (auto simp: route_ok_def cs) (auto simp: w'_def)
  have "store_ok bsz w'"
    using inv nb by (auto simp: agg_inv_def store_ok_def w'_def intro: less_SucI)
  moreover have "\<exists>b. store w' y = Some b \<and> heapItem b = Some x" if "(x, y, z) \<in> set (cores w)" for x y z
    using item [OF that] fr that by (auto simp: w'_def)
  then have "items_ok w'" using inv by (auto simp: agg_inv_def items_ok_def cs)
  moreover have "routes_ok w'"
    using inv ro by (auto simp: agg_inv_def routes_ok_def) (auto simp: w'_def)
  moreover have "heap_inv w'" using inv by (simp add: agg_inv_def heap_inv_def w'_def)
  ultimately show "agg_inv bsz w'" by (simp add: agg_inv_def)
  show "pending w' = pending w"
    using sum_content_other [OF fr, of "store w" nb] by (simp add: pending_def cs) (simp add: w'_def)
qed

lemma alloc_frame:
  "alloc_batches n nb w = (ids, w') \<Longrightarrow>
     batches w' = batches w \<and> sent w' = sent w \<and> cores w' = cores w
     \<and> ids = [fresh w..<fresh w + n] \<and> fresh w' = fresh w + n
     \<and> (\<forall>bid. store w' bid = (if fresh w \<le> bid \<and> bid < fresh w + n then Some nb else store w bid))"
proof (induction n nb w arbitrary: ids w' rule: alloc_batches.induct)
  case (2 n b w)
  let ?w = "w\<lparr>store := (store w)(fresh w \<mapsto> b), fresh := fresh w + 1\<rparr>"
  obtain ids1 w1 where a: "alloc_batches n b ?w = (ids1, w1)" by fastforce
  with "2.IH" [OF a] "2.prems" show ?case
    by (auto simp: upt_conv_Cons simp del: upt_Suc)
qed auto

lemma alloc_inv:
  "alloc_batches n nb w = (ids, w') \<Longrightarrow> agg_inv bsz w \<Longrightarrow> batch_ok bsz nb \<Longrightarrow> heapItem nb = None \<Longrightarrow>
     agg_inv bsz w' \<and> pending w' = pending w"
proof (induction n nb w arbitrary: ids w' rule: alloc_batches.induct)
  case (2 n b w)
  let ?w = "w\<lparr>store := (store w)(fresh w \<mapsto> b), fresh := fresh w + 1\<rparr>"
  obtain ids1 w1 where a: "alloc_batches n b ?w = (ids1, w1)" by fastforce
  with "2.IH" [OF a] "2.prems" alloc_one [OF "2.prems"(2,3,4)] show ?case by auto
qed auto

lemma new_batch_ok: "HeaderSize \<le> bsz \<Longrightarrow> batch_ok bsz (new_batch bsz now msg)"
  using route_packet_holds [of bsz msg]
  by (auto simp: batch_ok_def new_batch_def holds_def wf_packet_def)

lemma new_batch_frame [simp]:
  "heapItem (new_batch n now msg) = None" "RoutingKey (new_batch n now msg) = msg_routingKey msg"
  "batch_pkt (new_batch n now msg) = route_packet n msg"
  by (simp_all add: new_batch_def)

section \<open>handleMsg\<close>

lemma pick_batch_mem: "pick_batch u ids = Some bid \<Longrightarrow> bid \<in> set ids"
  by (auto simp: pick_batch_def split: if_splits)

lemma pick_batch_None: "pick_batch u ids = None \<longleftrightarrow> ids = []"
  by (simp add: pick_batch_def)

lemma route_list: "routes_ok w \<Longrightarrow> bid \<in> set (map_get [] (batches w) k) \<Longrightarrow> route_ok w k bid"
  by (cases "batches w k") (auto simp: routes_ok_def)

lemma find_batch_inv:
  assumes inv: "agg_inv bsz w" and n: "HeaderSize \<le> bsz"
  shows "\<exists>bid w'. find_batch cfg bsz now msg w = (Some bid, w') \<and> agg_inv bsz w'
    \<and> route_ok w' (msg_routingKey msg) bid \<and> messages w' = messages w"
proof (cases "pick_batch (msg_userID msg) (map_get [] (batches w) (msg_routingKey msg))")
  case (Some bid)
  then have "bid \<in> set (map_get [] (batches w) (msg_routingKey msg))" by (rule pick_batch_mem)
  then have "route_ok w (msg_routingKey msg) bid" using inv route_list by (simp add: agg_inv_def)
  with Some inv show ?thesis by (simp add: find_batch_def)
next
  case None
  let ?k = "msg_routingKey msg" and ?nb = "new_batch bsz now msg"
  let ?num = "case BatchNumMap cfg (msg_port msg) of None \<Rightarrow> 1 | Some n \<Rightarrow> if n \<le> 0 then 1 else nat n"
  obtain ids w1 where a: "alloc_batches ?num ?nb w = (ids, w1)" by fastforce
  note fr = alloc_frame [OF a]
  have key: "batches w ?k = None"
    using None inv by (cases "batches w ?k") (auto simp: pick_batch_None agg_inv_def routes_ok_def)
  have inv1: "agg_inv bsz w1" "pending w1 = pending w"
    using alloc_inv [OF a inv new_batch_ok [OF n]] by auto
  have num: "0 < ?num" by (auto split: option.splits)
  then have ids: "ids \<noteq> []" "distinct ids" using fr by auto
  have ro: "\<forall>bid \<in> set ids. route_ok w1 ?k bid" using fr by (auto simp: route_ok_def)
  let ?w = "w1\<lparr>batches := (batches w1)(?k \<mapsto> ids)\<rparr>"
  have inv2: "agg_inv bsz ?w" by (rule agg_inv_route [OF inv1(1) ids ro])
  obtain bid where bid: "pick_batch (msg_userID msg) ids = Some bid"
    using ids by (cases "pick_batch (msg_userID msg) ids") (auto simp: pick_batch_None)
  then have "route_ok ?w ?k bid" using ro pick_batch_mem [OF bid] by (auto simp: route_ok_def)
  moreover have "messages ?w = messages w"
    using inv1 fr by (simp add: messages_def delivered_def pending_def)
  ultimately show ?thesis
    using None a key fr bid inv2 by (auto simp: find_batch_def Let_def)
qed

lemma messages_push:
  assumes "agg_inv bsz w" "store w bid = Some b" "route_ok w (RoutingKey b) bid"
    and "holds p subs" "\<forall>s \<in> set subs. sendable s" "BuffSize p = bsz"
    and "subs = parse_subs (payload (batch_pkt b)) @ new"
  shows "agg_inv bsz (push_item t now bid (b\<lparr>batch_pkt := p\<rparr>) w)"
    and "messages (push_item t now bid (b\<lparr>batch_pkt := p\<rparr>) w)
      = messages w + mset (map (Pair (RoutingKey b)) new)"
proof -
  note pi = push_item_inv [OF assms(1-6), of t now]
  from pi show "agg_inv bsz (push_item t now bid (b\<lparr>batch_pkt := p\<rparr>) w)" by blast
  have "content (store w) bid = mset (map (Pair (RoutingKey b)) (parse_subs (payload (batch_pkt b))))"
    using assms(2) by (simp add: content_def)
  with pi assms(7) show "messages (push_item t now bid (b\<lparr>batch_pkt := p\<rparr>) w)
      = messages w + mset (map (Pair (RoutingKey b)) new)"
    by (simp add: messages_def delivered_def)
qed

lemma overflow_inv:
  assumes inv: "agg_inv bsz w" and n: "HeaderSize \<le> bsz" "bsz < HeaderSize + 2 ^ 16"
    and len: "128 \<le> length (msg_data msg)"
  shows "\<exists>w'. overflow_batch bsz t now msg w = Inr w' \<and> agg_inv bsz w'
    \<and> messages w' = messages w + (if HeaderSize + 6 + length (msg_data msg) \<le> bsz then {#msg_content msg#} else {#})"
proof -
  let ?nb = "new_batch bsz now msg" and ?k = "msg_routingKey msg"
  define w1 where "w1 = w\<lparr>store := (store w)(fresh w \<mapsto> ?nb), fresh := fresh w + 1\<rparr>"
  define w2 where "w2 = w1\<lparr>batches := (batches w1)(?k \<mapsto> map_get [] (batches w) ?k @ [fresh w])\<rparr>"
  note al = alloc_one [OF inv new_batch_ok [OF n(1), of now msg], folded w1_def, simplified]
  have w1b: "batches w1 = batches w" "store w1 (fresh w) = Some ?nb" by (simp_all add: w1_def)
  have old: "bid \<noteq> fresh w \<and> route_ok w1 ?k bid" if "bid \<in> set (map_get [] (batches w) ?k)" for bid
    using al(3) route_list [OF _ that] inv by (auto simp: agg_inv_def)
  have "distinct (map_get [] (batches w) ?k)"
    using inv by (cases "batches w ?k") (auto simp: agg_inv_def routes_ok_def)
  then have inv2: "agg_inv bsz w2"
    unfolding w2_def using al(1) old by (intro agg_inv_route) (auto simp: route_ok_def w1b)
  have ro: "route_ok w2 (RoutingKey ?nb) (fresh w)" "store w2 (fresh w) = Some ?nb"
    by (auto simp: route_ok_def w2_def w1b)
  have m2: "messages w2 = messages w"
    using al(2) by (simp add: messages_def pending_def delivered_def w2_def) (simp add: w1_def)
  have nil: "parse_subs (payload (route_packet bsz msg)) = []"
    using route_packet_holds [OF n(1), of msg] by (simp add: holds_def parse_subs.simps)
  from append_batch [OF new_batch_ok [OF n(1), of now msg] n(2) len, of "msg_userID msg"] obtain ok p where
    ap: "AppendUserPacket (msg_userID msg) (msg_data msg) (route_packet bsz msg) = Inr (ok, p)"
      "ok \<longleftrightarrow> HeaderSize + 6 + length (msg_data msg) \<le> bsz"
      "ok \<Longrightarrow> BuffSize p = bsz \<and> holds p [snd (msg_content msg)] \<and> sendable (snd (msg_content msg))"
    by (auto simp: nil msg_content_def)
  have res: "overflow_batch bsz t now msg w = Inr (push_item t now (fresh w) (?nb\<lparr>batch_pkt := p\<rparr>) w2)"
    using ap(1) by (simp add: overflow_batch_def Let_def w2_def w1_def)
  show ?thesis
  proof (cases ok)
    case True
    then show ?thesis
      using messages_push [OF inv2 ro(2,1), of p "[snd (msg_content msg)]" "[snd (msg_content msg)]" t now]
        ap m2 res by (simp add: nil msg_content_def)
  next
    case False
    then have "p = route_packet bsz msg" using ap append_full [of "route_packet bsz msg"] by auto
    then show ?thesis
      using messages_push [OF inv2 ro(2,1), of p "[]" "[]" t now] route_packet_holds [OF n(1), of msg]
        ap False m2 res by (simp add: nil)
  qed
qed

lemma add_to_batch_inv:
  assumes inv: "agg_inv bsz w" and n: "HeaderSize \<le> bsz" "bsz < HeaderSize + 2 ^ 16"
    and len: "128 \<le> length (msg_data msg)" and ro: "route_ok w (msg_routingKey msg) bid"
  shows "\<exists>w'. add_to_batch bsz t now msg bid w = Inr w' \<and> agg_inv bsz w'
    \<and> messages w' = messages w + (if HeaderSize + 6 + length (msg_data msg) \<le> bsz then {#msg_content msg#} else {#})"
proof -
  obtain b where b: "store w bid = Some b" "RoutingKey b = msg_routingKey msg"
    using ro by (auto simp: route_ok_def)
  have bok: "batch_ok bsz b" using inv b by (auto simp: agg_inv_def store_ok_def)
  have first: "\<not> (heapItem b = None \<and> Wp (batch_pkt b) > HeaderSize)"
    using bok by (auto simp: batch_ok_def)
  from append_batch [OF bok n(2) len, of "msg_userID msg"] obtain ok p where
    ap: "AppendUserPacket (msg_userID msg) (msg_data msg) (batch_pkt b) = Inr (ok, p)"
      "ok \<longleftrightarrow> Wp (batch_pkt b) + 6 + length (msg_data msg) \<le> bsz"
      "ok \<Longrightarrow> BuffSize p = bsz \<and> (\<exists>subs. holds p subs \<and> (\<forall>s \<in> set subs. sendable s)
         \<and> subs = parse_subs (payload (batch_pkt b)) @ [snd (msg_content msg)])"
    by (auto simp: msg_content_def)
  show ?thesis
  proof (cases ok)
    case False
    with overflow_inv [OF inv n len, of t now] ap(1) b(1) first show ?thesis
      by (simp add: add_to_batch_def)
  next
    case True
    then obtain subs where s: "holds p subs" "\<forall>s \<in> set subs. sendable s"
      "subs = parse_subs (payload (batch_pkt b)) @ [snd (msg_content msg)]" using ap(3) by blast
    have "HeaderSize \<le> Wp (batch_pkt b)"
      using bok by (auto simp: batch_ok_def holds_def wf_packet_def split: option.splits)
    with True ap(2) have "HeaderSize + 6 + length (msg_data msg) \<le> bsz" by simp
    then show ?thesis
      using messages_push [OF inv b(1) _ s(1,2) _ s(3), of t now] ap(1,3) True first b ro
      by (auto simp: add_to_batch_def msg_content_def)
  qed
qed

lemma delivered_flush:
  "buf \<noteq> [] \<Longrightarrow> delivered (flush buf k nh w) = delivered w + mset (map (Pair k) (packet_subs buf))"
  by (simp add: flush_def delivered_def)

lemma flush_frame [simp]:
  "agg_inv bsz (flush buf k nh w) = agg_inv bsz w" "pending (flush buf k nh w) = pending w"
  "expired (flush buf k nh w) = expired w" "w_heap (flush buf k nh w) = w_heap w"
  by (simp_all add: flush_def pending_def)

lemma send_now_inv:
  assumes "HeaderSize \<le> n"
  shows "\<exists>w'. send_now n msg w = Inr w' \<and> (agg_inv bsz w \<longrightarrow> agg_inv bsz w') \<and>
    (msg_data msg \<noteq> [] \<and> HeaderSize + 6 + length (msg_data msg) \<le> n \<and> n < HeaderSize + 2 ^ 16 \<longrightarrow>
       messages w' = add_mset (msg_content msg) (messages w))"
proof (cases "HeaderSize + 6 + length (msg_data msg) \<le> n")
  case False
  then show ?thesis
    using append_full [of "route_packet n msg" "msg_data msg" "msg_userID msg"] by (simp add: send_now_def)
next
  case True
  have h: "holds (route_packet n msg) []" by (rule route_packet_holds [OF assms])
  then have wf: "wf_packet (route_packet n msg)" by (simp add: holds_def)
  have "Wp (route_packet n msg) + 6 + length (msg_data msg) \<le> BuffSize (route_packet n msg)"
    using True by simp
  from append_fits [OF wf this, of "msg_userID msg"] h obtain p where
    p: "AppendUserPacket (msg_userID msg) (msg_data msg) (route_packet n msg) = Inr (True, p)"
      "holds p [snd (msg_content msg)]" "BuffSize p = n"
    by (auto simp: holds_def msg_content_def)
  then have wire: "wire p = Inr (take (TotalBytes p) (header_bytes p @ drop 22 (Buf p)),
      p\<lparr>Buf := header_bytes p @ drop 22 (Buf p)\<rparr>)" (is "_ = Inr (?buf, _)")
    by (intro wire_wf) (simp add: holds_def)
  have res: "send_now n msg w = Inr (flush ?buf (msg_routingKey msg) (msg_nextHop msg) w)"
    using p(1) wire by (simp add: send_now_def)
  have "messages (flush ?buf (msg_routingKey msg) (msg_nextHop msg) w) = add_mset (msg_content msg) (messages w)"
    if d: "msg_data msg \<noteq> []" "n < HeaderSize + 2 ^ 16"
  proof -
    have "sendable (snd (msg_content msg))"
      using d True by (simp add: sendable_def msg_content_def)
    then have "packet_subs ?buf = [snd (msg_content msg)]" "?buf \<noteq> []"
      using wire_holds [OF p(2)] p(3) d wire by (auto simp: packet_subs_def)
    then show ?thesis by (simp add: messages_def delivered_flush msg_content_def)
  qed
  with res show ?thesis by auto
qed

definition agg_config_ok :: "agg_config \<Rightarrow> bool" where
  "agg_config_ok cfg \<longleftrightarrow> HeaderSize \<le> BufferSize cfg \<and> BufferSize cfg < HeaderSize + 2 ^ 16"

definition fits :: "agg_config \<Rightarrow> aggregatorMsg \<Rightarrow> bool" where
  "fits cfg msg \<longleftrightarrow> msg_data msg \<noteq> [] \<and> HeaderSize + 6 + length (msg_data msg) \<le> BufferSize cfg"

lemma handleMsg_inv:
  assumes cfg: "agg_config_ok cfg" and inv: "agg_inv (BufferSize cfg) w"
  shows "\<exists>w'. handleMsg cfg now msg w = Inr w' \<and> agg_inv (BufferSize cfg) w' \<and>
    (fits cfg msg \<longrightarrow> messages w' = add_mset (msg_content msg) (messages w))"
proof -
  let ?t = "BatchTimeoutMs cfg * millisecond"
  let ?small = "length (msg_data msg) < 128 \<or> ?t \<le> 20 * millisecond"
  let ?n = "if ?small then HeaderSize + 4 + 2 + length (msg_data msg) else BufferSize cfg"
  show ?thesis
  proof (cases "msg_emerge msg \<or> ?small")
    case True
    have "HeaderSize \<le> ?n" using cfg by (simp add: agg_config_ok_def)
    moreover have "handleMsg cfg now msg w = send_now ?n msg w"
      using True by (auto simp: handleMsg_def Let_def)
    moreover have "fits cfg msg \<Longrightarrow> HeaderSize + 6 + length (msg_data msg) \<le> ?n \<and> ?n < HeaderSize + 2 ^ 16"
      using cfg by (auto simp: fits_def agg_config_ok_def)
    ultimately show ?thesis
      using send_now_inv [of ?n msg w "BufferSize cfg"] inv by (auto simp: fits_def)
  next
    case False
    then obtain bid w1 where f: "find_batch cfg (BufferSize cfg) now msg w = (Some bid, w1)"
      "agg_inv (BufferSize cfg) w1" "route_ok w1 (msg_routingKey msg) bid" "messages w1 = messages w"
      using find_batch_inv [OF inv, of cfg now msg] cfg by (auto simp: agg_config_ok_def)
    have "128 \<le> length (msg_data msg)" using False by simp
    with add_to_batch_inv [OF f(2) _ _ _ f(3), of ?t now] cfg f(4)
    obtain w' where "add_to_batch (BufferSize cfg) ?t now msg bid w1 = Inr w'" "agg_inv (BufferSize cfg) w'"
      "messages w' = messages w + (if HeaderSize + 6 + length (msg_data msg) \<le> BufferSize cfg
         then {#msg_content msg#} else {#})"
      by (auto simp: agg_config_ok_def)
    then show ?thesis using False f(1) by (auto simp: handleMsg_def Let_def fits_def)
  qed
qed

section \<open>checkTimeout\<close>

lemma pop_expired_spec:
  "pop_expired now h = (es, h') \<Longrightarrow>
     mset (map item_core h) = mset (map item_core h') + mset (map item_core es)
     \<and> (heap_ok item_deadline h \<longrightarrow> heap_ok item_deadline h' \<and> (\<forall>it \<in> set h'. now < item_deadline it))
     \<and> (index_ok item_index h \<longrightarrow> index_ok item_index h')"
proof (induction now h arbitrary: es h' rule: pop_expired.induct)
  case (1 now h)
  show ?case
  proof (cases "h = [] \<or> item_deadline (h ! 0) > now")
    case True
    moreover have "now < item_deadline it" if "heap_ok item_deadline h" "it \<in> set h" for it
      using that True heap_on_root_min [of item_deadline h "length h"]
      by (fastforce simp: in_set_conv_nth)
    ultimately show ?thesis using "1.prems" by (auto simp: pop_expired.simps [of now h])
  next
    case False
    then obtain x h1 where p: "heap_pop item_deadline item_upd h = Inr (x, h1)"
      using dl.pop_total [of h] by blast
    obtain es1 h2 where r: "pop_expired now h1 = (es1, h2)" by fastforce
    have "es = x # es1" "h' = h2"
      using "1.prems" False p r by (auto simp: pop_expired.simps [of now h])
    with "1.IH" [OF False p refl r] dl.pop_spec [OF p] show ?thesis by simp
  qed
qed

text \<open>The invariant and the content depend on the heap only through the items in it.\<close>

lemma agg_inv_reorder:
  assumes "agg_inv bsz w" "store w' = store w" "batches w' = batches w" "fresh w' = fresh w"
    and "mset (cores w') = mset (cores w)" "heap_inv w'"
  shows "agg_inv bsz w'" "pending w' = pending w"
proof -
  have "set (cores w') = set (cores w)" using assms(5) by (metis set_mset_mset)
  moreover have "distinct (map fst (cores w')) = distinct (map fst (cores w))"
    using assms(5) by (intro mset_eq_imp_distinct_iff) simp
  ultimately show "agg_inv bsz w'"
    using assms by (auto simp: agg_inv_def store_ok_def items_ok_def routes_ok_def route_ok_def)
  show "pending w' = pending w" using assms by (simp add: pending_def)
qed

lemma checkTimeout_pop_inv:
  assumes "agg_inv bsz w"
  shows "agg_inv bsz (checkTimeout_pop now w)" "messages (checkTimeout_pop now w) = messages w"
    "\<forall>it \<in> set (w_heap (checkTimeout_pop now w)). now < item_deadline it"
    "item_deadline ` set (w_heap (checkTimeout_pop now w)) \<subseteq> item_deadline ` set (w_heap w)"
proof -
  obtain es h where p: "pop_expired now (w_heap w) = (es, h)" by fastforce
  note spec = pop_expired_spec [OF p]
  have w': "checkTimeout_pop now w = w\<lparr>w_heap := h, expired := expired w @ es\<rparr>" (is "_ = ?w")
    by (simp add: checkTimeout_pop_def p)
  have "mset (cores ?w) = mset (cores w)" using spec by (simp add: cores_def)
  moreover have "heap_inv ?w" using spec assms by (simp add: agg_inv_def heap_inv_def)
  ultimately have "agg_inv bsz ?w" "pending ?w = pending w"
    by (rule agg_inv_reorder [OF assms, rotated 3]; simp)+
  then show "agg_inv bsz (checkTimeout_pop now w)" "messages (checkTimeout_pop now w) = messages w"
    by (simp_all add: w' messages_def delivered_def)
  show "\<forall>it \<in> set (w_heap (checkTimeout_pop now w)). now < item_deadline it"
    using spec assms by (simp add: w' agg_inv_def heap_inv_def)
  have "set (map item_core h) \<subseteq> set (map item_core (w_heap w))"
    using spec by (metis mset_subset_eq_add_left set_mset_mono set_mset_mset)
  then have "(\<lambda>(i, b, d). d) ` set (map item_core h) \<subseteq> (\<lambda>(i, b, d). d) ` set (map item_core (w_heap w))"
    by (rule image_mono)
  then show "item_deadline ` set (w_heap (checkTimeout_pop now w)) \<subseteq> item_deadline ` set (w_heap w)"
    by (simp add: w' image_image item_core_def)
qed

text \<open>Sending one popped item: its batch is empty again, and all it held is in the packet.\<close>

lemma send_one:
  assumes inv: "agg_inv bsz (w\<lparr>expired := it # its\<rparr>)" and n: "bsz < HeaderSize + 2 ^ 16"
  shows "\<exists>b buf p. store w (item_batch it) = Some b \<and> wire (batch_pkt b) = Inr (buf, p) \<and> buf \<noteq> [] \<and>
    (let w' = w\<lparr>store := (store w)(item_batch it \<mapsto>
       b\<lparr>batch_pkt := p\<lparr>Wp := HeaderSize\<rparr>, createTime := now, heapItem := None\<rparr>)\<rparr>
     in agg_inv bsz (w'\<lparr>expired := its\<rparr>) \<and>
        pending (w\<lparr>expired := it # its\<rparr>)
          = pending (w'\<lparr>expired := its\<rparr>) + mset (map (Pair (RoutingKey b)) (packet_subs buf)))"
proof -
  let ?w = "w\<lparr>expired := it # its\<rparr>" and ?bid = "item_batch it"
  let ?xs = "map item_core (w_heap w)" and ?ys = "map item_core its"
  have cs: "cores ?w = ?xs @ (item_id it, ?bid, item_deadline it) # ?ys"
    by (simp add: cores_def item_core_def)
  have parts: "store_ok bsz ?w" "items_ok ?w" "routes_ok ?w" "heap_inv ?w"
    using inv by (auto simp: agg_inv_def)
  have "(item_id it, ?bid, item_deadline it) \<in> set (cores ?w)" by (simp add: cs)
  from items_okD [OF parts(2) this]
  obtain b where b: "store w ?bid = Some b" "heapItem b = Some (item_id it)" by auto
  note other = items_unique [OF parts(2) cs]
  have bok: "batch_ok bsz b" using parts(1) b by (auto simp: store_ok_def)
  then obtain subs where s: "holds (batch_pkt b) subs" "\<forall>s \<in> set subs. sendable s"
    and bs: "BuffSize (batch_pkt b) = bsz" using b by (auto simp: batch_ok_def)
  from wire_holds [OF s] n bs obtain buf p q where wire: "wire (batch_pkt b) = Inr (buf, p)" "buf \<noteq> []"
    "Parse buf (length buf) = Inr (Inr (q, subs))" "p = batch_pkt b\<lparr>Buf := Buf p\<rparr>"
    "length (Buf p) = length (Buf (batch_pkt b))" by auto
  let ?b = "b\<lparr>batch_pkt := p\<lparr>Wp := HeaderSize\<rparr>, createTime := now, heapItem := None\<rparr>"
  let ?w' = "w\<lparr>store := (store w)(?bid \<mapsto> ?b), expired := its\<rparr>"
  have cs': "cores ?w' = ?xs @ ?ys" by (simp add: cores_def)
  have frame: "BuffSize p = bsz" "HopIP p = HopIP (batch_pkt b)"
    using bs wire(4) by (metis Packet.select_convs(2) Packet.surjective Packet.update_convs(1),
        metis Packet.select_convs(4) Packet.surjective Packet.update_convs(1))
  have "batch_ok bsz ?b"
    using bs s(1) frame wire(5) by (simp add: batch_ok_def holds_def wf_packet_def)
  then have "store_ok bsz ?w'" using parts(1) b(1) by (auto simp: store_ok_def)
  moreover have "\<exists>b. store ?w' y = Some b \<and> heapItem b = Some x" if c: "(x, y, z) \<in> set (?xs @ ?ys)" for x y z
  proof -
    have "(x, y, z) \<in> set (cores ?w)" using c by (auto simp: cs)
    from items_okD [OF parts(2) this] show ?thesis using bspec [OF other c] by auto
  qed
  moreover have "distinct (map fst (?xs @ ?ys))" using parts(2) unfolding items_ok_def cs by simp
  ultimately have "store_ok bsz ?w' \<and> items_ok ?w'" by (intro conjI items_okI) (simp_all only: cs')
  moreover have "route_ok ?w' k y" if "route_ok ?w k y" for k y
    using that b by (cases "y = ?bid") (auto simp: route_ok_def cs cs')
  then have "routes_ok ?w'" using parts(3) by (auto simp: routes_ok_def)
  moreover have "heap_inv ?w'" using parts(4) by (simp add: heap_inv_def)
  ultimately have inv': "agg_inv bsz ?w'" by (simp add: agg_inv_def)
  have "packet_subs buf = subs" "parse_subs (payload (batch_pkt b)) = subs"
    using wire(3) s by (simp_all add: packet_subs_def holds_def parse_encode_subs)
  then have "content (store w) ?bid = mset (map (Pair (RoutingKey b)) (packet_subs buf))"
    using b by (simp add: content_def)
  moreover have "sum_content (store ?w') (cores ?w') = sum_content (store w) (cores ?w')"
    using sum_content_other [of "cores ?w'" ?bid "store w" ?b] other unfolding cs' by simp
  ultimately have "pending ?w = pending ?w' + mset (map (Pair (RoutingKey b)) (packet_subs buf))"
    unfolding pending_def cs cs' by simp
  with b(1) wire(1,2) inv' show ?thesis by (auto simp: Let_def)
qed

lemma collect_expired_inv:
  assumes "agg_inv bsz (w\<lparr>expired := its\<rparr>)" "bsz < HeaderSize + 2 ^ 16"
  shows "\<exists>toSend w'. collect_expired now its w = Inr (toSend, w') \<and> agg_inv bsz (w'\<lparr>expired := []\<rparr>)
    \<and> w_heap w' = w_heap w \<and> sent w' = sent w \<and> (\<forall>s \<in> set toSend. send_p s \<noteq> [])
    \<and> pending (w\<lparr>expired := its\<rparr>) = pending (w'\<lparr>expired := []\<rparr>)
        + (\<Sum>s \<in># mset toSend. mset (map (Pair (send_routingKey s)) (packet_subs (send_p s))))"
  using assms(1)
proof (induction its arbitrary: w)
  case (Cons it its)
  from send_one [OF Cons.prems assms(2), of now] obtain b buf p where
    b: "store w (item_batch it) = Some b" "wire (batch_pkt b) = Inr (buf, p)" "buf \<noteq> []" and
    step: "let w' = w\<lparr>store := (store w)(item_batch it \<mapsto>
        b\<lparr>batch_pkt := p\<lparr>Wp := HeaderSize\<rparr>, createTime := now, heapItem := None\<rparr>)\<rparr>
      in agg_inv bsz (w'\<lparr>expired := its\<rparr>) \<and> pending (w\<lparr>expired := it # its\<rparr>)
        = pending (w'\<lparr>expired := its\<rparr>) + mset (map (Pair (RoutingKey b)) (packet_subs buf))"
    by blast
  define w1 where "w1 = w\<lparr>store := (store w)(item_batch it \<mapsto>
      b\<lparr>batch_pkt := p\<lparr>Wp := HeaderSize\<rparr>, createTime := now, heapItem := None\<rparr>)\<rparr>"
  have w1: "w_heap w1 = w_heap w" "sent w1 = sent w" by (simp_all add: w1_def)
  have s1: "agg_inv bsz (w1\<lparr>expired := its\<rparr>)" "pending (w\<lparr>expired := it # its\<rparr>)
      = pending (w1\<lparr>expired := its\<rparr>) + mset (map (Pair (RoutingKey b)) (packet_subs buf))"
    using step unfolding w1_def Let_def by auto
  from Cons.IH [OF s1(1)] obtain toSend w2 where
    r: "collect_expired now its w1 = Inr (toSend, w2)" "agg_inv bsz (w2\<lparr>expired := []\<rparr>)"
      "w_heap w2 = w_heap w1" "sent w2 = sent w1" "\<forall>s \<in> set toSend. send_p s \<noteq> []"
      "pending (w1\<lparr>expired := its\<rparr>) = pending (w2\<lparr>expired := []\<rparr>)
        + (\<Sum>s \<in># mset toSend. mset (map (Pair (send_routingKey s)) (packet_subs (send_p s))))"
    by blast
  have "collect_expired now (it # its) w
      = Inr (\<lparr>send_p = buf, send_routingKey = RoutingKey b, send_next = NextHop b\<rparr> # toSend, w2)"
    using b r(1) by (simp add: w1_def)
  with b r s1(2) w1 show ?case by auto
qed (simp add: cores_def)

lemma flush_all:
  "\<forall>s \<in> set toSend. send_p s \<noteq> [] \<Longrightarrow>
     fold (\<lambda>s. flush (send_p s) (send_routingKey s) (send_next s)) toSend w = w\<lparr>sent := sent w @ toSend\<rparr>"
  by (induction toSend arbitrary: w) (auto simp: flush_def)

lemma checkTimeout_send_inv:
  assumes "agg_inv bsz w" "bsz < HeaderSize + 2 ^ 16"
  shows "\<exists>w'. checkTimeout_send now w = Inr w' \<and> agg_inv bsz w' \<and> messages w' = messages w
    \<and> expired w' = [] \<and> w_heap w' = w_heap w"
proof -
  have "agg_inv bsz (w\<lparr>expired := expired w\<rparr>)" using assms(1) by simp
  from collect_expired_inv [OF this assms(2), of now] obtain toSend w1 where
    c: "collect_expired now (expired w) w = Inr (toSend, w1)" "agg_inv bsz (w1\<lparr>expired := []\<rparr>)"
      "w_heap w1 = w_heap w" "sent w1 = sent w" "\<forall>s \<in> set toSend. send_p s \<noteq> []"
      "pending w = pending (w1\<lparr>expired := []\<rparr>)
        + (\<Sum>s \<in># mset toSend. mset (map (Pair (send_routingKey s)) (packet_subs (send_p s))))"
    by auto
  let ?w = "w1\<lparr>expired := [], sent := sent w @ toSend\<rparr>"
  have "agg_inv bsz ?w" using c(2) by simp
  moreover have "pending ?w = pending (w1\<lparr>expired := []\<rparr>)" by (simp add: pending_def)
  then have "messages ?w = messages w"
    using c(6) by (simp add: messages_def delivered_def)
  ultimately show ?thesis
    using c(1,3,4) flush_all [OF c(5), of "w1\<lparr>expired := []\<rparr>"] by (simp add: checkTimeout_send_def)
qed

lemma checkTimeout_inv:
  assumes "agg_inv bsz w" "bsz < HeaderSize + 2 ^ 16"
  shows "\<exists>w'. checkTimeout now w = Inr w' \<and> agg_inv bsz w' \<and> messages w' = messages w
    \<and> expired w' = [] \<and> (\<forall>it \<in> set (w_heap w'). now < item_deadline it)
    \<and> item_deadline ` set (w_heap w') \<subseteq> item_deadline ` set (w_heap w)"
  using checkTimeout_send_inv [OF checkTimeout_pop_inv(1) [OF assms(1)] assms(2), of now now]
    checkTimeout_pop_inv(2,3,4) [OF assms(1), of now]
  by (auto simp: checkTimeout_def)

section \<open>Eviction\<close>

lemma index_of_item:
  assumes "index_ok item_index h" "distinct (map item_id h)" "it \<in> set h"
  shows "\<exists>n < length h. index_of (item_id it) h = int n \<and> h ! n = it"
proof -
  obtain n where n: "n < length h" "h ! n = it" using assms(3) by (auto simp: in_set_conv_nth)
  have "find (\<lambda>x. item_id x = item_id it) h = Some it"
  proof -
    obtain y where y: "find (\<lambda>x. item_id x = item_id it) h = Some y"
      using assms(3) by (cases "find (\<lambda>x. item_id x = item_id it) h") (auto simp: find_None_iff)
    then have "y \<in> set h" "item_id y = item_id it" by (auto simp: find_Some_iff)
    with assms(2,3) have "y = it" by (metis distinct_map inj_on_eq_iff)
    with y show ?thesis by simp
  qed
  with n assms(1) show ?thesis by (auto simp: index_of_def index_ok_def)
qed

lemma remove_items_inv:
  assumes "expired w = []" "items_ok w" "heap_inv w" "distinct bids" "\<forall>bid \<in> set bids. route_ok w k bid"
  shows "\<exists>h. remove_items bids w = Inr (w\<lparr>w_heap := h\<rparr>) \<and> items_ok (w\<lparr>w_heap := h\<rparr>)
    \<and> heap_inv (w\<lparr>w_heap := h\<rparr>)
    \<and> mset (cores (w\<lparr>w_heap := h\<rparr>)) = filter_mset (\<lambda>x. fst (snd x) \<notin> set bids) (mset (cores w))"
  using assms
proof (induction bids arbitrary: w)
  case Nil
  then show ?case by (intro exI [of _ "w_heap w"]) auto
next
  case (Cons bid bids)
  obtain b where b: "store w bid = Some b" using Cons.prems(5) by (auto simp: route_ok_def)
  show ?case
  proof (cases "heapItem b")
    case None
    then have "y \<noteq> bid" if "(i, y, d) \<in> set (cores w)" for i y d
      using items_okD [OF Cons.prems(2) that] b by auto
    then have "filter_mset (\<lambda>x. fst (snd x) \<notin> set (bid # bids)) (mset (cores w))
      = filter_mset (\<lambda>x. fst (snd x) \<notin> set bids) (mset (cores w))" by (intro filter_mset_cong) fastforce+
    with Cons.IH [OF Cons.prems(1,2,3)] Cons.prems(4,5) b None show ?thesis by simp
  next
    case (Some i)
    then obtain d where "(i, bid, d) \<in> set (cores w)" using Cons.prems(5) b by (auto simp: route_ok_def)
    then obtain it where it: "it \<in> set (w_heap w)" "item_core it = (i, bid, d)"
      using Cons.prems(1) by (auto simp: cores_def)
    have ids: "map fst (cores w) = map item_id (w_heap w)"
      using Cons.prems(1) by (simp add: cores_def item_core_def)
    then have "distinct (map item_id (w_heap w))" using Cons.prems(2) by (simp add: items_ok_def)
    with index_of_item [OF _ this it(1)] Cons.prems(3) it(2) obtain n where
      n: "n < length (w_heap w)" "index_of i (w_heap w) = int n" "w_heap w ! n = it"
      by (auto simp: heap_inv_def item_core_def)
    obtain x h where r: "heap_remove item_deadline item_upd (int n) (w_heap w) = Inr (x, h)"
      using dl.remove_total [OF n(1)] by blast
    note spec = dl.remove_spec [OF r]
    let ?w = "w\<lparr>w_heap := h\<rparr>"
    have cs: "mset (cores w) = add_mset (i, bid, d) (mset (cores ?w))"
      using spec(2,3) n(3) it(2) Cons.prems(1) by (simp add: cores_def)
    then have scs: "set (cores w) = insert (i, bid, d) (set (cores ?w))"
      by (metis set_mset_add_mset_insert set_mset_mset)
    have ids': "mset (map fst (cores w)) = mset (i # map fst (cores ?w))" using cs by simp
    then have "distinct (map fst (cores ?w))"
      using Cons.prems(2) mset_eq_imp_distinct_iff by (fastforce simp: items_ok_def)
    then have 1: "items_ok ?w"
      using items_okD [OF Cons.prems(2)] by (intro items_okI) (auto simp: scs)
    have 2: "heap_inv ?w" using spec(5,6) Cons.prems(3) by (simp add: heap_inv_def)
    have "route_ok ?w k y" if "y \<in> set bids" for y
    proof -
      have "y \<noteq> bid" "route_ok w k y" using that Cons.prems(4,5) by auto
      then show ?thesis by (auto simp: route_ok_def scs)
    qed
    then obtain h' where ih: "remove_items bids ?w = Inr (?w\<lparr>w_heap := h'\<rparr>)" "items_ok (?w\<lparr>w_heap := h'\<rparr>)"
      "heap_inv (?w\<lparr>w_heap := h'\<rparr>)"
      "mset (cores (?w\<lparr>w_heap := h'\<rparr>)) = filter_mset (\<lambda>x. fst (snd x) \<notin> set bids) (mset (cores ?w))"
      using Cons.IH [of ?w] Cons.prems(1,4) 1 2 by auto
    have "y \<noteq> bid" if y: "(j, y, e) \<in> set (cores ?w)" for j y e
    proof
      assume "y = bid"
      then have "j = i" using items_okD [OF 1 y] b Some by simp
      moreover have "i \<notin> fst ` set (cores ?w)"
        using mset_eq_imp_distinct_iff [OF ids'] Cons.prems(2) by (simp add: items_ok_def)
      ultimately show False using y by force
    qed
    then have "filter_mset (\<lambda>x. fst (snd x) \<notin> set bids) (mset (cores ?w))
      = filter_mset (\<lambda>x. fst (snd x) \<notin> set (bid # bids)) (mset (cores ?w))" by (intro filter_mset_cong) fastforce+
    then show ?thesis
      using ih b Some n(2) r cs by (intro exI [of _ h']) auto
  qed
qed

text \<open>The routes that an eviction removes, and the messages that wait in their batches.\<close>

definition evicts :: "time \<Rightarrow> worker \<Rightarrow> string \<Rightarrow> bool" where
  "evicts now w k \<longleftrightarrow> (\<exists>bid \<in> set (map_get [] (batches w) k). case store w bid of None \<Rightarrow> False | Some b \<Rightarrow> stale now b)"

definition evicted :: "time \<Rightarrow> string list \<Rightarrow> worker \<Rightarrow> nat \<Rightarrow> bool" where
  "evicted now ks w bid \<longleftrightarrow> (\<exists>k \<in> set ks. evicts now w k \<and> bid \<in> set (map_get [] (batches w) k))"

definition evict_lost :: "time \<Rightarrow> string list \<Rightarrow> worker \<Rightarrow> (string \<times> SubPacket) multiset" where
  "evict_lost now ks w = sum_list (map (\<lambda>(i, bid, d). content (store w) bid) (filter (\<lambda>x. evicted now ks w (fst (snd x))) (cores w)))"

definition evict_result :: "time \<Rightarrow> string list \<Rightarrow> worker \<Rightarrow> worker \<Rightarrow> bool" where
  "evict_result now ks w w' \<longleftrightarrow> expired w' = [] \<and> sent w' = sent w \<and> store w' = store w
     \<and> batches w' = (\<lambda>k. if k \<in> set ks \<and> evicts now w k then None else batches w k)
     \<and> mset (cores w') = filter_mset (\<lambda>x. \<not> evicted now ks w (fst (snd x))) (mset (cores w))"

text \<open>Removing one route.\<close>

lemma evict_route:
  assumes "agg_inv bsz w" "expired w = []"
  shows "\<exists>h. remove_items (map_get [] (batches w) k) w = Inr (w\<lparr>w_heap := h\<rparr>)
    \<and> agg_inv bsz (w\<lparr>w_heap := h, batches := (batches w)(k := None)\<rparr>)
    \<and> mset (cores (w\<lparr>w_heap := h\<rparr>)) = filter_mset (\<lambda>x. fst (snd x) \<notin> set (map_get [] (batches w) k)) (mset (cores w))"
proof -
  let ?v = "map_get [] (batches w) k"
  have parts: "store_ok bsz w" "items_ok w" "routes_ok w" "heap_inv w" using assms by (auto simp: agg_inv_def)
  have v: "distinct ?v" "\<forall>bid \<in> set ?v. route_ok w k bid"
    using parts(3) route_list by (cases "batches w k"; auto simp: routes_ok_def)+
  from remove_items_inv [OF assms(2) parts(2,4) v] obtain h where
    h: "remove_items ?v w = Inr (w\<lparr>w_heap := h\<rparr>)" "items_ok (w\<lparr>w_heap := h\<rparr>)" "heap_inv (w\<lparr>w_heap := h\<rparr>)"
      "mset (cores (w\<lparr>w_heap := h\<rparr>)) = filter_mset (\<lambda>x. fst (snd x) \<notin> set ?v) (mset (cores w))" by blast
  let ?w = "w\<lparr>w_heap := h, batches := (batches w)(k := None)\<rparr>"
  have cs: "cores ?w = cores (w\<lparr>w_heap := h\<rparr>)" by (simp add: cores_def)
  have scs: "set (cores ?w) = {x \<in> set (cores w). fst (snd x) \<notin> set ?v}"
    using arg_cong [OF h(4), of set_mset] unfolding cs by auto
  have "route_ok ?w k' y" if ro: "route_ok w k' y" "k' \<noteq> k" for k' y
  proof -
    have "y \<notin> set ?v" using ro v(2) by (auto simp: route_ok_def)
    then show ?thesis using ro(1) scs unfolding route_ok_def by fastforce
  qed
  then have "routes_ok ?w" using parts(3) by (auto simp: routes_ok_def)
  moreover have "store_ok bsz ?w" using parts(1) by (simp add: store_ok_def)
  moreover have "items_ok ?w" using h(2) by (simp add: items_ok_def cs)
  moreover have "heap_inv ?w" using h(3) by (simp add: heap_inv_def)
  ultimately show ?thesis using h(1,4) by (auto simp: agg_inv_def)
qed

lemma evict_exact:
  "agg_inv bsz w \<Longrightarrow> expired w = [] \<Longrightarrow>
     \<exists>w'. evict_keys now ks w = Inr w' \<and> agg_inv bsz w' \<and> evict_result now ks w w'"
proof (induction ks arbitrary: w)
  case Nil
  then show ?case by (simp add: evict_result_def evicted_def)
next
  case (Cons k ks)
  show ?case
  proof (cases "evicts now w k")
    case False
    then have "evict_keys now (k # ks) w = evict_keys now ks w" by (simp add: evicts_def Let_def)
    moreover have "evicted now (k # ks) w = evicted now ks w"
      "(x \<in> set (k # ks) \<and> evicts now w x) = (x \<in> set ks \<and> evicts now w x)" for x
      using False by (auto simp: evicted_def fun_eq_iff)
    ultimately show ?thesis using Cons.IH [OF Cons.prems] unfolding evict_result_def by simp
  next
    case True
    from evict_route [OF Cons.prems, of k] obtain h where
      h: "remove_items (map_get [] (batches w) k) w = Inr (w\<lparr>w_heap := h\<rparr>)"
        "agg_inv bsz (w\<lparr>w_heap := h, batches := (batches w)(k := None)\<rparr>)"
        "mset (cores (w\<lparr>w_heap := h\<rparr>)) = filter_mset (\<lambda>x. fst (snd x) \<notin> set (map_get [] (batches w) k)) (mset (cores w))"
      by blast
    let ?w = "w\<lparr>w_heap := h, batches := (batches w)(k := None)\<rparr>"
    have step: "evict_keys now (k # ks) w = evict_keys now ks ?w" using True h(1) by (simp add: evicts_def Let_def)
    have ev: "evicts now ?w x \<longleftrightarrow> x \<noteq> k \<and> evicts now w x" for x by (auto simp: evicts_def map_get_def)
    then have evd: "evicted now (k # ks) w bid \<longleftrightarrow> bid \<in> set (map_get [] (batches w) k) \<or> evicted now ks ?w bid" for bid
      using True by (auto simp: evicted_def map_get_def)
    have "cores ?w = cores (w\<lparr>w_heap := h\<rparr>)" by (simp add: cores_def)
    moreover obtain w' where w': "evict_keys now ks ?w = Inr w'" "agg_inv bsz w'" "evict_result now ks ?w w'"
      using Cons.IH [OF h(2)] Cons.prems(2) by auto
    ultimately have "evict_result now (k # ks) w w'"
      using h(3) True by (auto simp: evict_result_def ev evd fun_eq_iff filter_filter_mset intro!: filter_mset_cong)
    with w' step show ?thesis by auto
  qed
qed

lemma evict_inv:
  assumes "agg_inv bsz w" "expired w = []"
  shows "\<exists>w'. evict_keys now ks w = Inr w' \<and> agg_inv bsz w' \<and> expired w' = [] \<and> sent w' = sent w"
  using evict_exact [OF assms] by (auto simp: evict_result_def)

text \<open>What is lost and what stays.\<close>

lemma evict_pending:
  assumes "evict_result now ks w w'"
  shows "pending w = pending w' + evict_lost now ks w" "delivered w' = delivered w"
proof -
  let ?P = "\<lambda>x. evicted now ks w (fst (snd x))"
  have st: "store w' = store w" and c: "mset (cores w') = filter_mset (\<lambda>x. \<not> ?P x) (mset (cores w))"
    using assms by (auto simp: evict_result_def)
  have "pending w = (\<Sum>(i, bid, d) \<in># filter_mset (\<lambda>x. \<not> ?P x) (mset (cores w)) + filter_mset ?P (mset (cores w)). content (store w) bid)"
    using multiset_partition [of "mset (cores w)" ?P] by (simp add: pending_def add.commute)
  also have "\<dots> = pending w' + evict_lost now ks w"
    unfolding pending_def evict_lost_def c st by (simp flip: sum_mset_sum_list mset_filter mset_map)
  finally show "pending w = pending w' + evict_lost now ks w" .
  show "delivered w' = delivered w" using assms by (simp add: evict_result_def delivered_def)
qed

section \<open>The worker as a machine\<close>

text \<open>The goroutines that \<open>Start\<close> launches for a worker, as events in the order they happen.\<close>

datatype agg_event =
    Msg time aggregatorMsg
  | Pop time
  | Send time
  | Evict time "string list"

fun agg_step :: "agg_config \<Rightarrow> agg_event \<Rightarrow> worker \<Rightarrow> worker go" where
  "agg_step cfg (Msg now msg) w = handleMsg cfg now msg w"
| "agg_step cfg (Pop now) w = Inr (checkTimeout_pop now w)"
| "agg_step cfg (Send now) w = checkTimeout_send now w"
| "agg_step cfg (Evict now ks) w = evictStaleBatches now ks w"

fun agg_admissible :: "agg_config \<Rightarrow> agg_event \<Rightarrow> bool" where
  "agg_admissible cfg (Msg now msg) = (agg_config_ok cfg \<and> fits cfg msg)"
| "agg_admissible cfg (Pop now) = agg_config_ok cfg"
| "agg_admissible cfg (Send now) = agg_config_ok cfg"
| "agg_admissible cfg (Evict now ks) = False"

fun agg_gain :: "agg_event \<Rightarrow> (string \<times> SubPacket) multiset" where
  "agg_gain (Msg now msg) = {#msg_content msg#}"
| "agg_gain e = {#}"

interpretation agg: accounted_machine "agg_step cfg" "agg_admissible cfg" "agg_inv (BufferSize cfg)" messages agg_gain
  for cfg
proof
  show "\<exists>w'. agg_step cfg e w = Inr w' \<and> agg_inv (BufferSize cfg) w'"
    if "agg_inv (BufferSize cfg) w" "agg_admissible cfg e" for w e
    using that handleMsg_inv [of cfg w] checkTimeout_pop_inv(1) checkTimeout_send_inv [of "BufferSize cfg" w]
    by (cases e) (fastforce simp: agg_config_ok_def)+
  show "messages w' = messages w + agg_gain e"
    if "agg_inv (BufferSize cfg) w" "agg_admissible cfg e" "agg_step cfg e w = Inr w'" for w e w'
  proof (cases e)
    case (Msg now msg)
    with that handleMsg_inv [of cfg w now msg] show ?thesis by auto
  next
    case (Pop now)
    with that checkTimeout_pop_inv(2) show ?thesis by auto
  next
    case (Send now)
    with that checkTimeout_send_inv [of "BufferSize cfg" w now] show ?thesis by (auto simp: agg_config_ok_def)
  qed (use that in auto)
qed

section \<open>Properties\<close>

lemma messages_new: "messages new_worker = {#}"
  by (simp add: messages_def pending_def delivered_def cores_def new_worker_def)

text \<open>C1. The aggregator loses and duplicates nothing: in every interleaving of incoming messages
  that fit a batch with the two halves of the timeout check, no step panics, and the messages of
  the run are exactly those still waiting in a batch and those that the packets handed to the
  tunnel carry to the next proxy, each under its own route.\<close>

theorem aggregator_exactly_once:
  assumes "list_all (agg_admissible cfg) es"
  shows "\<exists>w. go_run (agg_step cfg) es new_worker = Inr w
    \<and> pending w + delivered w = sum_list (map agg_gain es)"
proof -
  obtain w where w: "go_run (agg_step cfg) es new_worker = Inr w"
    using agg.run_inv [OF agg_inv_init assms] by blast
  from agg.run_account [OF agg_inv_init assms w] show ?thesis
    using w by (simp add: messages_new) (simp add: messages_def)
qed

definition sample_config :: agg_config where
  "sample_config = \<lparr>BufferSize = 200, BatchTimeoutMs = 50, BatchNumMap = Map.empty\<rparr>"

definition sample_msg :: "u32 \<Rightarrow> aggregatorMsg" where
  "sample_msg u = \<lparr>msg_emerge = False, msg_routingKey = ''r'', msg_protocol = ''tcp'', msg_port = 80,
     msg_routingInfo = \<lparr>Hops = [], Rtt = 0, RawRTT = 0\<rparr>, msg_nextHop = None, msg_userID = u,
     msg_data = replicate 130 1\<rparr>"

theorem aggregator_exactly_once_witness:
  "list_all (agg_admissible sample_config) [Msg 0 (sample_msg 7), Pop 60000000, Msg 60000001 (sample_msg 8), Send 60000002]
   \<and> (\<exists>w. go_run (agg_step sample_config)
        [Msg 0 (sample_msg 7), Pop 60000000, Msg 60000001 (sample_msg 8), Send 60000002] new_worker = Inr w
      \<and> pending w + delivered w = {#msg_content (sample_msg 7), msg_content (sample_msg 8)#})"
proof -
  have a: "list_all (agg_admissible sample_config)
      [Msg 0 (sample_msg 7), Pop 60000000, Msg 60000001 (sample_msg 8), Send 60000002]"
    by (simp add: agg_config_ok_def fits_def sample_config_def sample_msg_def HeaderSize_def)
  show ?thesis using a aggregator_exactly_once [OF a] by auto
qed

text \<open>C7. The timeout check sends what is due: it never panics, it keeps the invariant and the
  messages, it leaves no batch whose deadline has passed, and when every deadline had passed all
  messages of the worker have been sent.\<close>

theorem checkTimeout_sends:
  assumes "agg_inv bsz w" "bsz < HeaderSize + 2 ^ 16"
  shows "\<exists>w'. checkTimeout now w = Inr w' \<and> agg_inv bsz w' \<and> messages w' = messages w
    \<and> (\<forall>it \<in> set (w_heap w'). now < item_deadline it)
    \<and> ((\<forall>it \<in> set (w_heap w). item_deadline it \<le> now) \<longrightarrow> pending w' = {#} \<and> delivered w' = messages w)"
proof -
  from checkTimeout_inv [OF assms, of now] obtain w' where
    w: "checkTimeout now w = Inr w'" "agg_inv bsz w'" "messages w' = messages w" "expired w' = []"
      "\<forall>it \<in> set (w_heap w'). now < item_deadline it"
      "item_deadline ` set (w_heap w') \<subseteq> item_deadline ` set (w_heap w)" by blast
  have "pending w' = {#}" if "\<forall>it \<in> set (w_heap w). item_deadline it \<le> now"
  proof -
    have "it \<notin> set (w_heap w')" for it
    proof
      assume "it \<in> set (w_heap w')"
      then have "item_deadline it \<in> item_deadline ` set (w_heap w)" using w(6) by blast
      then show False using that w(5) \<open>it \<in> set (w_heap w')\<close> by force
    qed
    then have "w_heap w' = []" by (meson last_in_set)
    then show ?thesis using w(4) by (simp add: pending_def cores_def)
  qed
  with w show ?thesis by (auto simp: messages_def)
qed

lemma sample_run_inv:
  "agg_inv 200 (projr (handleMsg sample_config 0 (sample_msg 7) new_worker))"
proof -
  have "agg_config_ok sample_config" "BufferSize sample_config = 200"
    by (simp_all add: agg_config_ok_def sample_config_def HeaderSize_def)
  with handleMsg_inv [of sample_config new_worker 0 "sample_msg 7"] agg_inv_init show ?thesis
    by auto
qed

theorem checkTimeout_sends_witness:
  "\<exists>w. w = projr (handleMsg sample_config 0 (sample_msg 7) new_worker) \<and> agg_inv 200 w
     \<and> (\<forall>it \<in> set (w_heap w). item_deadline it \<le> 50000000)
     \<and> (\<exists>w'. checkTimeout 50000000 w = Inr w' \<and> pending w' = {#} \<and> delivered w' = messages w)"
proof -
  have "\<forall>it \<in> set (w_heap (projr (handleMsg sample_config 0 (sample_msg 7) new_worker))). item_deadline it \<le> 50000000"
    by code_simp
  then show ?thesis
    using checkTimeout_sends [OF sample_run_inv, of 50000000] sample_run_inv
    by (auto simp: HeaderSize_def)
qed

text \<open>C8. Eviction between two timeout checks (no popped item waits to be sent) never panics, removes
  the deadlines of the batches it drops from the heap, and keeps the invariant of the worker.\<close>

theorem evict_keeps_invariant:
  assumes "agg_inv bsz w" "expired w = []"
  shows "\<exists>w'. evictStaleBatches now ks w = Inr w' \<and> agg_inv bsz w' \<and> expired w' = [] \<and> sent w' = sent w"
  using evict_inv [OF assms] by (simp add: evictStaleBatches_def)

theorem evict_keeps_invariant_witness:
  "\<exists>w. w = projr (handleMsg sample_config 0 (sample_msg 7) new_worker) \<and> agg_inv 200 w \<and> expired w = []
     \<and> (\<exists>w'. evictStaleBatches (61 * second) [''r''] w = Inr w' \<and> agg_inv 200 w' \<and> sent w' = sent w)"
proof -
  have "expired (projr (handleMsg sample_config 0 (sample_msg 7) new_worker)) = []" by code_simp
  then show ?thesis
    using evict_keeps_invariant [OF sample_run_inv, of "61 * second" "[''r'']"] sample_run_inv by auto
qed


text \<open>A route that is sent at 60 ms, is idle for almost a minute and takes a message just before the
  age of its batch reaches a minute: of the two messages only the first is ever sent.\<close>

definition late_events :: "agg_event list" where
  "late_events = [Msg 0 (sample_msg 7), Pop (60 * millisecond), Send (60 * millisecond), Msg (60 * second + 40 * millisecond) (sample_msg 8)]"

definition late_worker :: worker where
  "late_worker = projr (go_run (agg_step sample_config) late_events new_worker)"

lemma late_worker_ok: "agg_inv 200 late_worker" "expired late_worker = []"
  "batches late_worker ''r'' = Some [0]"
  "map_option (\<lambda>b. 60 * second + 70 * millisecond - createTime b > 60 * second) (store late_worker 0) = Some True"
  "map (\<lambda>(i, bid, d). bid) (cores late_worker) = [0]"
  "map UserID (map snd (case store late_worker 0 of None \<Rightarrow> [] | Some b \<Rightarrow> map (Pair (RoutingKey b)) (parse_subs (payload (batch_pkt b))))) = [8]"
proof -
  have "list_all (agg_admissible sample_config) late_events"
    by (simp add: late_events_def agg_config_ok_def fits_def sample_config_def sample_msg_def HeaderSize_def)
  from agg.run_inv [OF agg_inv_init this] show "agg_inv 200 late_worker"
    by (auto simp: late_worker_def sample_config_def)
qed code_simp+


text \<open>Eviction between the two halves of a timeout check panics: the batch still points to the
  popped item, whose index is -1, and \<open>heap.Remove\<close> is called with it.\<close>

lemma evict_races_timeout:
  "go_run (agg_step sample_config)
     [Msg 0 (sample_msg 7), Pop (60 * millisecond), Send (60 * millisecond),
      Msg (60 * second + 40 * millisecond) (sample_msg 8), Pop (60 * second + 100 * millisecond),
      Evict (60 * second + 100 * millisecond) [''r'']] new_worker = Inl IndexOutOfRange"
proof -
  have "case go_run (agg_step sample_config)
     [Msg 0 (sample_msg 7), Pop (60 * millisecond), Send (60 * millisecond),
      Msg (60 * second + 40 * millisecond) (sample_msg 8), Pop (60 * second + 100 * millisecond),
      Evict (60 * second + 100 * millisecond) [''r'']] new_worker of Inl e \<Rightarrow> e = IndexOutOfRange | Inr w \<Rightarrow> False"
    by code_simp
  then show ?thesis by (auto split: sum.splits)
qed

end
