(* ===== verification/Disaggregator.thy ===== *)
theory Disaggregator
  imports Go_Machine
begin

text \<open>
  The disaggregator (data-proxy/disaggregator/disaggregator.go): clients that wait for a
  response register a channel under their request identifier; the tunnel handler delivers the
  data of a response to it.

  \<open>Deliver\<close> reads the channel under the lock and sends on it after the lock is released, so it
  is two steps with a delivery in flight between them; a send to a full channel (capacity 1)
  waits, one to a closed channel panics. Channels live in a store under their number, with the
  identifier they were made for; \<open>received\<close> records what was put into the channels and \<open>taken\<close>
  what their clients took out of them.
\<close>

record channel =
  owner :: u32
  queue :: "byte list list"
  is_closed :: bool

record Disaggregator =
  waiters :: "u32 \<rightharpoonup> nat"
  channels :: "nat \<rightharpoonup> channel"
  next_chan :: nat
  in_flight :: "(nat \<times> u32 \<times> byte list) list"
  received :: "(nat \<times> u32 \<times> byte list) list"
  taken :: "(nat \<times> byte list) list"

definition NewDisaggregator :: Disaggregator where
  "NewDisaggregator = \<lparr>waiters = Map.empty, channels = Map.empty, next_chan = 0, in_flight = [], received = [], taken = []\<rparr>"

definition Register :: "u32 \<Rightarrow> Disaggregator \<Rightarrow> nat \<times> Disaggregator" where
  "Register userID d =
     (next_chan d,
      d\<lparr>channels := (channels d)(next_chan d \<mapsto> \<lparr>owner = userID, queue = [], is_closed = False\<rparr>),
        waiters := (waiters d)(userID \<mapsto> next_chan d),
        next_chan := next_chan d + 1\<rparr>)"

text \<open>The function \<open>Register\<close> returns to its caller.\<close>

definition Register_cleanup :: "u32 \<Rightarrow> nat \<Rightarrow> Disaggregator \<Rightarrow> Disaggregator go" where
  "Register_cleanup userID ch d =
     (case channels d ch of
        None \<Rightarrow> Inl NilDereference
      | Some c \<Rightarrow>
          if is_closed c then Inl CloseOfClosed
          else Inr (d\<lparr>waiters := (waiters d)(userID := None),
                      channels := (channels d)(ch \<mapsto> c\<lparr>is_closed := True\<rparr>)\<rparr>))"

text \<open>The first half of \<open>Deliver\<close>: the lookup under the lock.\<close>

definition Deliver_lookup :: "u32 \<Rightarrow> byte list \<Rightarrow> Disaggregator \<Rightarrow> Disaggregator" where
  "Deliver_lookup userID dat d =
     (case waiters d userID of
        None \<Rightarrow> d
      | Some ch \<Rightarrow> d\<lparr>in_flight := in_flight d @ [(ch, userID, dat)]\<rparr>)"

text \<open>The second half of the \<open>i\<close>-th delivery in flight; the state is unchanged while it waits.\<close>

definition Deliver_send :: "nat \<Rightarrow> Disaggregator \<Rightarrow> Disaggregator go" where
  "Deliver_send i d =
     (if i < length (in_flight d)
      then case in_flight d ! i of
             (ch, userID, dat) \<Rightarrow>
               (case channels d ch of
                  None \<Rightarrow> Inl NilDereference
                | Some c \<Rightarrow>
                    if is_closed c then Inl SendOnClosed
                    else if length (queue c) < 1
                    then Inr (d\<lparr>channels := (channels d)(ch \<mapsto> c\<lparr>queue := queue c @ [dat]\<rparr>),
                                in_flight := take i (in_flight d) @ drop (Suc i) (in_flight d),
                                received := received d @ [(ch, userID, dat)]\<rparr>)
                    else Inr d)
      else Inr d)"

text \<open>The waiting client takes a value from its channel.\<close>

definition receive :: "nat \<Rightarrow> Disaggregator \<Rightarrow> byte list option \<times> Disaggregator" where
  "receive ch d =
     (case channels d ch of
        None \<Rightarrow> (None, d)
      | Some c \<Rightarrow>
          (case queue c of
             [] \<Rightarrow> (None, d)
           | x # xs \<Rightarrow> (Some x, d\<lparr>channels := (channels d)(ch \<mapsto> c\<lparr>queue := xs\<rparr>), taken := taken d @ [(ch, x)]\<rparr>)))"

section \<open>Isolation\<close>

datatype dis_event =
    RegisterE u32
  | LookupE u32 "byte list"
  | SendE nat
  | ReceiveE nat
  | CleanupE u32 nat

fun dis_step :: "dis_event \<Rightarrow> Disaggregator \<Rightarrow> Disaggregator go" where
  "dis_step (RegisterE u) d = Inr (snd (Register u d))"
| "dis_step (LookupE u dat) d = Inr (Deliver_lookup u dat d)"
| "dis_step (SendE i) d = Deliver_send i d"
| "dis_step (ReceiveE ch) d = Inr (snd (receive ch d))"
| "dis_step (CleanupE u ch) d = Register_cleanup u ch d"

definition owned_by :: "Disaggregator \<Rightarrow> nat \<Rightarrow> u32 \<Rightarrow> bool" where
  "owned_by d ch u \<longleftrightarrow> (\<exists>c. channels d ch = Some c \<and> owner c = u)"

definition dis_inv :: "Disaggregator \<Rightarrow> bool" where
  "dis_inv d \<longleftrightarrow>
     (\<forall>u ch. waiters d u = Some ch \<longrightarrow> owned_by d ch u)
     \<and> (\<forall>(ch, u, dat) \<in> set (in_flight d). owned_by d ch u)
     \<and> (\<forall>(ch, u, dat) \<in> set (received d). owned_by d ch u)
     \<and> (\<forall>ch. channels d ch \<noteq> None \<longrightarrow> ch < next_chan d)
     \<and> (\<forall>ch c. channels d ch = Some c \<longrightarrow> length (queue c) \<le> 1)"

lemma dis_invI:
  assumes "\<And>u ch. waiters d u = Some ch \<Longrightarrow> owned_by d ch u"
    and "\<And>ch u dat. (ch, u, dat) \<in> set (in_flight d) \<Longrightarrow> owned_by d ch u"
    and "\<And>ch u dat. (ch, u, dat) \<in> set (received d) \<Longrightarrow> owned_by d ch u"
    and "\<And>ch c. channels d ch = Some c \<Longrightarrow> ch < next_chan d \<and> length (queue c) \<le> 1"
  shows "dis_inv d"
  using assms by (auto simp: dis_inv_def)

lemma dis_invD:
  assumes "dis_inv d"
  shows "waiters d u = Some ch \<Longrightarrow> owned_by d ch u"
    and "(ch, u, dat) \<in> set (in_flight d) \<Longrightarrow> owned_by d ch u"
    and "(ch, u, dat) \<in> set (received d) \<Longrightarrow> owned_by d ch u"
    and "channels d ch = Some c \<Longrightarrow> ch < next_chan d \<and> length (queue c) \<le> 1"
  using assms by (auto simp: dis_inv_def)

lemma owned_update:
  "owned_by d ch u \<Longrightarrow> channels d ch' = Some c \<Longrightarrow> owner c' = owner c \<Longrightarrow>
     owned_by (d\<lparr>channels := (channels d)(ch' \<mapsto> c')\<rparr>) ch u"
  by (auto simp: owned_by_def)

lemma owned_frame [simp]:
  "owned_by (d\<lparr>waiters := w\<rparr>) ch u = owned_by d ch u"
  "owned_by (d\<lparr>in_flight := fl\<rparr>) ch u = owned_by d ch u"
  "owned_by (d\<lparr>received := r\<rparr>) ch u = owned_by d ch u"
  "owned_by (d\<lparr>next_chan := n\<rparr>) ch u = owned_by d ch u"
  "owned_by (d\<lparr>taken := t\<rparr>) ch u = owned_by d ch u"
  by (simp_all add: owned_by_def)

lemma register_inv:
  assumes "dis_inv d"
  shows "dis_inv (snd (Register u d))"
proof -
  let ?d = "snd (Register u d)"
  note D = dis_invD [OF assms]
  have own: "owned_by ?d ch v" if "owned_by d ch v" for ch v
    using that D(4) by (fastforce simp: owned_by_def Register_def)
  show ?thesis
  proof (rule dis_invI)
    show "owned_by ?d ch v" if "waiters ?d v = Some ch" for v ch
    proof (cases "v = u")
      case True
      then show ?thesis using that by (auto simp: Register_def owned_by_def)
    next
      case False
      then show ?thesis using that D(1) own by (auto simp: Register_def)
    qed
    show "owned_by ?d ch v" if "(ch, v, dat) \<in> set (in_flight ?d)" for ch v dat
      using that D(2) own by (auto simp: Register_def)
    show "owned_by ?d ch v" if "(ch, v, dat) \<in> set (received ?d)" for ch v dat
      using that D(3) own by (auto simp: Register_def)
    show "ch < next_chan ?d \<and> length (queue c) \<le> 1" if "channels ?d ch = Some c" for ch c
      using that D(4) [of ch c] by (auto simp: Register_def split: if_splits)
  qed
qed

text \<open>Steps that change the content of one channel, its owner kept.\<close>

lemma channel_update_inv:
  assumes "dis_inv d" "channels d ch = Some c" "owner c' = owner c" "length (queue c') \<le> 1"
  shows "dis_inv (d\<lparr>channels := (channels d)(ch \<mapsto> c')\<rparr>)"
proof (rule dis_invI)
  note D = dis_invD [OF assms(1)] and up = owned_update [OF _ assms(2,3)]
  let ?d = "d\<lparr>channels := (channels d)(ch \<mapsto> c')\<rparr>"
  show "owned_by ?d x v" if "waiters ?d v = Some x" for v x using that D(1) up by simp
  show "owned_by ?d x v" if "(x, v, dat) \<in> set (in_flight ?d)" for x v dat using that D(2) up by simp
  show "owned_by ?d x v" if "(x, v, dat) \<in> set (received ?d)" for x v dat using that D(3) up by simp
  show "x < next_chan ?d \<and> length (queue cc) \<le> 1" if "channels ?d x = Some cc" for x cc
    using that D(4) assms by (auto split: if_splits)
qed

lemma Deliver_send_cases:
  assumes "Deliver_send i d = Inr d'" "d' \<noteq> d"
  obtains ch u dat c where "i < length (in_flight d)" "in_flight d ! i = (ch, u, dat)" "channels d ch = Some c"
    "queue c = []" "d' = d\<lparr>channels := (channels d)(ch \<mapsto> c\<lparr>queue := [dat]\<rparr>),
        in_flight := take i (in_flight d) @ drop (Suc i) (in_flight d), received := received d @ [(ch, u, dat)]\<rparr>"
  using assms
  by (cases "in_flight d ! i") (auto simp: Deliver_send_def split: if_splits option.splits)

lemma dis_step_inv:
  assumes "dis_inv d" "dis_step e d = Inr d'"
  shows "dis_inv d'"
proof (cases e)
  case (RegisterE u)
  then show ?thesis using assms register_inv [OF assms(1), of u] by simp
next
  case (LookupE u dat)
  then show ?thesis
    using assms by (auto simp: Deliver_lookup_def dis_inv_def split: option.splits)
next
  case (SendE i)
  note D = dis_invD [OF assms(1)]
  show ?thesis
  proof (cases "d' = d")
    case False
    then obtain ch u dat c where s: "i < length (in_flight d)" "in_flight d ! i = (ch, u, dat)" "channels d ch = Some c"
      "queue c = []" "d' = d\<lparr>channels := (channels d)(ch \<mapsto> c\<lparr>queue := [dat]\<rparr>),
        in_flight := take i (in_flight d) @ drop (Suc i) (in_flight d), received := received d @ [(ch, u, dat)]\<rparr>"
      using assms(2) SendE Deliver_send_cases by (metis dis_step.simps(3))
    have "dis_inv (d\<lparr>channels := (channels d)(ch \<mapsto> c\<lparr>queue := [dat]\<rparr>)\<rparr>)" (is "dis_inv ?e")
      using channel_update_inv [OF assms(1) s(3)] by simp
    moreover have "owned_by ?e ch u"
      using D(2) [of ch u dat] nth_mem [OF s(1)] s(2,3) by (auto intro: owned_update)
    ultimately show ?thesis
      using s(5) by (auto simp: dis_inv_def dest: in_set_takeD in_set_dropD)
  qed (use assms in simp)
next
  case (ReceiveE ch)
  show ?thesis
  proof (cases "d' = d")
    case False
    then obtain c x xs where c: "channels d ch = Some c" "queue c = x # xs"
      "d' = d\<lparr>channels := (channels d)(ch \<mapsto> c\<lparr>queue := xs\<rparr>), taken := taken d @ [(ch, x)]\<rparr>"
      using assms(2) ReceiveE by (auto simp: receive_def split: option.splits list.splits)
    have "dis_inv (d\<lparr>channels := (channels d)(ch \<mapsto> c\<lparr>queue := xs\<rparr>)\<rparr>)"
      using channel_update_inv [OF assms(1) c(1)] dis_invD(4) [OF assms(1) c(1)] c(2) by simp
    then show ?thesis unfolding c(3) dis_inv_def owned_by_def by simp
  qed (use assms in simp)
next
  case (CleanupE u ch)
  then obtain c where c: "channels d ch = Some c"
    "d' = d\<lparr>waiters := (waiters d)(u := None), channels := (channels d)(ch \<mapsto> c\<lparr>is_closed := True\<rparr>)\<rparr>"
    using assms(2) by (auto simp: Register_cleanup_def split: option.splits if_splits)
  have "dis_inv (d\<lparr>channels := (channels d)(ch \<mapsto> c\<lparr>is_closed := True\<rparr>)\<rparr>)"
    using channel_update_inv [OF assms(1) c(1)] dis_invD(4) [OF assms(1) c(1)] by simp
  then show ?thesis unfolding c(2) dis_inv_def owned_by_def by (simp split: if_splits)
qed

text \<open>The invariant is one of the machine that stops at a panic.\<close>

interpretation dis: state_machine "\<lambda>e d. case dis_step e d of Inl p \<Rightarrow> Inr d | Inr d' \<Rightarrow> Inr d'" "\<lambda>e. True" dis_inv
  by unfold_locales (auto split: sum.splits dest: dis_step_inv)

lemma go_run_total:
  "go_run dis_step es d = Inr d' \<Longrightarrow>
     go_run (\<lambda>e d. case dis_step e d of Inl p \<Rightarrow> Inr d | Inr d' \<Rightarrow> Inr d') es d = Inr d'"
  by (induction es arbitrary: d) (auto split: sum.splits)

lemma dis_inv_init: "dis_inv NewDisaggregator"
  by (simp add: dis_inv_def NewDisaggregator_def)

lemma dis_run_inv:
  assumes "go_run dis_step es NewDisaggregator = Inr d"
  shows "dis_inv d"
  using dis.run_inv [OF dis_inv_init, of es] go_run_total [OF assms] by (simp add: list_all_iff)

definition carried :: "Disaggregator \<Rightarrow> (u32 \<times> byte list) set" where
  "carried d = snd ` set (in_flight d) \<union> snd ` set (received d)"

lemma carried_step:
  assumes "dis_step e d = Inr d'"
  shows "carried d' \<subseteq> carried d \<union> {(u, dat). e = LookupE u dat}"
proof (cases e)
  case (SendE i)
  show ?thesis
  proof (cases "d' = d")
    case False
    then obtain ch u dat c where s: "i < length (in_flight d)" "in_flight d ! i = (ch, u, dat)"
      "d' = d\<lparr>channels := (channels d)(ch \<mapsto> c\<lparr>queue := [dat]\<rparr>),
        in_flight := take i (in_flight d) @ drop (Suc i) (in_flight d), received := received d @ [(ch, u, dat)]\<rparr>"
      using assms SendE Deliver_send_cases by (metis dis_step.simps(3))
    have "(u, dat) \<in> snd ` set (in_flight d)" using s(1,2) nth_mem [OF s(1)] by (metis image_eqI snd_conv)
    moreover have "set (take i (in_flight d) @ drop (Suc i) (in_flight d)) \<subseteq> set (in_flight d)"
      by (auto dest: in_set_takeD in_set_dropD)
    ultimately show ?thesis unfolding carried_def s(3) by auto
  qed simp
qed (use assms in \<open>auto simp: carried_def Register_def Deliver_lookup_def receive_def Register_cleanup_def
    split: option.splits list.splits if_splits\<close>)

lemma carried_run:
  "go_run dis_step es d = Inr d' \<Longrightarrow> carried d' \<subseteq> carried d \<union> {(u, dat). LookupE u dat \<in> set es}"
proof (induction es arbitrary: d)
  case (Cons e es)
  then obtain d1 where "dis_step e d = Inr d1" "go_run dis_step es d1 = Inr d'" by (auto split: sum.splits)
  then show ?case using Cons.IH [of d1] carried_step [of e d d1] by auto
qed simp

section \<open>What a client takes\<close>

definition chan_queue :: "Disaggregator \<Rightarrow> nat \<Rightarrow> byte list list" where
  "chan_queue d ch = (case channels d ch of None \<Rightarrow> [] | Some c \<Rightarrow> queue c)"

definition put_into :: "Disaggregator \<Rightarrow> nat \<Rightarrow> byte list list" where
  "put_into d ch = map (\<lambda>(c, u, dat). dat) (filter (\<lambda>(c, u, dat). c = ch) (received d))"

definition taken_from :: "Disaggregator \<Rightarrow> nat \<Rightarrow> byte list list" where
  "taken_from d ch = map snd (filter (\<lambda>(c, dat). c = ch) (taken d))"

text \<open>The deliveries of a run that found a waiting client, with the channel they found.\<close>

fun accepted :: "dis_event list \<Rightarrow> Disaggregator \<Rightarrow> (nat \<times> u32 \<times> byte list) list" where
  "accepted [] d = []"
| "accepted (e # es) d =
     (case e of
        LookupE u dat \<Rightarrow> (case waiters d u of None \<Rightarrow> [] | Some ch \<Rightarrow> [(ch, u, dat)])
      | _ \<Rightarrow> []) @ (case dis_step e d of Inl p \<Rightarrow> [] | Inr d' \<Rightarrow> accepted es d')"

lemma fifo_step:
  assumes "dis_inv d" "put_into d ch = taken_from d ch @ chan_queue d ch" "dis_step e d = Inr d'"
  shows "put_into d' ch = taken_from d' ch @ chan_queue d' ch"
proof (cases e)
  case (RegisterE u)
  have "channels d (next_chan d) = None" using dis_invD(4) [OF assms(1), of "next_chan d"] by (cases "channels d (next_chan d)") auto
  with RegisterE show ?thesis
    using assms(2,3) by (auto simp: Register_def put_into_def taken_from_def chan_queue_def)
next
  case (LookupE u dat)
  then show ?thesis
    using assms(2,3) by (auto simp: Deliver_lookup_def put_into_def taken_from_def chan_queue_def split: option.splits)
next
  case (SendE i)
  show ?thesis
  proof (cases "d' = d")
    case False
    with assms(3) SendE show ?thesis
      using assms(2) by (auto elim!: Deliver_send_cases simp: put_into_def taken_from_def chan_queue_def)
  qed (use assms in simp)
next
  case (ReceiveE x)
  then show ?thesis
    using assms(2,3) by (auto simp: receive_def put_into_def taken_from_def chan_queue_def split: option.splits list.splits)
next
  case (CleanupE u x)
  then show ?thesis
    using assms(2,3) by (auto simp: Register_cleanup_def put_into_def taken_from_def chan_queue_def split: option.splits if_splits)
qed

lemma fifo_run:
  "dis_inv d \<Longrightarrow> put_into d ch = taken_from d ch @ chan_queue d ch \<Longrightarrow> go_run dis_step es d = Inr d' \<Longrightarrow>
     put_into d' ch = taken_from d' ch @ chan_queue d' ch"
proof (induction es arbitrary: d)
  case (Cons e es)
  then obtain d1 where d1: "dis_step e d = Inr d1" "go_run dis_step es d1 = Inr d'" by (auto split: sum.splits)
  show ?case using Cons.IH [OF dis_step_inv [OF Cons.prems(1) d1(1)] fifo_step [OF Cons.prems(1,2) d1(1)] d1(2)] .
qed simp

lemma mset_remove_nth: "i < length xs \<Longrightarrow> mset xs = add_mset (xs ! i) (mset (take i xs @ drop (Suc i) xs))"
  by (subst id_take_nth_drop [of i xs]) auto

lemma accounted_step:
  assumes "dis_step e d = Inr d'"
  shows "mset (in_flight d') + mset (received d') = mset (in_flight d) + mset (received d)
    + mset (case e of LookupE u dat \<Rightarrow> (case waiters d u of None \<Rightarrow> [] | Some ch \<Rightarrow> [(ch, u, dat)]) | _ \<Rightarrow> [])"
proof (cases e)
  case (SendE i)
  show ?thesis
  proof (cases "d' = d")
    case False
    with assms SendE show ?thesis
      using mset_remove_nth [of i "in_flight d"] by (auto elim!: Deliver_send_cases)
  qed (use SendE in simp)
qed (use assms in \<open>auto simp: Register_def Deliver_lookup_def receive_def Register_cleanup_def
    split: option.splits list.splits if_splits\<close>)

lemma accounted_run:
  "go_run dis_step es d = Inr d' \<Longrightarrow>
     mset (in_flight d') + mset (received d') = mset (in_flight d) + mset (received d) + mset (accepted es d)"
proof (induction es arbitrary: d)
  case (Cons e es)
  then obtain d1 where d1: "dis_step e d = Inr d1" "go_run dis_step es d1 = Inr d'" by (auto split: sum.splits)
  show ?case using Cons.IH [OF d1(2)] accounted_step [OF d1(1)] by (simp add: d1(1))
qed simp

text \<open>A delivery in flight whose channel is open and empty is what the client takes next.\<close>

lemma send_then_receive:
  assumes "i < length (in_flight d)" "in_flight d ! i = (ch, u, dat)" "channels d ch = Some c" "\<not> is_closed c" "queue c = []"
  shows "\<exists>d'. dis_step (SendE i) d = Inr d' \<and> fst (receive ch d') = Some dat"
  using assms by (simp add: Deliver_send_def receive_def)

section \<open>Properties\<close>

text \<open>C20. Isolation: whatever the order of registrations, deliveries and cleanups, a channel only ever
  receives data that was delivered under the identifier it was registered for, and it never holds
  more than one value.\<close>

theorem delivery_isolated:
  assumes "go_run dis_step es NewDisaggregator = Inr d" "(ch, u, dat) \<in> set (received d)"
  shows "owned_by d ch u \<and> LookupE u dat \<in> set es \<and> (\<forall>c. channels d ch = Some c \<longrightarrow> length (queue c) \<le> 1)"
proof -
  have "(u, dat) \<in> carried d" using assms(2) by (force simp: carried_def)
  then have "LookupE u dat \<in> set es"
    using carried_run [OF assms(1)] by (auto simp: carried_def NewDisaggregator_def)
  then show ?thesis using dis_invD(3,4) [OF dis_run_inv [OF assms(1)]] assms(2) by blast
qed

theorem delivery_isolated_witness:
  "\<exists>d. go_run dis_step [RegisterE 5, LookupE 5 [1], SendE 0] NewDisaggregator = Inr d
     \<and> (0, 5, [1]) \<in> set (received d) \<and> owned_by d 0 5
     \<and> LookupE 5 [1] \<in> set [RegisterE 5, LookupE 5 [1], SendE 0]"
proof -
  obtain d where d: "go_run dis_step [RegisterE 5, LookupE 5 [1], SendE 0] NewDisaggregator = Inr d"
    "(0, 5, [1]) \<in> set (received d)"
    by (simp add: Register_def Deliver_lookup_def Deliver_send_def NewDisaggregator_def)
  then show ?thesis using delivery_isolated [OF d] by blast
qed

text \<open>C33. Responses reach their clients: whatever the order of registrations, lookups, sends, receives
  and cleanups, as long as nothing panics, the deliveries that found a waiting client are exactly
  those still in flight and those put into the channel that they found, and what the client of a
  channel has taken, followed by what the channel still holds, is what was put into it, in order. A
  delivery in flight can be sent as soon as its channel is open and empty, and the client then takes
  it. A delivery that finds no client is dropped.\<close>

theorem deliver_received:
  assumes "go_run dis_step es NewDisaggregator = Inr d"
  shows "mset (in_flight d) + mset (received d) = mset (accepted es NewDisaggregator)
    \<and> put_into d ch = taken_from d ch @ chan_queue d ch
    \<and> (\<forall>i < length (in_flight d). \<forall>ch u dat c. in_flight d ! i = (ch, u, dat) \<and> channels d ch = Some c
        \<and> \<not> is_closed c \<and> queue c = [] \<longrightarrow> (\<exists>d'. dis_step (SendE i) d = Inr d' \<and> fst (receive ch d') = Some dat))"
proof -
  have "put_into NewDisaggregator ch = taken_from NewDisaggregator ch @ chan_queue NewDisaggregator ch"
    by (simp add: put_into_def taken_from_def chan_queue_def NewDisaggregator_def)
  then have "put_into d ch = taken_from d ch @ chan_queue d ch" by (rule fifo_run [OF dis_inv_init _ assms])
  moreover have "mset (in_flight d) + mset (received d) = mset (accepted es NewDisaggregator)"
    using accounted_run [OF assms] by (simp add: NewDisaggregator_def)
  ultimately show ?thesis using send_then_receive by blast
qed

theorem deliver_received_witness:
  "\<exists>es d. es = [RegisterE 5, LookupE 5 [1], LookupE 5 [2], LookupE 6 [3], SendE 0, ReceiveE 0]
     \<and> go_run dis_step es NewDisaggregator = Inr d
     \<and> mset (in_flight d) + mset (received d) = {#(0, 5, [1]), (0, 5, [2])#}
     \<and> put_into d 0 = taken_from d 0 @ chan_queue d 0 \<and> taken_from d 0 = [[1]]"
proof -
  let ?es = "[RegisterE 5, LookupE 5 [1], LookupE 5 [2], LookupE 6 [3], SendE 0, ReceiveE 0]"
  have a: "accepted ?es NewDisaggregator = [(0, 5, [1]), (0, 5, [2])]"
    by (simp add: Register_def Deliver_lookup_def Deliver_send_def NewDisaggregator_def)
  obtain d where d: "go_run dis_step ?es NewDisaggregator = Inr d" "taken_from d 0 = [[1]]"
    by (simp add: Register_def Deliver_lookup_def Deliver_send_def NewDisaggregator_def receive_def taken_from_def)
  show ?thesis using deliver_received [OF d(1), of 0] d unfolding a by auto
qed

text \<open>The lock does not protect a delivery from the cleanup: when the client gives up between the
  lookup and the send, the send is on a closed channel and the proxy panics.\<close>

lemma deliver_races_cleanup:
  "go_run dis_step [RegisterE u, LookupE u dat, CleanupE u 0, SendE 0] NewDisaggregator = Inl SendOnClosed"
  by (simp add: Register_def Deliver_lookup_def Deliver_send_def Register_cleanup_def NewDisaggregator_def)

end
