(* ===== verification/Tunnel_Manager.thy ===== *)
theory Tunnel_Manager
  imports Tunnel_Packet Proxy_Util
begin

text \<open>
  The QUIC tunnels between proxies (data-proxy/tunnel-manager): the table of outgoing
  connections with \<open>SendPacket\<close>, \<open>GetOrCreateTunnel\<close> and \<open>CloseTunnel\<close>, and the framing of
  an incoming stream in \<open>handleConn\<close>.

  A QUIC connection is a number. What the QUIC library answers is a parameter: \<open>dial\<close> (the
  connection or the error of \<open>quic.Dial\<close>), \<open>opens\<close> (the error, if any, of \<open>OpenUniStreamSync\<close> on a
  connection) and \<open>writes\<close> (what \<open>Write\<close> returns: without an error it has written everything, with one
  it may have written some of the bytes). \<open>closed_conns\<close> and \<open>written\<close> record the effects on
  connections.

  Only the table is under a lock: a sender looks its connection up, opens a stream and writes in
  three steps, between which other senders act. \<open>send_step\<close> interleaves any number of senders. The
  listener, TLS and the accept loop are not modelled.
\<close>

section \<open>The table of tunnels\<close>

record TunnelManager =
  tunnels :: "string \<rightharpoonup> nat"
  closed_conns :: "nat list"
  written :: "(nat \<times> byte list) list"

definition QUIC_PORT :: string where
  "QUIC_PORT = ''4433''"

definition JoinHostPort :: "string \<Rightarrow> string \<Rightarrow> string" where
  "JoinHostPort host port = host @ '':'' @ port"

definition NewTunnelManager :: TunnelManager where
  "NewTunnelManager = \<lparr>tunnels = Map.empty, closed_conns = [], written = []\<rparr>"

definition tunnel_addr :: "u32 \<Rightarrow> string" where
  "tunnel_addr ip = JoinHostPort (ip_string ip) QUIC_PORT"

definition GetOrCreateTunnel :: "u32 \<Rightarrow> nat result \<Rightarrow> TunnelManager \<Rightarrow> nat result \<times> TunnelManager" where
  "GetOrCreateTunnel remoteIP dial m =
     (let addr = JoinHostPort (ip_string remoteIP) QUIC_PORT
      in case tunnels m addr of
           Some conn \<Rightarrow> (Inr conn, m)
         | None \<Rightarrow>
             (case dial of
                Inl err \<Rightarrow> (Inl err, m)
              | Inr conn \<Rightarrow> (Inr conn, m\<lparr>tunnels := (tunnels m)(addr \<mapsto> conn)\<rparr>)))"

definition CloseTunnel :: "u32 \<Rightarrow> TunnelManager \<Rightarrow> TunnelManager" where
  "CloseTunnel remoteIP m =
     (let addr = JoinHostPort (ip_string remoteIP) QUIC_PORT
      in case tunnels m addr of
           Some conn \<Rightarrow> m\<lparr>closed_conns := closed_conns m @ [conn], tunnels := (tunnels m)(addr := None)\<rparr>
         | None \<Rightarrow> m)"

datatype write_result = Wrote | WriteFailed nat string

definition SendPacket_open :: "u32 \<Rightarrow> string option \<Rightarrow> TunnelManager \<Rightarrow> string option \<times> TunnelManager" where
  "SendPacket_open ip opened m =
     (case opened of
        Some err \<Rightarrow> (Some err, CloseTunnel ip m)
      | None \<Rightarrow> (None, m))"

definition SendPacket_write :: "u32 \<Rightarrow> byte list \<Rightarrow> nat \<Rightarrow> write_result \<Rightarrow> TunnelManager \<Rightarrow> string option \<times> TunnelManager" where
  "SendPacket_write ip pkt conn result m =
     (case result of
        WriteFailed n err \<Rightarrow> (Some err, CloseTunnel ip (m\<lparr>written := written m @ [(conn, take n pkt)]\<rparr>))
      | Wrote \<Rightarrow> (None, m\<lparr>written := written m @ [(conn, pkt)]\<rparr>))"

text \<open>A sender that nobody interrupts.\<close>

definition SendPacket :: "net_IP \<Rightarrow> byte list \<Rightarrow> nat result \<Rightarrow> (nat \<Rightarrow> string option) \<Rightarrow> (nat \<Rightarrow> write_result)
    \<Rightarrow> TunnelManager \<Rightarrow> string option \<times> TunnelManager" where
  "SendPacket remoteIP pkt dial opens writes m =
     (case remoteIP of
        None \<Rightarrow> (Some ''remote ip is nil'', m)
      | Some ip \<Rightarrow>
          (case GetOrCreateTunnel ip dial m of
             (Inl err, m) \<Rightarrow> (Some err, m)
           | (Inr conn, m) \<Rightarrow>
               (case SendPacket_open ip (opens conn) m of
                  (Some err, m) \<Rightarrow> (Some err, m)
                | (None, m) \<Rightarrow> SendPacket_write ip pkt conn (writes conn) m)))"

section \<open>Concurrent senders\<close>

text \<open>A sender between its steps: its address, its packet, its connection and whether its stream is
  open. A new connection gets the next number; \<open>dialled\<close> records the address it was dialled for, and
  \<open>returned\<close> how the calls of \<open>SendPacket\<close> have returned.\<close>

record sending =
  snd_ip :: u32
  snd_pkt :: "byte list"
  snd_conn :: nat
  snd_opened :: bool

datatype send_outcome = Sent nat | NoTunnel string | NoStream string | Cut nat nat string

record senders =
  mgr :: TunnelManager
  sends :: "sending list"
  next_conn :: nat
  dialled :: "(nat \<times> string) list"
  returned :: "(u32 \<times> byte list \<times> send_outcome) list"

definition NewSenders :: senders where
  "NewSenders = \<lparr>mgr = NewTunnelManager, sends = [], next_conn = 0, dialled = [], returned = []\<rparr>"

datatype send_event =
    BeginE u32 "byte list" "string option"
  | OpenE nat "string option"
  | WriteE nat write_result

definition finish_send :: "nat \<Rightarrow> TunnelManager \<Rightarrow> send_outcome \<Rightarrow> senders \<Rightarrow> senders" where
  "finish_send i m out st = st\<lparr>mgr := m, sends := take i (sends st) @ drop (Suc i) (sends st),
     returned := returned st @ [(snd_ip (sends st ! i), snd_pkt (sends st ! i), out)]\<rparr>"

fun send_step :: "send_event \<Rightarrow> senders \<Rightarrow> senders" where
  "send_step (BeginE ip pkt failure) st =
     (case GetOrCreateTunnel ip (case failure of Some err \<Rightarrow> Inl err | None \<Rightarrow> Inr (next_conn st)) (mgr st) of
        (Inl err, m) \<Rightarrow> st\<lparr>mgr := m, returned := returned st @ [(ip, pkt, NoTunnel err)]\<rparr>
      | (Inr conn, m) \<Rightarrow>
          let st = st\<lparr>mgr := m, sends := sends st @ [\<lparr>snd_ip = ip, snd_pkt = pkt, snd_conn = conn, snd_opened = False\<rparr>]\<rparr>
          in if conn = next_conn st
             then st\<lparr>next_conn := Suc (next_conn st), dialled := dialled st @ [(conn, tunnel_addr ip)]\<rparr>
             else st)"
| "send_step (OpenE i opened) st =
     (if i < length (sends st) \<and> \<not> snd_opened (sends st ! i)
      then case SendPacket_open (snd_ip (sends st ! i)) opened (mgr st) of
             (Some err, m) \<Rightarrow> finish_send i m (NoStream err) st
           | (None, m) \<Rightarrow> st\<lparr>mgr := m, sends := (sends st)[i := (sends st ! i)\<lparr>snd_opened := True\<rparr>]\<rparr>
      else st)"
| "send_step (WriteE i result) st =
     (if i < length (sends st) \<and> snd_opened (sends st ! i)
      then let s = sends st ! i
           in case SendPacket_write (snd_ip s) (snd_pkt s) (snd_conn s) result (mgr st) of
                (err, m) \<Rightarrow> finish_send i m (case result of Wrote \<Rightarrow> Sent (snd_conn s) | WriteFailed n e \<Rightarrow> Cut (snd_conn s) n e) st
      else st)"

section \<open>Framing of an incoming stream\<close>

text \<open>
  \<open>io.ReadFull\<close> of \<open>n\<close> bytes fails with EOF on an empty stream and with ErrUnexpectedEOF on
  a shorter one; the second read lets ErrUnexpectedEOF pass, so that the missing bytes of the
  payload stay zero. \<open>s\<close> is the content of the stream up to its end.
\<close>

definition read_stream :: "byte list \<Rightarrow> byte list option" where
  "read_stream s =
     (if length s < HeaderSize then None
      else let headerBuf = take HeaderSize s;
               totalLen = HeaderSize + unat (get_u16 (drop 17 headerBuf));
               buf = copy_at (replicate totalLen 0) 0 headerBuf;
               rest = drop HeaderSize s
           in if rest = [] \<and> HeaderSize < totalLen then None
              else Some (copy_at buf HeaderSize rest))"

section \<open>Lemmas\<close>

text \<open>A tunnel is open, belongs to one address and is not closed.\<close>

definition tunnels_ok :: "TunnelManager \<Rightarrow> bool" where
  "tunnels_ok m \<longleftrightarrow> (\<forall>a b c. tunnels m a = Some c \<and> tunnels m b = Some c \<longrightarrow> a = b)
     \<and> (\<forall>a c. tunnels m a = Some c \<longrightarrow> c \<notin> set (closed_conns m))"

text \<open>Every connection is known by the address it was dialled for, and is in the table under it or
  closed; a sender has a connection that was dialled for its address.\<close>

definition senders_ok :: "senders \<Rightarrow> bool" where
  "senders_ok st \<longleftrightarrow> distinct (map fst (dialled st)) \<and> (\<forall>(c, a) \<in> set (dialled st). c < next_conn st)
     \<and> (\<forall>a c. tunnels (mgr st) a = Some c \<longrightarrow> (c, a) \<in> set (dialled st) \<and> c \<notin> set (closed_conns (mgr st)))
     \<and> (\<forall>c \<in> set (closed_conns (mgr st)). c < next_conn st)
     \<and> (\<forall>s \<in> set (sends st). (snd_conn s, tunnel_addr (snd_ip s)) \<in> set (dialled st))"

lemma senders_okI:
  assumes "distinct (map fst (dialled st))" "\<And>c a. (c, a) \<in> set (dialled st) \<Longrightarrow> c < next_conn st"
    and "\<And>a c. tunnels (mgr st) a = Some c \<Longrightarrow> (c, a) \<in> set (dialled st) \<and> c \<notin> set (closed_conns (mgr st))"
    and "\<And>c. c \<in> set (closed_conns (mgr st)) \<Longrightarrow> c < next_conn st"
    and "\<And>s. s \<in> set (sends st) \<Longrightarrow> (snd_conn s, tunnel_addr (snd_ip s)) \<in> set (dialled st)"
  shows "senders_ok st"
  using assms by (auto simp: senders_ok_def)

lemma senders_okD:
  assumes "senders_ok st"
  shows "distinct (map fst (dialled st))" "(c, a) \<in> set (dialled st) \<Longrightarrow> c < next_conn st"
    and "tunnels (mgr st) a = Some c \<Longrightarrow> (c, a) \<in> set (dialled st) \<and> c \<notin> set (closed_conns (mgr st))"
    and "c \<in> set (closed_conns (mgr st)) \<Longrightarrow> c < next_conn st"
    and "s \<in> set (sends st) \<Longrightarrow> (snd_conn s, tunnel_addr (snd_ip s)) \<in> set (dialled st)"
  using assms by (auto simp: senders_ok_def)

lemma senders_tunnels:
  assumes "senders_ok st"
  shows "tunnels_ok (mgr st)"
proof -
  note D = senders_okD [OF assms]
  have "a = b" if "tunnels (mgr st) a = Some c" "tunnels (mgr st) b = Some c" for a b c
    using D(1) D(3) [OF that(1)] D(3) [OF that(2)] eq_key_imp_eq_value by metis
  then show ?thesis using D(3) unfolding tunnels_ok_def by blast
qed

lemma close_tunnel_simps:
  "tunnels (CloseTunnel ip m) a = (if a = tunnel_addr ip then None else tunnels m a)"
  "set (closed_conns (CloseTunnel ip m)) = set (closed_conns m) \<union> set_option (tunnels m (tunnel_addr ip))"
  "written (CloseTunnel ip m) = written m"
  by (auto simp: CloseTunnel_def Let_def tunnel_addr_def split: option.splits)

text \<open>A step that changes the manager at most by closing one tunnel.\<close>

lemma senders_ok_change:
  assumes ok: "senders_ok st" and m: "mgr st' = m \<or> mgr st' = CloseTunnel ip m" "tunnels m = tunnels (mgr st)" "closed_conns m = closed_conns (mgr st)"
    and ss: "\<And>s. s \<in> set (sends st') \<Longrightarrow> \<exists>s' \<in> set (sends st). snd_conn s = snd_conn s' \<and> snd_ip s = snd_ip s'"
    and same: "next_conn st' = next_conn st" "dialled st' = dialled st"
  shows "senders_ok st'"
proof -
  note D = senders_okD [OF ok]
  have inj: "a = b" if "tunnels (mgr st) a = Some c" "tunnels (mgr st) b = Some c" for a b c
    using senders_tunnels [OF ok] that by (auto simp: tunnels_ok_def)
  have t: "(c, a) \<in> set (dialled st) \<and> c \<notin> set (closed_conns (mgr st'))" if "tunnels (mgr st') a = Some c" for a c
    using that m D(3) [of a c] inj [of a c "tunnel_addr ip"] by (auto simp: close_tunnel_simps split: if_splits)
  have "c < next_conn st" if "tunnels (mgr st) a = Some c" for a c using D(2,3) that by blast
  then have "c < next_conn st" if "c \<in> set (closed_conns (mgr st'))" for c
    using that m D(4) by (auto simp: close_tunnel_simps)
  moreover have "(snd_conn s, tunnel_addr (snd_ip s)) \<in> set (dialled st)" if "s \<in> set (sends st')" for s
    using ss [OF that] D(5) by metis
  ultimately show ?thesis using D(1,2) t by (intro senders_okI) (simp_all add: same)
qed

lemma begin_ok:
  assumes "senders_ok st"
  shows "senders_ok (send_step (BeginE ip pkt failure) st)"
proof -
  note D = senders_okD [OF assms]
  have fresh: "c \<noteq> next_conn st" if "tunnels (mgr st) a = Some c" for a c using D(2,3) that by blast
  have "(next_conn st, a) \<notin> set (dialled st)" for a using D(2) by blast
  then have "next_conn st \<notin> set (map fst (dialled st))" "next_conn st \<notin> set (closed_conns (mgr st))"
    using D(4) by fastforce+
  then show ?thesis
    using D fresh by (cases "tunnels (mgr st) (tunnel_addr ip)"; cases failure)
      (auto simp: GetOrCreateTunnel_def tunnel_addr_def [symmetric] Let_def senders_ok_def less_Suc_eq split: if_splits)
qed

lemma finish_sends: "s \<in> set (take i xs @ drop (Suc i) xs) \<Longrightarrow> s \<in> set xs"
  by (auto dest: in_set_takeD in_set_dropD)

lemma finish_ok:
  assumes "senders_ok st" "m' = m \<or> m' = CloseTunnel ip m" "tunnels m = tunnels (mgr st)" "closed_conns m = closed_conns (mgr st)"
  shows "senders_ok (finish_send i m' out st)"
  by (rule senders_ok_change [OF assms(1) _ assms(3,4), of _ ip])
    (use assms(2) finish_sends [of _ i "sends st"] in \<open>auto simp: finish_send_def\<close>)

lemma opened_ok:
  assumes "senders_ok st" "i < length (sends st)"
  shows "senders_ok (st\<lparr>sends := (sends st)[i := (sends st ! i)\<lparr>snd_opened := True\<rparr>]\<rparr>)"
  by (rule senders_ok_change [OF assms(1) _ refl refl])
    (use assms(2) set_update_subset_insert [of "sends st" i] in \<open>fastforce+\<close>)

lemma send_step_ok:
  assumes "senders_ok st"
  shows "senders_ok (send_step e st)"
proof (cases e)
  case (BeginE ip pkt failure)
  then show ?thesis using begin_ok [OF assms] by simp
next
  case (OpenE i opened)
  then show ?thesis
    using assms opened_ok [OF assms, of i] finish_ok [OF assms _ refl refl, of _ "snd_ip (sends st ! i)" i]
    by (auto simp: SendPacket_open_def split: option.splits)
next
  case (WriteE i result)
  have "senders_ok (finish_send i m out st)"
    if "m = (mgr st)\<lparr>written := w\<rparr> \<or> m = CloseTunnel (snd_ip (sends st ! i)) ((mgr st)\<lparr>written := w\<rparr>)" for m w out
    by (rule finish_ok [OF assms that]) simp_all
  with WriteE show ?thesis
    using assms by (auto simp: SendPacket_write_def Let_def split: write_result.splits)
qed

lemma send_run_ok: "senders_ok (fold send_step es NewSenders)"
proof -
  have "senders_ok NewSenders" by (simp add: senders_ok_def NewSenders_def NewTunnelManager_def)
  then show ?thesis by (induction es rule: rev_induct) (simp_all add: send_step_ok)
qed

text \<open>What the calls that have returned have written.\<close>

fun wrote :: "u32 \<times> byte list \<times> send_outcome \<Rightarrow> (nat \<times> byte list) option" where
  "wrote (ip, pkt, Sent c) = Some (c, pkt)"
| "wrote (ip, pkt, Cut c n err) = Some (c, take n pkt)"
| "wrote r = None"

fun outcome_conn :: "send_outcome \<Rightarrow> nat option" where
  "outcome_conn (Sent c) = Some c"
| "outcome_conn (Cut c n err) = Some c"
| "outcome_conn r = None"

text \<open>What one step returns.\<close>

definition returns_ok :: "senders \<Rightarrow> u32 \<times> byte list \<times> send_outcome \<Rightarrow> bool" where
  "returns_ok st r \<longleftrightarrow> (case r of (ip, pkt, out) \<Rightarrow> \<forall>c. outcome_conn out = Some c \<longrightarrow> (c, tunnel_addr ip) \<in> set (dialled st))"

definition failed_closed :: "senders \<Rightarrow> u32 \<times> byte list \<times> send_outcome \<Rightarrow> bool" where
  "failed_closed st r \<longleftrightarrow> (case r of (ip, pkt, out) \<Rightarrow> (\<forall>c. out \<noteq> Sent c) \<longrightarrow> tunnels (mgr st) (tunnel_addr ip) = None)"

definition step_returns :: "senders \<Rightarrow> senders \<Rightarrow> (u32 \<times> byte list \<times> send_outcome) list \<Rightarrow> bool" where
  "step_returns st st' rs \<longleftrightarrow> returned st' = returned st @ rs \<and> written (mgr st') = written (mgr st) @ List.map_filter wrote rs
     \<and> set (dialled st) \<subseteq> set (dialled st') \<and> list_all (returns_ok st') rs \<and> list_all (failed_closed st') rs"

lemma finish_returns:
  assumes "wrote (snd_ip (sends st ! i), snd_pkt (sends st ! i), out) = Some w \<and> written m = written (mgr st) @ [w]
      \<or> wrote (snd_ip (sends st ! i), snd_pkt (sends st ! i), out) = None \<and> written m = written (mgr st)"
    and "\<And>c. outcome_conn out = Some c \<Longrightarrow> (c, tunnel_addr (snd_ip (sends st ! i))) \<in> set (dialled st)"
    and "(\<forall>c. out \<noteq> Sent c) \<Longrightarrow> tunnels m (tunnel_addr (snd_ip (sends st ! i))) = None"
  shows "step_returns st (finish_send i m out st) [(snd_ip (sends st ! i), snd_pkt (sends st ! i), out)]"
  using assms by (cases w) (auto simp: step_returns_def finish_send_def returns_ok_def failed_closed_def List.map_filter_def)

lemma stays_returns: "returned st' = returned st \<Longrightarrow> written (mgr st') = written (mgr st) \<Longrightarrow> set (dialled st) \<subseteq> set (dialled st') \<Longrightarrow>
    step_returns st st' []"
  by (simp add: step_returns_def List.map_filter_def)

lemma begin_returns: "\<exists>rs. step_returns st (send_step (BeginE ip pkt failure) st) rs"
proof (cases "tunnels (mgr st) (tunnel_addr ip)")
  case (Some c)
  then have "step_returns st (send_step (BeginE ip pkt failure) st) []"
    by (intro stays_returns) (auto simp: GetOrCreateTunnel_def tunnel_addr_def Let_def)
  then show ?thesis ..
next
  case None
  show ?thesis
  proof (cases failure)
    case (Some err)
    with None have "step_returns st (send_step (BeginE ip pkt failure) st) [(ip, pkt, NoTunnel err)]"
      by (simp add: GetOrCreateTunnel_def tunnel_addr_def Let_def step_returns_def returns_ok_def failed_closed_def List.map_filter_def)
    then show ?thesis ..
  next
    case fine: None
    with None have "step_returns st (send_step (BeginE ip pkt failure) st) []"
      by (intro stays_returns) (auto simp: GetOrCreateTunnel_def tunnel_addr_def Let_def)
    then show ?thesis ..
  qed
qed

lemma open_returns: "\<exists>rs. step_returns st (send_step (OpenE i opened) st) rs"
proof (cases "i < length (sends st) \<and> \<not> snd_opened (sends st ! i) \<and> opened \<noteq> None")
  case True
  then obtain err where err: "opened = Some err" by blast
  let ?ip = "snd_ip (sends st ! i)"
  have "step_returns st (finish_send i (CloseTunnel ?ip (mgr st)) (NoStream err) st) [(?ip, snd_pkt (sends st ! i), NoStream err)]"
    by (rule finish_returns) (simp_all add: close_tunnel_simps)
  with True err show ?thesis by (auto simp: SendPacket_open_def)
next
  case False
  then have "step_returns st (send_step (OpenE i opened) st) []" by (intro stays_returns) (auto simp: SendPacket_open_def)
  then show ?thesis ..
qed

lemma write_returns:
  assumes "senders_ok st"
  shows "\<exists>rs. step_returns st (send_step (WriteE i result) st) rs"
proof (cases "i < length (sends st) \<and> snd_opened (sends st ! i)")
  case True
  let ?ip = "snd_ip (sends st ! i)" and ?pkt = "snd_pkt (sends st ! i)" and ?c = "snd_conn (sends st ! i)"
  have own: "(?c, tunnel_addr ?ip) \<in> set (dialled st)" using senders_okD(5) [OF assms] True by simp
  show ?thesis
  proof (cases result)
    case Wrote
    have "step_returns st (finish_send i ((mgr st)\<lparr>written := written (mgr st) @ [(?c, ?pkt)]\<rparr>) (Sent ?c) st) [(?ip, ?pkt, Sent ?c)]"
      by (rule finish_returns) (use own in simp_all)
    with True Wrote show ?thesis by (auto simp: SendPacket_write_def Let_def)
  next
    case (WriteFailed n err)
    have "step_returns st (finish_send i (CloseTunnel ?ip ((mgr st)\<lparr>written := written (mgr st) @ [(?c, take n ?pkt)]\<rparr>)) (Cut ?c n err) st)
        [(?ip, ?pkt, Cut ?c n err)]"
      by (rule finish_returns) (use own in \<open>simp_all add: close_tunnel_simps\<close>)
    with True WriteFailed show ?thesis by (auto simp: SendPacket_write_def Let_def)
  qed
next
  case False
  then have "step_returns st (send_step (WriteE i result) st) []" by (intro stays_returns) auto
  then show ?thesis ..
qed

lemma send_step_returns: "senders_ok st \<Longrightarrow> \<exists>rs. step_returns st (send_step e st) rs"
  by (cases e) (use begin_returns open_returns write_returns in blast)+

text \<open>A sender whose steps follow one another is \<open>SendPacket\<close>.\<close>

lemma SendPacket_steps:
  assumes "sends st = []" "snd (SendPacket (Some ip) pkt (case failure of Some err \<Rightarrow> Inl err | None \<Rightarrow> Inr (next_conn st)) opens writes (mgr st)) = m"
    and "conn = (case tunnels (mgr st) (tunnel_addr ip) of Some c \<Rightarrow> c | None \<Rightarrow> next_conn st)"
  shows "mgr (fold send_step [BeginE ip pkt failure, OpenE 0 (opens conn), WriteE 0 (writes conn)] st) = m"
  using assms
  by (cases "tunnels (mgr st) (tunnel_addr ip)"; cases failure; cases "opens conn"; cases "writes conn")
    (auto simp: SendPacket_def GetOrCreateTunnel_def tunnel_addr_def Let_def SendPacket_open_def SendPacket_write_def finish_send_def)

lemma send_run_returns:
  "written (mgr (fold send_step es NewSenders)) = List.map_filter wrote (returned (fold send_step es NewSenders))
   \<and> list_all (returns_ok (fold send_step es NewSenders)) (returned (fold send_step es NewSenders))"
proof (induction es rule: rev_induct)
  case (snoc e es)
  let ?st = "fold send_step es NewSenders"
  obtain rs where rs: "step_returns ?st (send_step e ?st) rs" using send_step_returns [OF send_run_ok] by blast
  moreover have "returns_ok (send_step e ?st) r" if "returns_ok ?st r" for r
    using that rs by (auto simp: returns_ok_def step_returns_def)
  ultimately show ?case using snoc by (auto simp: step_returns_def List.map_filter_def list_all_iff)
qed (simp add: NewSenders_def NewTunnelManager_def List.map_filter_def)

section \<open>Properties\<close>


definition sample_sends :: "send_event list" where
  "sample_sends = [BeginE 1 [1, 2] None, BeginE 1 [3, 4] None, OpenE 0 None, OpenE 1 None, WriteE 0 Wrote, WriteE 0 (WriteFailed 1 ''reset'')]"

lemma sample_returned: "returned (fold send_step sample_sends NewSenders) = [(1, [1, 2], Sent 0), (1, [3, 4], Cut 0 1 ''reset'')]"
  by (simp add: sample_sends_def NewSenders_def NewTunnelManager_def GetOrCreateTunnel_def Let_def SendPacket_open_def
      SendPacket_write_def finish_send_def CloseTunnel_def)


text \<open>A sender that fails closes whatever tunnel its address has: when another sender has dialled again
  in the meantime, it is the new connection that is closed.\<close>

lemma failure_closes_newer:
  "(let st = fold send_step [BeginE 1 [1] None, BeginE 1 [2] None, OpenE 0 (Some ''reset''), BeginE 1 [3] None,
        OpenE 1 None, OpenE 0 (Some ''reset'')] NewSenders
    in map snd_conn (sends st) = [1] \<and> closed_conns (mgr st) = [0, 1])"
  by (simp add: NewSenders_def NewTunnelManager_def GetOrCreateTunnel_def Let_def SendPacket_open_def finish_send_def CloseTunnel_def)

text \<open>Framing: the stream that carries the bytes of a serialised packet is read back as exactly
  these bytes.\<close>

lemma read_stream_wire:
  assumes "HeaderSize \<le> length s" "length s = HeaderSize + unat (get_u16 (drop 17 s))"
  shows "read_stream s = Some s"
proof -
  have "take 2 (drop 17 (take HeaderSize s)) = take 2 (drop 17 s)" by (simp add: drop_take HeaderSize_def)
  then have "get_u16 (drop 17 (take HeaderSize s)) = get_u16 (drop 17 s)"
    using assms(1) be16.get_take [of "drop 17 s"] be16.get_take [of "drop 17 (take HeaderSize s)"]
    by (simp add: HeaderSize_def)
  then have t: "HeaderSize + unat (get_u16 (drop 17 (take HeaderSize s))) = length s" using assms(2) by simp
  have "copy_at (copy_at (replicate (length s) 0) 0 (take HeaderSize s)) HeaderSize (drop HeaderSize s) = s"
    using assms(1) by (simp add: copy_at_fits)
  then show ?thesis using assms(1) unfolding read_stream_def Let_def t by simp
qed

lemma read_stream_wire_witness:
  "HeaderSize \<le> length (replicate 24 (0 :: byte))
   \<and> length (replicate 24 (0 :: byte)) = HeaderSize + unat (get_u16 (drop 17 (replicate 24 0)))
   \<and> read_stream (replicate 24 0) = Some (replicate 24 0)"
proof -
  have "HeaderSize \<le> length (replicate 24 (0 :: byte))" by (simp add: HeaderSize_def)
  moreover have "length (replicate 24 (0 :: byte)) = HeaderSize + unat (get_u16 (drop 17 (replicate 24 0)))"
    by code_simp
  ultimately show ?thesis using read_stream_wire [of "replicate 24 0"] by blast
qed

end
