(* ===== verification/Backsourcer.thy ===== *)
theory Backsourcer
  imports Aggregator Tunnel_Manager
begin

text \<open>
  The back-sourcer (data-proxy/backsourcer): the request to the origin server and the message
  that takes its response back along the reversed route (\<open>doOriginRequest\<close>), and the pool of
  idle TCP connections (tcp_pool.go).

  The origin is a parameter: \<open>DoRequest\<close> maps an address and a request to a response or an
  error, as the \<open>OriginProtocol\<close> interface does. A TCP connection of the pool is a number;
  \<open>closed_tcp\<close> records the connections the pool has closed. The two readings of the clock that follow
  one another in \<open>Put\<close> are taken as one instant, and so are those of the loop in \<open>Get\<close>.
\<close>

section \<open>Requests to the origin\<close>

record BackSourceTask =
  task_HopIP :: "u32 list"
  task_Port :: u16
  task_UserID :: u32
  task_OriginAddr :: string
  task_ReqData :: "byte list"

text \<open>
  The loop from the last hop to the first over the addresses that are set, and the cut of the
  first entry, which is the origin.
\<close>

definition reversed_hops :: "u32 list \<Rightarrow> net_IP list" where
  "reversed_hops hopIP = map Uint32ToIP (filter (\<lambda>h. h \<noteq> 0) (rev hopIP))"

definition response_hops :: "u32 list \<Rightarrow> net_IP list" where
  "response_hops hopIP =
     (let hops = reversed_hops hopIP in if length hops > 1 then tl hops else hops)"

definition doOriginRequest :: "(string \<Rightarrow> byte list \<Rightarrow> byte list result) \<Rightarrow> BackSourceTask
    \<Rightarrow> aggregatorMsg option go" where
  "doOriginRequest DoRequest task =
     (case DoRequest (task_OriginAddr task) (task_ReqData task) of
        Inl err \<Rightarrow> Inr None
      | Inr resp \<Rightarrow>
          if resp = [] then Inr None
          else
            let hops = response_hops (task_HopIP task);
                hopStrs = map IP_String hops;
                routingKey = strings_join '','' hopStrs
            in if length hops < 2 then Inl IndexOutOfRange
               else Inr (Some
                 \<lparr>msg_emerge = False, msg_routingKey = routingKey, msg_protocol = '''', msg_port = 0,
                  msg_routingInfo = \<lparr>Hops = hopStrs, Rtt = 0, RawRTT = 0\<rparr>, msg_nextHop = hops ! 1,
                  msg_userID = task_UserID task, msg_data = resp\<rparr>))"

section \<open>The connection pool\<close>

record pooledConn =
  pc_conn :: nat
  created :: time
  lastUsed :: time

record TCPConnPool =
  pools :: "string \<rightharpoonup> pooledConn list"
  maxIdle :: nat
  maxLifetime :: duration
  closed_tcp :: "nat list"

definition NewTCPConnPool :: "nat \<Rightarrow> duration \<Rightarrow> TCPConnPool" where
  "NewTCPConnPool idle lifetime =
     \<lparr>pools = Map.empty, maxIdle = idle, maxLifetime = lifetime, closed_tcp = []\<rparr>"

definition conn_expired :: "duration \<Rightarrow> time \<Rightarrow> pooledConn \<Rightarrow> bool" where
  "conn_expired maxLife now pc \<longleftrightarrow> now - lastUsed pc > maxLife \<or> now - created pc > maxLife * 2"

text \<open>One list of \<open>cleanup\<close>: what stays, and the closed connections in order.\<close>

definition cleanup_list :: "duration \<Rightarrow> time \<Rightarrow> pooledConn list \<Rightarrow> pooledConn list \<times> nat list" where
  "cleanup_list maxLife now lst =
     (filter (\<lambda>pc. \<not> conn_expired maxLife now pc) lst,
      map pc_conn (filter (conn_expired maxLife now) lst))"

fun cleanup :: "time \<Rightarrow> string list \<Rightarrow> TCPConnPool \<Rightarrow> TCPConnPool" where
  "cleanup now [] p = p"
| "cleanup now (addr # addrs) p =
     (case pools p addr of
        None \<Rightarrow> cleanup now addrs p
      | Some lst \<Rightarrow>
          (case cleanup_list (maxLifetime p) now lst of
             (keep, cs) \<Rightarrow>
               cleanup now addrs (p\<lparr>pools := (pools p)(addr := if keep = [] then None else Some keep),
                                    closed_tcp := closed_tcp p @ cs\<rparr>)))"

text \<open>The loop of \<open>Get\<close>: idle connections from the front, the expired ones closed on the way.\<close>

fun take_conn :: "duration \<Rightarrow> time \<Rightarrow> pooledConn list \<Rightarrow> nat option \<times> pooledConn list \<times> nat list" where
  "take_conn maxLife now [] = (None, [], [])"
| "take_conn maxLife now (pc # lst) =
     (if now - lastUsed pc > maxLife
      then case take_conn maxLife now lst of (r, lst', cs) \<Rightarrow> (r, lst', pc_conn pc # cs)
      else (Some (pc_conn pc), lst, []))"

definition Get :: "string \<Rightarrow> time \<Rightarrow> nat result \<Rightarrow> TCPConnPool \<Rightarrow> nat result \<times> TCPConnPool" where
  "Get addr now dial p =
     (let lst = map_get [] (pools p) addr
      in case take_conn (maxLifetime p) now lst of
           (r, lst', cs) \<Rightarrow>
             (case r of Some c \<Rightarrow> Inr c | None \<Rightarrow> dial,
              p\<lparr>pools := (pools p)(addr \<mapsto> lst'), closed_tcp := closed_tcp p @ cs\<rparr>))"

definition Put :: "string \<Rightarrow> nat option \<Rightarrow> bool \<Rightarrow> time \<Rightarrow> TCPConnPool \<Rightarrow> TCPConnPool" where
  "Put addr conn healthy now p =
     (case conn of
        None \<Rightarrow> p
      | Some c \<Rightarrow>
          (case pools p addr of
             None \<Rightarrow> p\<lparr>closed_tcp := closed_tcp p @ [c]\<rparr>
           | Some lst \<Rightarrow>
               if \<not> healthy \<or> maxIdle p \<le> length lst then p\<lparr>closed_tcp := closed_tcp p @ [c]\<rparr>
               else p\<lparr>pools := (pools p)(addr \<mapsto> \<lparr>pc_conn = c, created = now, lastUsed = now\<rparr> # lst)\<rparr>))"

definition Close_pool :: "string list \<Rightarrow> TCPConnPool \<Rightarrow> TCPConnPool" where
  "Close_pool addrs p =
     p\<lparr>closed_tcp := closed_tcp p @ concat (map (\<lambda>a. map pc_conn (map_get [] (pools p) a)) addrs),
       pools := Map.empty\<rparr>"

text \<open>
  \<open>TCPProtocolWithPool.DoRequest\<close>: \<open>io c\<close> is what writing the request to the connection and
  reading a line from it answers.
\<close>

definition DoRequest_pooled :: "string \<Rightarrow> time \<Rightarrow> nat result \<Rightarrow> (nat \<Rightarrow> byte list result) \<Rightarrow> time
    \<Rightarrow> TCPConnPool \<Rightarrow> byte list result \<times> TCPConnPool" where
  "DoRequest_pooled addr now dial io later p =
     (case Get addr now dial p of
        (Inl err, p) \<Rightarrow> (Inl err, p)
      | (Inr c, p) \<Rightarrow>
          (case io c of
             Inl err \<Rightarrow> (Inl err, Put addr (Some c) False later p)
           | Inr line \<Rightarrow> (Inr line, Put addr (Some c) True later p)))"

section \<open>The invariant of the pool\<close>

definition idle :: "TCPConnPool \<Rightarrow> string \<Rightarrow> pooledConn list" where
  "idle p a = map_get [] (pools p) a"

definition conns :: "TCPConnPool \<Rightarrow> string \<Rightarrow> nat list" where
  "conns p a = map pc_conn (idle p a)"

text \<open>
  Idle connections are open, belong to one address and are kept once; there are at most
  \<open>maxIdle\<close> of an address.
\<close>

definition pool_ok :: "TCPConnPool \<Rightarrow> bool" where
  "pool_ok p \<longleftrightarrow>
     (\<forall>a. distinct (conns p a) \<and> length (conns p a) \<le> maxIdle p
        \<and> set (conns p a) \<inter> set (closed_tcp p) = {}
        \<and> (\<forall>pc \<in> set (idle p a). created pc = lastUsed pc))
     \<and> (\<forall>a b. a \<noteq> b \<longrightarrow> set (conns p a) \<inter> set (conns p b) = {})"

definition in_pool :: "TCPConnPool \<Rightarrow> nat \<Rightarrow> bool" where
  "in_pool p c \<longleftrightarrow> (\<exists>a. c \<in> set (conns p a))"

lemma idle_update [simp]:
  "idle (p\<lparr>pools := m(a \<mapsto> l), closed_tcp := cl\<rparr>) b = (if b = a then l else map_get [] m b)"
  "idle (p\<lparr>pools := m(a \<mapsto> l)\<rparr>) b = (if b = a then l else map_get [] m b)"
  "idle (p\<lparr>closed_tcp := cl\<rparr>) b = idle p b"
  by (simp_all add: idle_def)

text \<open>Replacing the list of one address: the new one is part of the old, or has one new connection.\<close>

lemma pool_ok_shrink:
  assumes ok: "pool_ok p" and l: "mset (conns p a) = mset (cs @ r @ map pc_conn l)" "set l \<subseteq> set (idle p a)"
    and p': "\<And>b. idle p' b = (if b = a then l else idle p b)" "closed_tcp p' = closed_tcp p @ cs"
      "maxIdle p' = maxIdle p"
  shows "pool_ok p'" "\<forall>c \<in> set r. \<not> in_pool p' c \<and> c \<notin> set (closed_tcp p')"
proof -
  have d: "distinct (cs @ r @ map pc_conn l)"
    using ok mset_eq_imp_distinct_iff [OF l(1)] by (simp add: pool_ok_def)
  have old: "distinct (conns p b)" "length (conns p b) \<le> maxIdle p" "set (conns p b) \<inter> set (closed_tcp p) = {}"
    "\<forall>pc \<in> set (idle p b). created pc = lastUsed pc" "b \<noteq> c \<Longrightarrow> set (conns p b) \<inter> set (conns p c) = {}" for b c
    using ok by (auto simp: pool_ok_def)
  have a: "set (conns p a) = set cs \<union> set r \<union> pc_conn ` set l" "length (map pc_conn l) \<le> length (conns p a)"
    using arg_cong [OF l(1), of set_mset] arg_cong [OF l(1), of size] by auto
  have b: "conns p' b = (if b = a then map pc_conn l else conns p b)" for b
    by (simp add: conns_def p'(1))
  show "pool_ok p'"
    unfolding pool_ok_def
  proof (intro conjI allI impI)
    fix b
    show "distinct (conns p' b)" using old(1) d by (simp add: b)
    show "length (conns p' b) \<le> maxIdle p'" using old(2) [of a] old(2) [of b] a(2) by (simp add: b p'(3))
    show "set (conns p' b) \<inter> set (closed_tcp p') = {}"
      using old(3) [of b] old(3) [of a] old(5) [of b a] a(1) d by (auto simp: b p'(2))
    show "\<forall>pc \<in> set (idle p' b). created pc = lastUsed pc" using old(4) l(2) by (auto simp: p'(1))
  next
    fix b c :: string assume "b \<noteq> c"
    then show "set (conns p' b) \<inter> set (conns p' c) = {}"
      using old(5) [of b c] a(1) by (auto simp: b)
  qed
  show "\<forall>c \<in> set r. \<not> in_pool p' c \<and> c \<notin> set (closed_tcp p')"
    using d a(1) old(3) [of a] old(5) [of a] by (fastforce simp: in_pool_def b p'(2) split: if_splits)
qed

lemma take_conn_spec:
  "take_conn L now lst = (r, lst', cs) \<Longrightarrow>
     map pc_conn lst = cs @ (case r of None \<Rightarrow> [] | Some c \<Rightarrow> [c]) @ map pc_conn lst' \<and> set lst' \<subseteq> set lst
     \<and> (r = None \<longrightarrow> (\<forall>pc \<in> set lst. now - lastUsed pc > L))
     \<and> (\<forall>c. r = Some c \<longrightarrow> (\<exists>pc \<in> set lst. pc_conn pc = c \<and> now - lastUsed pc \<le> L))"
  by (induction L now lst arbitrary: r lst' cs rule: take_conn.induct) (auto split: if_splits prod.splits)

lemma Get_spec:
  assumes "pool_ok p" "Get addr now dial p = (res, p')"
  shows "pool_ok p' \<and> pools p' addr \<noteq> None \<and>
    ((\<exists>c. res = Inr c \<and> \<not> in_pool p' c \<and> c \<notin> set (closed_tcp p')
        \<and> (\<exists>pc \<in> set (idle p addr). pc_conn pc = c \<and> now - lastUsed pc \<le> maxLifetime p))
     \<or> res = dial \<and> (\<forall>pc \<in> set (idle p addr). now - lastUsed pc > maxLifetime p))
    \<and> (\<forall>c. in_pool p' c \<or> c \<in> set (closed_tcp p') \<longrightarrow> in_pool p c \<or> c \<in> set (closed_tcp p))"
proof -
  obtain r lst cs where t: "take_conn (maxLifetime p) now (idle p addr) = (r, lst, cs)" by (metis prod_cases3)
  note sp = take_conn_spec [OF t]
  have p': "p' = p\<lparr>pools := (pools p)(addr \<mapsto> lst), closed_tcp := closed_tcp p @ cs\<rparr>"
    "res = (case r of Some c \<Rightarrow> Inr c | None \<Rightarrow> dial)"
    using assms(2) t by (auto simp: Get_def Let_def idle_def)
  have up: "idle p' b = (if b = addr then lst else idle p b)" "closed_tcp p' = closed_tcp p @ cs"
    "maxIdle p' = maxIdle p" for b
    by (simp_all add: p' idle_def)
  have ms: "mset (conns p addr) = mset (cs @ (case r of None \<Rightarrow> [] | Some c \<Rightarrow> [c]) @ map pc_conn lst)"
    using sp unfolding conns_def by simp
  note sh = pool_ok_shrink [OF assms(1) ms _ up]
  have sub: "set cs \<union> pc_conn ` set lst \<subseteq> set (conns p addr)"
    using sp by (auto simp: conns_def dest: arg_cong [of _ _ set])
  have "set (conns p' b) \<subseteq> set (conns p b)" for b using sub by (auto simp: conns_def up)
  moreover have "set (closed_tcp p') \<subseteq> set (closed_tcp p) \<union> set (conns p addr)" using sub up(2) by auto
  ultimately have "in_pool p' c \<or> c \<in> set (closed_tcp p') \<Longrightarrow> in_pool p c \<or> c \<in> set (closed_tcp p)" for c
    unfolding in_pool_def by blast
  moreover have "pool_ok p'" using sh(1) sp by blast
  moreover have "\<forall>c. r = Some c \<longrightarrow> \<not> in_pool p' c \<and> c \<notin> set (closed_tcp p')" using sh(2) sp by auto
  ultimately show ?thesis using sp p'(2) by (cases r) (auto simp: p'(1))
qed

lemma Put_spec:
  assumes "pool_ok p" "\<not> in_pool p c" "c \<notin> set (closed_tcp p)"
  shows "pool_ok (Put addr (Some c) healthy now p) \<and>
    (in_pool (Put addr (Some c) healthy now p) c \<or> c \<in> set (closed_tcp (Put addr (Some c) healthy now p)))"
proof (cases "pools p addr \<noteq> None \<and> healthy \<and> length (idle p addr) < maxIdle p")
  case True
  then have P: "Put addr (Some c) healthy now p
      = p\<lparr>pools := (pools p)(addr \<mapsto> \<lparr>pc_conn = c, created = now, lastUsed = now\<rparr> # idle p addr)\<rparr>" (is "_ = ?p")
    by (auto simp: Put_def idle_def)
  have id: "idle ?p b = (if b = addr then \<lparr>pc_conn = c, created = now, lastUsed = now\<rparr> # idle p addr else idle p b)" for b
    by (simp add: idle_def)
  then have cn: "conns ?p b = (if b = addr then c # conns p addr else conns p b)" for b by (simp add: conns_def)
  have "pool_ok ?p"
    using assms True unfolding pool_ok_def cn id in_pool_def by (auto simp: conns_def)
  moreover have "in_pool ?p c" unfolding in_pool_def cn by (intro exI [of _ addr]) simp
  ultimately show ?thesis unfolding P by blast
next
  case False
  then have "Put addr (Some c) healthy now p = p\<lparr>closed_tcp := closed_tcp p @ [c]\<rparr>"
    by (auto simp: Put_def idle_def split: option.splits)
  moreover have "pool_ok (p\<lparr>closed_tcp := closed_tcp p @ [c]\<rparr>)"
    using assms unfolding pool_ok_def in_pool_def by (auto simp: conns_def)
  ultimately show ?thesis by simp
qed

lemma cleanup_one_idle:
  "idle (p\<lparr>pools := (pools p)(a := if keep = [] then None else Some keep), closed_tcp := cl\<rparr>) b
     = (if b = a then keep else idle p b)"
  by (auto simp: idle_def map_get_def)

lemma pool_ok_cleanup: "pool_ok p \<Longrightarrow> pool_ok (cleanup now addrs p)"
proof (induction now addrs p rule: cleanup.induct)
  case (2 now addr addrs p)
  show ?case
  proof (cases "pools p addr")
    case (Some lst)
    let ?keep = "filter (\<lambda>pc. \<not> conn_expired (maxLifetime p) now pc) lst"
    let ?out = "filter (conn_expired (maxLifetime p) now) lst"
    let ?p = "p\<lparr>pools := (pools p)(addr := if ?keep = [] then None else Some ?keep),
        closed_tcp := closed_tcp p @ map pc_conn ?out\<rparr>"
    have id: "idle ?p b = (if b = addr then ?keep else idle p b)" for b by (rule cleanup_one_idle)
    have "mset (conns p addr) = mset (map pc_conn ?out @ [] @ map pc_conn ?keep)"
      using Some by (simp add: conns_def idle_def image_mset_union [symmetric])
    then have "pool_ok ?p"
      using Some by (intro pool_ok_shrink(1) [OF "2.prems" _ _ id]) (auto simp: idle_def)
    with 2 Some show ?thesis by (simp add: cleanup_list_def)
  qed (use 2 in simp)
qed simp

lemma cleanup_maxLifetime [simp]: "maxLifetime (cleanup now addrs p) = maxLifetime p"
  by (induction now addrs p rule: cleanup.induct) (auto split: option.splits prod.splits)

lemma cleanup_idle:
  "distinct addrs \<Longrightarrow> idle (cleanup now addrs p) a =
     (if a \<in> set addrs then filter (\<lambda>pc. \<not> conn_expired (maxLifetime p) now pc) (idle p a) else idle p a)"
proof (induction now addrs p rule: cleanup.induct)
  case (2 now addr addrs p)
  then show ?case
    by (cases "pools p addr") (auto simp: cleanup_list_def cleanup_one_idle, auto simp: idle_def map_get_def)
qed simp

section \<open>Properties\<close>

text \<open>The idle connections that may be used again, and a dialled connection the pool has not seen.\<close>

definition usable :: "TCPConnPool \<Rightarrow> string \<Rightarrow> time \<Rightarrow> pooledConn list" where
  "usable p a now = filter (\<lambda>pc. now - lastUsed pc \<le> maxLifetime p) (idle p a)"

definition new_conn :: "nat result \<Rightarrow> TCPConnPool \<Rightarrow> bool" where
  "new_conn dial p = (case dial of Inl err \<Rightarrow> True | Inr c \<Rightarrow> \<not> in_pool p c \<and> c \<notin> set (closed_tcp p))"

text \<open>C21. A pooled request leaks no connection: on a sound pool, with a dialled connection that is
  new, a request leaves a sound pool (idle connections are open, belong to one address, at most
  \<open>maxIdle\<close> of them). It answers from one connection, which is one of the idle ones of that
  address that is not idle for too long, or the dialled one when there is none such, and which
  afterwards is idle again or closed. It fails without one exactly when there is none to reuse
  and dialling fails.\<close>

theorem DoRequest_pooled_spec:
  assumes "pool_ok p" "new_conn dial p" "DoRequest_pooled addr now dial io later p = (res, p')"
  shows "pool_ok p' \<and>
    ((\<exists>err. usable p addr now = [] \<and> dial = Inl err \<and> res = Inl err) \<or>
     (\<exists>c. (if usable p addr now = [] then dial = Inr c else c \<in> pc_conn ` set (usable p addr now))
        \<and> res = io c \<and> (in_pool p' c \<or> c \<in> set (closed_tcp p'))))"
proof -
  obtain r p1 where g: "Get addr now dial p = (r, p1)" by fastforce
  note gs = Get_spec [OF assms(1) g]
  then have us: "if usable p addr now = [] then r = dial else projr r \<in> pc_conn ` set (usable p addr now) \<and> (\<exists>c. r = Inr c)"
    by (auto simp: usable_def filter_empty_conv not_le)
  show ?thesis
  proof (cases r)
    case (Inl err)
    then show ?thesis using gs us g assms(3) by (auto simp: DoRequest_pooled_def split: if_splits)
  next
    case (Inr c)
    have fresh: "\<not> in_pool p1 c" "c \<notin> set (closed_tcp p1)"
      using gs Inr assms(2) by (auto simp: new_conn_def)
    have src: "if usable p addr now = [] then dial = Inr c else c \<in> pc_conn ` set (usable p addr now)"
      using us Inr by (auto split: if_splits)
    have put: "pool_ok (Put addr (Some c) h later p1) \<and>
        (in_pool (Put addr (Some c) h later p1) c \<or> c \<in> set (closed_tcp (Put addr (Some c) h later p1)))" for h
      using Put_spec gs fresh by blast
    have "\<exists>h. p' = Put addr (Some c) h later p1" "res = io c"
      using assms(3) g Inr by (auto simp: DoRequest_pooled_def split: sum.splits)
    with put src show ?thesis by blast
  qed
qed

theorem DoRequest_pooled_spec_witness:
  "pool_ok (NewTCPConnPool 20 300) \<and> new_conn (Inr 4) (NewTCPConnPool 20 300)
   \<and> (\<exists>res p'. DoRequest_pooled ''h:1'' 0 (Inr 4) (\<lambda>c. Inr [of_nat c]) 5 (NewTCPConnPool 20 300) = (res, p')
        \<and> pool_ok p' \<and> res = Inr [4] \<and> (in_pool p' 4 \<or> 4 \<in> set (closed_tcp p')))"
proof -
  have ok: "pool_ok (NewTCPConnPool 20 300)" "new_conn (Inr 4) (NewTCPConnPool 20 300)"
    "usable (NewTCPConnPool 20 300) ''h:1'' 0 = []"
    by (simp_all add: new_conn_def usable_def pool_ok_def in_pool_def conns_def idle_def NewTCPConnPool_def map_get_def)
  obtain res p' where r: "DoRequest_pooled ''h:1'' 0 (Inr 4) (\<lambda>c. Inr [of_nat c]) 5 (NewTCPConnPool 20 300) = (res, p')"
    by fastforce
  from DoRequest_pooled_spec [OF ok(1,2) r] ok(3) have "pool_ok p'" "res = Inr [4] \<and> (in_pool p' 4 \<or> 4 \<in> set (closed_tcp p'))"
    by auto
  with ok r show ?thesis by blast
qed

text \<open>The age limit of a connection has no effect: on a sound pool \<open>cleanup\<close> keeps exactly the
  connections that are not idle for longer than \<open>maxLifetime\<close>. The second test, twice
  \<open>maxLifetime\<close> since \<open>created\<close>, never decides, because \<open>Put\<close> sets \<open>created\<close> anew at every return.\<close>

lemma age_limit_ineffective:
  assumes "pool_ok p" "0 \<le> maxLifetime p" "range_order (pools p) addrs"
  shows "idle (cleanup now addrs p) a = usable p a now"
proof -
  have "conn_expired (maxLifetime p) now pc \<longleftrightarrow> \<not> now - lastUsed pc \<le> maxLifetime p" if "pc \<in> set (idle p a)" for pc
    using assms(1,2) that by (auto simp: pool_ok_def conn_expired_def)
  then have "filter (\<lambda>pc. \<not> conn_expired (maxLifetime p) now pc) (idle p a) = usable p a now"
    unfolding usable_def by (intro filter_cong) auto
  moreover have "idle p a = []" if "a \<notin> set addrs"
    using that range_orderD(2) [OF assms(3)] by (auto simp: idle_def map_get_def split: option.splits)
  ultimately show ?thesis
    unfolding cleanup_idle [OF range_orderD(1) [OF assms(3)]] by (auto simp: usable_def)
qed

lemma age_limit_ineffective_witness:
  "\<exists>p pc. p = Put ''h:1'' (Some 4) True 7 (snd (Get ''h:1'' 0 (Inr 4) (NewTCPConnPool 20 300)))
     \<and> pc = \<lparr>pc_conn = 4, created = 7, lastUsed = 7\<rparr> \<and> pool_ok p \<and> 0 \<le> maxLifetime p \<and> range_order (pools p) [''h:1'']
     \<and> idle (cleanup 300 [''h:1''] p) ''h:1'' = [pc]"
proof -
  let ?p1 = "snd (Get ''h:1'' 0 (Inr 4) (NewTCPConnPool 20 300))"
  let ?p = "Put ''h:1'' (Some 4) True 7 ?p1" and ?pc = "\<lparr>pc_conn = 4, created = 7, lastUsed = 7\<rparr>"
  have "?p1 = \<lparr>pools = [''h:1'' \<mapsto> []], maxIdle = 20, maxLifetime = 300, closed_tcp = []\<rparr>"
    by (simp add: Get_def Let_def NewTCPConnPool_def map_get_def)
  then have p: "?p = \<lparr>pools = [''h:1'' \<mapsto> [?pc]], maxIdle = 20, maxLifetime = 300, closed_tcp = []\<rparr>"
    by (simp add: Put_def)
  have ok: "pool_ok ?p" "range_order (pools ?p) [''h:1'']" "0 \<le> maxLifetime ?p" "usable ?p ''h:1'' 300 = [?pc]"
    unfolding p by (simp_all add: pool_ok_def conns_def idle_def map_get_def usable_def range_order_def)
  show ?thesis using age_limit_ineffective [OF ok(1,3,2), of 300 "''h:1''"] ok by fastforce
qed

end
