(* ===== verification/Tunnel_Handler.thy ===== *)
theory Tunnel_Handler
  imports Backsourcer
begin

text \<open>
  What a proxy does with a packet that arrives through a tunnel (data-proxy/tunnel-handler.go),
  and the journey of a request and of its response along a route.

  The calls \<open>HandleQUICPacket\<close> makes to the other components are its result, in order: a task
  submitted to the back-sourcer of a protocol, a packet sent to the next proxy, data delivered
  to a waiting client. What these calls do is modelled with their components; in particular the
  panic of a delivery to a closed channel is one of \<open>Disaggregator\<close>, not of the handler here.
\<close>

section \<open>The handler\<close>

datatype action =
    Submit string BackSourceTask
  | SendTo net_IP "byte list"
  | Deliver u32 "byte list"

text \<open>
  \<open>header.HopIP[header.HopPos+1]\<close>: the index is computed in a byte, so it wraps at 256, and
  is out of range from \<open>MaxHops\<close> on.
\<close>

definition hop_at :: "Packet \<Rightarrow> byte \<Rightarrow> u32 go" where
  "hop_at header pos = (if unat pos < MaxHops then Inr (HopIP header ! unat pos) else Inl IndexOutOfRange)"

definition outbound_last :: "Packet \<Rightarrow> bool" where
  "outbound_last header \<longleftrightarrow> HopPos header = 2
     \<or> (unat (HopPos header) + 2 < MaxHops \<and> HopIP header ! (unat (HopPos header) + 2) = 0)"

definition inbound_last :: "Packet \<Rightarrow> bool" where
  "inbound_last header \<longleftrightarrow> HopPos header = 3
     \<or> (unat (HopPos header) + 1 < MaxHops \<and> HopIP header ! (unat (HopPos header) + 1) = 0)"

definition forward :: "Packet \<Rightarrow> byte list \<Rightarrow> action list go" where
  "forward header pkt =
     (case hop_at header (HopPos header + 1) of
        Inl e \<Rightarrow> Inl e
      | Inr ip \<Rightarrow> Inr [SendTo (Uint32ToIP ip) (AdvanceRawHop pkt)])"

text \<open>\<open>int(HopPos)+1\<close> does not wrap.\<close>

definition to_origin :: "Packet \<Rightarrow> byte list \<Rightarrow> action list go" where
  "to_origin header pkt =
     (let protocal = (if Protocol header = 17 then ''udp'' else ''tcp'')
      in case Parse pkt (length pkt) of
           Inl e \<Rightarrow> Inl e
         | Inr (Inl err) \<Rightarrow> Inr []
         | Inr (Inr (p, subs)) \<Rightarrow>
             if subs = [] then Inr []
             else if MaxHops \<le> unat (HopPos header) + 1 then Inl IndexOutOfRange
             else
               let originIP = Uint32ToIP (HopIP header ! (unat (HopPos header) + 1))
               in if IP_String originIP = ''0.0.0.0'' then Inr []
                  else
                    let originAddr = JoinHostPort (IP_String originIP) (itoa (unat (Port header)))
                    in Inr (map (\<lambda>sub. Submit protocal
                              \<lparr>task_HopIP = HopIP header, task_Port = Port header, task_UserID = UserID sub,
                               task_OriginAddr = originAddr, task_ReqData = Data sub\<rparr>) subs))"

definition to_client :: "byte list \<Rightarrow> action list go" where
  "to_client pkt =
     (case Parse pkt (length pkt) of
        Inl e \<Rightarrow> Inl e
      | Inr (Inl err) \<Rightarrow> Inr []
      | Inr (Inr (p, subs)) \<Rightarrow> Inr (map (\<lambda>sub. Deliver (UserID sub) (Data sub)) subs))"

definition HandleQUICPacket :: "byte list \<Rightarrow> action list go" where
  "HandleQUICPacket pkt =
     (if length pkt < HeaderSize then Inr []
      else case ParseHeader pkt of
             Inl err \<Rightarrow> Inr []
           | Inr header \<Rightarrow>
               if Port header \<noteq> 0
               then if outbound_last header then to_origin header pkt else forward header pkt
               else if inbound_last header then to_client pkt else forward header pkt)"

section \<open>A packet on its way\<close>

text \<open>
  \<open>relay n pkt\<close> follows a packet through at most \<open>n\<close> proxies: each handles it, and a packet
  sent to another proxy is handled there. The result is the addresses it was sent to and the
  actions at the last proxy. A packet of the format visits fewer than \<open>MaxHops\<close> proxies.
\<close>

fun relay :: "nat \<Rightarrow> byte list \<Rightarrow> (net_IP list \<times> action list) option" where
  "relay 0 pkt = None"
| "relay (Suc n) pkt =
     (case HandleQUICPacket pkt of
        Inl e \<Rightarrow> None
      | Inr [SendTo ip pkt'] \<Rightarrow>
          (case relay n pkt' of None \<Rightarrow> None | Some (ips, acts) \<Rightarrow> Some (ip # ips, acts))
      | Inr acts \<Rightarrow> Some ([], acts))"

section \<open>Lemmas\<close>

lemma ParseHeader_bytes:
  assumes "length (HopIP p) = MaxHops"
  shows "\<exists>q. ParseHeader (header_bytes p @ rest) = (if length rest < 2 then Inl ErrInvalidHeader else Inr q)
    \<and> same_header q p"
proof -
  let ?b = "copy_at (replicate HeaderSize 0) 0 (take HeaderSize (header_bytes p @ rest))"
  let ?q = "zero_packet\<lparr>Buf := ?b\<rparr>"
  have "take HeaderSize ?b = header_bytes p @ take 2 rest" if "\<not> length rest < 2"
    using that by (simp add: HeaderSize_def copy_at_def)
  then show ?thesis
    using read_header_bytes [OF assms, of "take 2 rest" ?q]
    by (cases "length rest < 2") (auto simp: ParseHeader_def Let_def HeaderSize_def same_header_def)
qed

text \<open>Advancing the hop of raw bytes is advancing it in the packet.\<close>

lemma AdvanceRawHop_bytes:
  assumes "HopPos p < 3" "2 \<le> length rest"
  shows "AdvanceRawHop (header_bytes p @ rest) = header_bytes (p\<lparr>HopPos := HopPos p + 1\<rparr>) @ rest"
  using assms by (simp add: AdvanceRawHop_def packet_consts header_bytes_def codec_simps)

text \<open>
  The bytes of a packet at a hop: what \<open>wire\<close> produced for a packet that holds \<open>subs\<close>, with
  the position changed on the way.
\<close>

definition packet_at :: "Packet \<Rightarrow> SubPacket list \<Rightarrow> byte \<Rightarrow> byte list \<Rightarrow> bool" where
  "packet_at p subs pos pkt \<longleftrightarrow> holds p subs \<and> (\<forall>s \<in> set subs. sendable s)
     \<and> BuffSize p < HeaderSize + 2 ^ 16
     \<and> pkt = take (Wp p) (header_bytes (p\<lparr>HopPos := pos\<rparr>) @ drop 22 (Buf p))"

lemma packet_at_wire:
  assumes "holds p subs" "\<forall>s \<in> set subs. sendable s" "BuffSize p < HeaderSize + 2 ^ 16"
  shows "\<exists>pkt p'. wire p = Inr (pkt, p') \<and> packet_at p subs (HopPos p) pkt"
proof -
  have wf: "wf_packet p" using assms(1) by (simp add: holds_def)
  show ?thesis
    using assms unfolding packet_at_def wire_wf [OF wf] TotalBytes_Wp [OF wf assms(3)] by simp
qed

lemma packet_at_split:
  assumes "packet_at p subs pos pkt"
  shows "pkt = header_bytes (p\<lparr>HopPos := pos\<rparr>) @ take (Wp p - 22) (drop 22 (Buf p))"
    and "2 \<le> length (take (Wp p - 22) (drop 22 (Buf p)))" and "length pkt = Wp p"
    and "length (HopIP p) = MaxHops"
  using assms by (auto simp: packet_at_def holds_def wf_packet_def HeaderSize_def)

lemma packet_at_parse:
  assumes "packet_at p subs pos pkt"
  shows "\<exists>q. Parse pkt (length pkt) = Inr (Inr (q, subs))"
proof -
  have "wf_packet (p\<lparr>HopPos := pos\<rparr>)" "payload (p\<lparr>HopPos := pos\<rparr>) = payload p"
    using assms by (auto simp: packet_at_def holds_def wf_packet_def payload_def)
  with Parse_wire [of "p\<lparr>HopPos := pos\<rparr>" "Wp p" pkt] assms
  have "\<exists>q. Parse pkt (Wp p) = Inr (Inr (q, subs))"
    by (auto simp: packet_at_def holds_def parse_encode_subs simp del: take_append)
  then show ?thesis using packet_at_split(3) [OF assms] by simp
qed

lemma packet_at_header:
  assumes "packet_at p subs pos pkt"
  shows "\<exists>q. ParseHeader pkt = Inr q \<and> HopPos q = pos \<and> HopIP q = HopIP p \<and> Port q = Port p
    \<and> Protocol q = Protocol p \<and> \<not> length pkt < HeaderSize"
  using ParseHeader_bytes [of "p\<lparr>HopPos := pos\<rparr>" "take (Wp p - 22) (drop 22 (Buf p))"]
    packet_at_split [OF assms] by (auto simp: same_header_def HeaderSize_def)

lemma packet_at_advance:
  assumes "packet_at p subs pos pkt" "pos < 3"
  shows "packet_at p subs (pos + 1) (AdvanceRawHop pkt)"
proof -
  have "AdvanceRawHop pkt = header_bytes (p\<lparr>HopPos := pos + 1\<rparr>) @ take (Wp p - 22) (drop 22 (Buf p))"
    using AdvanceRawHop_bytes [of "p\<lparr>HopPos := pos\<rparr>"] packet_at_split [OF assms(1)] assms(2) by simp
  moreover have "HeaderSize \<le> Wp p" using assms(1) by (simp add: packet_at_def holds_def wf_packet_def)
  ultimately show ?thesis using assms(1) by (auto simp: packet_at_def HeaderSize_def)
qed

text \<open>The tasks a packet becomes at its last proxy, and the three ways it is handled.\<close>

definition tasks :: "Packet \<Rightarrow> u32 \<Rightarrow> SubPacket list \<Rightarrow> action list" where
  "tasks p origin subs = map (\<lambda>sub. Submit (if Protocol p = 17 then ''udp'' else ''tcp'')
     \<lparr>task_HopIP = HopIP p, task_Port = Port p, task_UserID = UserID sub,
      task_OriginAddr = JoinHostPort (ip_string origin) (itoa (unat (Port p))), task_ReqData = Data sub\<rparr>) subs"

lemma ip_string_zero: "ip_string ip = ''0.0.0.0'' \<longleftrightarrow> ip = 0"
proof -
  have "ip_string 0 = ''0.0.0.0''" by code_simp
  then show ?thesis using ip_string_inject [of ip 0] by simp
qed

lemma handle_forward:
  assumes "packet_at p subs pos pkt" "pos < 3"
    and "Port p \<noteq> 0 \<Longrightarrow> pos \<noteq> 2 \<and> HopIP p ! (unat pos + 2) \<noteq> 0"
    and "Port p = 0 \<Longrightarrow> HopIP p ! (unat pos + 1) \<noteq> 0"
  shows "HandleQUICPacket pkt = Inr [SendTo (Some (HopIP p ! (unat pos + 1))) (AdvanceRawHop pkt)]"
proof -
  have u: "unat pos < 3" "unat (pos + 1) = unat pos + 1" "pos \<noteq> 3" "pos \<noteq> 2 \<Longrightarrow> unat pos < 2"
    using assms(2) by (auto simp: word_less_nat_alt unat_word_ariths word_unat_eq_iff)
  from packet_at_header [OF assms(1)] obtain q where "ParseHeader pkt = Inr q" "HopPos q = pos"
    "HopIP q = HopIP p" "Port q = Port p" "\<not> length pkt < HeaderSize" by auto
  then show ?thesis
    using assms(3,4) u
    by (auto simp: HandleQUICPacket_def outbound_last_def inbound_last_def forward_def hop_at_def MaxHops_def)
qed

lemma handle_origin:
  assumes "packet_at p subs pos pkt" "Port p \<noteq> 0" "unat pos < 3" "subs \<noteq> []"
    and "pos = 2 \<or> unat pos < 2 \<and> HopIP p ! (unat pos + 2) = 0"
    and "HopIP p ! (unat pos + 1) \<noteq> 0"
  shows "HandleQUICPacket pkt = Inr (tasks p (HopIP p ! (unat pos + 1)) subs)"
proof -
  from packet_at_header [OF assms(1)] obtain q where q: "ParseHeader pkt = Inr q" "HopPos q = pos"
    "HopIP q = HopIP p" "Port q = Port p" "Protocol q = Protocol p" "\<not> length pkt < HeaderSize" by auto
  have "outbound_last q" using assms(5) q by (auto simp: outbound_last_def MaxHops_def)
  moreover obtain r where "Parse pkt (length pkt) = Inr (Inr (r, subs))"
    using packet_at_parse [OF assms(1)] by blast
  ultimately show ?thesis
    using q assms(2,3,4,6)
    by (simp add: HandleQUICPacket_def to_origin_def tasks_def MaxHops_def Let_def ip_string_zero)
qed

lemma handle_client:
  assumes "packet_at p subs pos pkt" "Port p = 0"
    and "pos = 3 \<or> unat pos < 3 \<and> HopIP p ! (unat pos + 1) = 0"
  shows "HandleQUICPacket pkt = Inr (map (\<lambda>sub. Deliver (UserID sub) (Data sub)) subs)"
proof -
  from packet_at_header [OF assms(1)] obtain q where q: "ParseHeader pkt = Inr q" "HopPos q = pos"
    "HopIP q = HopIP p" "Port q = Port p" "\<not> length pkt < HeaderSize" by auto
  have "inbound_last q" using assms(3) q by (auto simp: inbound_last_def MaxHops_def)
  moreover obtain r where "Parse pkt (length pkt) = Inr (Inr (r, subs))"
    using packet_at_parse [OF assms(1)] by blast
  ultimately show ?thesis using q assms(2) by (simp add: HandleQUICPacket_def to_client_def)
qed

lemma one_less_3: "(1 :: byte) < 3"
  by simp

lemma relay_last:
  "HandleQUICPacket pkt = Inr acts \<Longrightarrow> \<forall>ip q. acts \<noteq> [SendTo ip q] \<Longrightarrow> relay (Suc n) pkt = Some ([], acts)"
  by (auto split: list.splits action.splits)

lemma relay_tasks: "HandleQUICPacket pkt = Inr (tasks p o' subs) \<Longrightarrow> relay (Suc n) pkt = Some ([], tasks p o' subs)"
  by (rule relay_last) (auto simp: tasks_def)

lemma relay_deliver:
  "HandleQUICPacket pkt = Inr (map (\<lambda>sub. Deliver (UserID sub) (Data sub)) subs) \<Longrightarrow>
     relay (Suc n) pkt = Some ([], map (\<lambda>sub. Deliver (UserID sub) (Data sub)) subs)"
  by (rule relay_last) auto

text \<open>The outbound journey: the third address is the origin if there is no fourth.\<close>

lemma relay_request:
  assumes at: "packet_at p subs 1 pkt" and "Port p \<noteq> 0" "subs \<noteq> []" "HopIP p ! 2 \<noteq> 0"
  shows "relay 3 pkt = (if HopIP p ! 3 = 0 then Some ([], tasks p (HopIP p ! 2) subs)
    else Some ([Some (HopIP p ! 2)], tasks p (HopIP p ! 3) subs))"
proof (cases "HopIP p ! 3 = 0")
  case True
  then have "HandleQUICPacket pkt = Inr (tasks p (HopIP p ! 2) subs)"
    using handle_origin [OF at assms(2)] assms(3,4) by (simp add: numeral_3_eq_3 numeral_2_eq_2)
  then show ?thesis using True relay_tasks [of pkt p "HopIP p ! 2" subs 2] by (simp add: eval_nat_numeral)
next
  case False
  have at2: "packet_at p subs 2 (AdvanceRawHop pkt)" using packet_at_advance [OF at] by simp
  have "HandleQUICPacket pkt = Inr [SendTo (Some (HopIP p ! 2)) (AdvanceRawHop pkt)]"
    using handle_forward [OF at one_less_3] assms(2) False by (simp add: numeral_3_eq_3 numeral_2_eq_2)
  moreover have "HandleQUICPacket (AdvanceRawHop pkt) = Inr (tasks p (HopIP p ! 3) subs)"
    using handle_origin [OF at2 assms(2) _ assms(3)] False by simp
  ultimately show ?thesis
    using False relay_tasks [of "AdvanceRawHop pkt" p "HopIP p ! 3" subs 1]
    by (simp add: eval_nat_numeral del: relay.simps(2)) (simp add: relay.simps(2) [of 2])
qed

text \<open>The way back: the last address that is set is the proxy of the client.\<close>

lemma relay_response:
  assumes at: "packet_at p subs 1 pkt" and "Port p = 0" "HopIP p ! 3 = 0"
  shows "relay 3 pkt = Some (if HopIP p ! 2 = 0 then [] else [Some (HopIP p ! 2)],
    map (\<lambda>sub. Deliver (UserID sub) (Data sub)) subs)"
proof (cases "HopIP p ! 2 = 0")
  case True
  then have "HandleQUICPacket pkt = Inr (map (\<lambda>sub. Deliver (UserID sub) (Data sub)) subs)"
    using handle_client [OF at assms(2)] by (simp add: numeral_2_eq_2)
  then show ?thesis using True relay_deliver [of pkt subs 2] by (simp add: eval_nat_numeral)
next
  case False
  have at2: "packet_at p subs 2 (AdvanceRawHop pkt)" using packet_at_advance [OF at] by simp
  have "HandleQUICPacket pkt = Inr [SendTo (Some (HopIP p ! 2)) (AdvanceRawHop pkt)]"
    using handle_forward [OF at one_less_3] assms(2) False by (simp add: numeral_2_eq_2)
  moreover have "HandleQUICPacket (AdvanceRawHop pkt) = Inr (map (\<lambda>sub. Deliver (UserID sub) (Data sub)) subs)"
    using handle_client [OF at2 assms(2)] assms(3) by simp
  ultimately show ?thesis
    using False relay_deliver [of "AdvanceRawHop pkt" subs 1]
    by (simp add: eval_nat_numeral del: relay.simps(2)) (simp add: relay.simps(2) [of 2])
qed

section \<open>Routes in packets\<close>

definition padded :: "u32 list \<Rightarrow> u32 list" where
  "padded ips = take 4 ips @ replicate (4 - length ips) 0"

lemma set_hops_HopIP:
  "length (HopIP p) = 4 \<Longrightarrow> length (HopIP (set_hops (int i) (map ip_string ips) p)) = 4 \<and>
     (\<forall>k < 4. HopIP (set_hops (int i) (map ip_string ips) p) ! k
        = (if i \<le> k \<and> k < i + length ips then ips ! (k - i) else HopIP p ! k))"
proof (induction ips arbitrary: i p)
  case (Cons a ips)
  let ?p = "SetHopIP (int i) (Some a) p"
  have l: "length (HopIP ?p) = 4" "\<And>k. k < 4 \<Longrightarrow> HopIP ?p ! k = (if k = i then a else HopIP p ! k)"
    using Cons.prems by (auto simp: SetHopIP_def MaxHops_def)
  from Cons.IH [OF l(1), of "Suc i"] l(2) show ?case
    by (auto simp: add.commute nth_Cons' not_less_eq_eq)
qed auto

lemma route_packet_HopIP:
  assumes "Hops (msg_routingInfo msg) = map ip_string ips"
  shows "HopIP (route_packet n msg) = padded ips"
proof -
  let ?h = "HopIP (set_hops 0 (map ip_string ips) (NewPacket n))"
  have z: "HopIP (NewPacket n) = replicate 4 0"
    by (simp add: NewPacket_def zero_packet_def eval_nat_numeral)
  from set_hops_HopIP [of "NewPacket n" 0 ips] z
  have h: "length ?h = 4" "\<And>k. k < 4 \<Longrightarrow> ?h ! k = (if k < length ips then ips ! k else 0)"
    by auto
  have "?h = padded ips"
    using h by (intro nth_equalityI) (auto simp: padded_def nth_append)
  then show ?thesis
    using assms by (simp add: route_packet_def SetHopPos_def SetProtocol_def SetPort_def)
qed

lemma route_packet_header:
  "HopPos (route_packet n msg) = 1" "Port (route_packet n msg) = msg_port msg"
  "Protocol (route_packet n msg) = (if msg_protocol msg = ''tcp'' then 6 else 17)"
  by (simp_all add: route_packet_def SetHopPos_def SetProtocol_def SetPort_def MaxHops_def)

text \<open>The packet that \<open>send_now\<close> hands to the tunnel.\<close>

lemma send_now_packet:
  assumes "msg_data msg \<noteq> []" "HeaderSize + 6 + length (msg_data msg) \<le> n" "n < HeaderSize + 2 ^ 16"
  shows "\<exists>pkt p. send_now n msg w
      = Inr (w\<lparr>sent := sent w @ [\<lparr>send_p = pkt, send_routingKey = msg_routingKey msg, send_next = msg_nextHop msg\<rparr>]\<rparr>)
    \<and> packet_at p [\<lparr>UserID = msg_userID msg, Data = msg_data msg\<rparr>] 1 pkt
    \<and> HopIP p = HopIP (route_packet n msg) \<and> Port p = msg_port msg
    \<and> Protocol p = (if msg_protocol msg = ''tcp'' then 6 else 17)"
proof -
  let ?s = "\<lparr>UserID = msg_userID msg, Data = msg_data msg\<rparr>"
  have h: "holds (route_packet n msg) []" using assms by (intro route_packet_holds) simp
  then have wf: "wf_packet (route_packet n msg)" by (simp add: holds_def)
  have "Wp (route_packet n msg) + 6 + length (msg_data msg) \<le> BuffSize (route_packet n msg)" using assms by simp
  from append_fits [OF wf this, of "msg_userID msg"] h obtain p where
    p: "AppendUserPacket (msg_userID msg) (msg_data msg) (route_packet n msg) = Inr (True, p)"
      "holds p [?s]" "BuffSize p = n" "HopIP p = HopIP (route_packet n msg)" "HopPos p = 1"
      "Port p = msg_port msg" "Protocol p = (if msg_protocol msg = ''tcp'' then 6 else 17)"
    by (auto simp: holds_def route_packet_header)
  have s: "\<forall>s \<in> set [?s]. sendable s" using assms by (simp add: sendable_def)
  from packet_at_wire [OF p(2) s] p(3,5) assms(3) obtain pkt p' where
    w: "wire p = Inr (pkt, p')" "packet_at p [?s] 1 pkt" by auto
  then have "pkt \<noteq> []" using packet_at_split [OF w(2)] by (auto simp: header_bytes_def)
  then have "send_now n msg w
      = Inr (w\<lparr>sent := sent w @ [\<lparr>send_p = pkt, send_routingKey = msg_routingKey msg, send_next = msg_nextHop msg\<rparr>]\<rparr>)"
    using p(1) w(1) by (simp add: send_now_def flush_def)
  with p(4,6,7) w show ?thesis by blast
qed

lemma response_hops_padded:
  assumes "2 \<le> length ips" "length ips \<le> 4" "0 \<notin> set ips"
  shows "response_hops (padded ips) = map Some (rev (butlast ips))"
proof -
  have "filter (\<lambda>h. h \<noteq> 0) (rev (padded ips)) = rev ips"
    using assms by (auto simp: padded_def filter_empty_conv intro: filter_True)
  then have "reversed_hops (padded ips) = map Some (rev ips)" by (simp add: reversed_hops_def)
  moreover have "tl (rev ips) = rev (butlast ips)" by (metis butlast_rev rev_rev_ident rev_swap)
  ultimately show ?thesis using assms(1) by (simp add: response_hops_def Let_def map_tl [symmetric])
qed

lemma outbound_journey:
  assumes ips: "length ips = 3 \<or> length ips = 4" "0 \<notin> set ips"
    and msg: "Hops (msg_routingInfo msg) = map ip_string ips" "msg_port msg \<noteq> 0" "msg_data msg \<noteq> []"
      "HeaderSize + 6 + length (msg_data msg) \<le> n" "n < HeaderSize + 2 ^ 16"
  shows "\<exists>pkt. send_now n msg w
      = Inr (w\<lparr>sent := sent w @ [\<lparr>send_p = pkt, send_routingKey = msg_routingKey msg, send_next = msg_nextHop msg\<rparr>]\<rparr>)
    \<and> relay 3 pkt = Some (map Some (drop 2 (butlast ips)),
        [Submit (if msg_protocol msg = ''tcp'' then ''tcp'' else ''udp'')
          \<lparr>task_HopIP = padded ips, task_Port = msg_port msg, task_UserID = msg_userID msg,
           task_OriginAddr = JoinHostPort (ip_string (last ips)) (itoa (unat (msg_port msg))),
           task_ReqData = msg_data msg\<rparr>])"
proof -
  obtain pkt p where s: "send_now n msg w
      = Inr (w\<lparr>sent := sent w @ [\<lparr>send_p = pkt, send_routingKey = msg_routingKey msg, send_next = msg_nextHop msg\<rparr>]\<rparr>)"
    "packet_at p [\<lparr>UserID = msg_userID msg, Data = msg_data msg\<rparr>] 1 pkt" "HopIP p = padded ips"
    "Port p = msg_port msg" "Protocol p = (if msg_protocol msg = ''tcp'' then 6 else 17)"
    using send_now_packet [OF msg(3,4,5), of w] unfolding route_packet_HopIP [OF msg(1)] by blast
  obtain a b c d where "ips = [a, b, c] \<and> d = 0 \<or> ips = [a, b, c, d]"
    using ips(1) by (auto simp: length_Suc_conv eval_nat_numeral)
  then have r: "relay 3 pkt = Some (map Some (drop 2 (butlast ips)),
      tasks p (last ips) [\<lparr>UserID = msg_userID msg, Data = msg_data msg\<rparr>])"
    using relay_request [OF s(2)] ips(2) msg(2) s(3,4)
    by (auto simp: padded_def)
  have "tasks p (last ips) [\<lparr>UserID = msg_userID msg, Data = msg_data msg\<rparr>]
      = [Submit (if msg_protocol msg = ''tcp'' then ''tcp'' else ''udp'')
          \<lparr>task_HopIP = padded ips, task_Port = msg_port msg, task_UserID = msg_userID msg,
           task_OriginAddr = JoinHostPort (ip_string (last ips)) (itoa (unat (msg_port msg))),
           task_ReqData = msg_data msg\<rparr>]"
    using s(3-5) by (simp add: tasks_def)
  with s(1) r show ?thesis by auto
qed

lemma inbound_journey:
  assumes ips: "length ips = 2 \<or> length ips = 3" "0 \<notin> set ips"
    and msg: "Hops (msg_routingInfo msg) = map ip_string ips" "msg_port msg = 0" "msg_data msg \<noteq> []"
      "HeaderSize + 6 + length (msg_data msg) \<le> n" "n < HeaderSize + 2 ^ 16"
  shows "\<exists>pkt. send_now n msg w
      = Inr (w\<lparr>sent := sent w @ [\<lparr>send_p = pkt, send_routingKey = msg_routingKey msg, send_next = msg_nextHop msg\<rparr>]\<rparr>)
    \<and> relay 3 pkt = Some (map Some (drop 2 ips), [Deliver (msg_userID msg) (msg_data msg)])"
proof -
  obtain pkt p where s: "send_now n msg w
      = Inr (w\<lparr>sent := sent w @ [\<lparr>send_p = pkt, send_routingKey = msg_routingKey msg, send_next = msg_nextHop msg\<rparr>]\<rparr>)"
    "packet_at p [\<lparr>UserID = msg_userID msg, Data = msg_data msg\<rparr>] 1 pkt" "HopIP p = padded ips" "Port p = msg_port msg"
    using send_now_packet [OF msg(3,4,5), of w] unfolding route_packet_HopIP [OF msg(1)] by blast
  obtain a b c where "ips = [a, b] \<and> c = 0 \<or> ips = [a, b, c]"
    using ips(1) by (auto simp: length_Suc_conv eval_nat_numeral)
  then have "relay 3 pkt = Some (map Some (drop 2 ips), [Deliver (msg_userID msg) (msg_data msg)])"
    using relay_response [OF s(2)] ips(2) s(3,4) msg(2) by (auto simp: padded_def)
  with s(1) show ?thesis by blast
qed

text \<open>The handler panics exactly on a hop position that points behind the four addresses.\<close>

lemma panic_iff:
  "(\<exists>e. HandleQUICPacket pkt = Inl e) \<longleftrightarrow> HeaderSize \<le> length pkt
     \<and> (if get_u16 (drop 19 pkt) \<noteq> 0 then 3 else 4) \<le> unat (pkt ! 0) \<and> pkt ! 0 \<noteq> 255"
proof (cases "length pkt < HeaderSize")
  case False
  let ?q = "read_header (take HeaderSize pkt) (zero_packet\<lparr>Buf := take HeaderSize pkt\<rparr>)"
  have b: "copy_at (replicate HeaderSize 0) 0 (take HeaderSize pkt) = take HeaderSize pkt"
    using False by (simp add: copy_at_def)
  have "take 2 (drop 19 (take HeaderSize pkt)) = take 2 (drop 19 pkt)" by (simp add: drop_take HeaderSize_def)
  then have port: "Port ?q = get_u16 (drop 19 pkt)"
    using False be16.get_take [of "drop 19 pkt"] be16.get_take [of "drop 19 (take HeaderSize pkt)"]
    by (simp add: read_header_def HeaderSize_def)
  have pos: "HopPos ?q = pkt ! 0" using False by (simp add: read_header_def HeaderSize_def)
  have q: "ParseHeader pkt = Inr ?q" using False by (simp add: ParseHeader_def Let_def b)
  have parse: "\<exists>r. Parse pkt (length pkt) = Inr r" using Parse_cases [of "length pkt" pkt] False by force
  have fw: "(\<exists>e. forward ?q pkt = Inl e) \<longleftrightarrow> 4 \<le> unat (pkt ! 0 + 1)"
    by (auto simp: forward_def hop_at_def pos MaxHops_def split: if_splits)
  have wrap: "4 \<le> unat (pkt ! 0 + 1) \<longleftrightarrow> 3 \<le> unat (pkt ! 0) \<and> pkt ! 0 \<noteq> 255"
    using unsigned_less [of "pkt ! 0", where 'a = nat]
    by (auto simp: unat_word_ariths word_unat_eq_iff mod_Suc split: if_splits)
  have no: "\<nexists>e. to_client pkt = Inl e" using parse by (auto simp: to_client_def split: sum.splits)
  have to: "\<nexists>e. to_origin ?q pkt = Inl e" if "outbound_last ?q"
    using parse that pos
    by (auto simp: to_origin_def Let_def outbound_last_def MaxHops_def split: sum.splits if_splits)
  have ol: "outbound_last ?q \<Longrightarrow> unat (pkt ! 0) < 3" by (auto simp: outbound_last_def pos MaxHops_def)
  have il: "inbound_last ?q \<Longrightarrow> unat (pkt ! 0) < 4" by (auto simp: inbound_last_def pos MaxHops_def)
  have "unat (pkt ! 0) = 3 \<Longrightarrow> inbound_last ?q"
    by (auto simp: inbound_last_def pos word_unat_eq_iff)
  then have il3: "\<not> inbound_last ?q \<Longrightarrow> 3 \<le> unat (pkt ! 0) \<Longrightarrow> 4 \<le> unat (pkt ! 0)" by linarith
  show ?thesis
  proof (cases "get_u16 (drop 19 pkt) = 0")
    case True
    then show ?thesis
      using False q port fw wrap no il il3
      by (cases "inbound_last ?q") (auto simp: HandleQUICPacket_def)
  next
    case nz: False
    then show ?thesis
      using False q port fw wrap to ol
      by (cases "outbound_last ?q") (auto simp: HandleQUICPacket_def)
  qed
qed (simp add: HandleQUICPacket_def)

section \<open>Properties\<close>

text \<open>C2. End to end: on a route of three or four proxies and origin, a request leaves the first
  proxy for the second, is forwarded along the rest of the route and becomes exactly one task for
  the origin (the last address of the route) with the client's identifier and data. The response
  of the origin is sent back to the proxy before, is forwarded along the reversed route and is
  delivered to the same client identifier at the proxy the request came from, which is the last
  it is sent to.\<close>

theorem request_response_roundtrip:
  assumes ips: "length ips = 3 \<or> length ips = 4" "0 \<notin> set ips"
    and msg: "Hops (msg_routingInfo msg) = map ip_string ips" "msg_port msg \<noteq> 0" "msg_data msg \<noteq> []"
      "HeaderSize + 6 + length (msg_data msg) \<le> n" "n < HeaderSize + 2 ^ 16"
    and origin: "DoRequest (JoinHostPort (ip_string (last ips)) (itoa (unat (msg_port msg)))) (msg_data msg) = Inr resp"
      "resp \<noteq> []" "HeaderSize + 6 + length resp \<le> m" "m < HeaderSize + 2 ^ 16"
  shows "\<exists>pkt task msg' pkt'.
      send_now n msg w
        = Inr (w\<lparr>sent := sent w @ [\<lparr>send_p = pkt, send_routingKey = msg_routingKey msg, send_next = msg_nextHop msg\<rparr>]\<rparr>)
    \<and> relay 3 pkt = Some (map Some (drop 2 (butlast ips)),
        [Submit (if msg_protocol msg = ''tcp'' then ''tcp'' else ''udp'') task])
    \<and> doOriginRequest DoRequest task = Inr (Some msg')
    \<and> msg_nextHop msg' = Some (rev (butlast ips) ! 1)
    \<and> send_now m msg' w'
        = Inr (w'\<lparr>sent := sent w' @ [\<lparr>send_p = pkt', send_routingKey = msg_routingKey msg', send_next = msg_nextHop msg'\<rparr>]\<rparr>)
    \<and> relay 3 pkt' = Some (map Some (drop 2 (rev (butlast ips))), [Deliver (msg_userID msg) resp])"
proof -
  let ?task = "\<lparr>task_HopIP = padded ips, task_Port = msg_port msg, task_UserID = msg_userID msg,
     task_OriginAddr = JoinHostPort (ip_string (last ips)) (itoa (unat (msg_port msg))), task_ReqData = msg_data msg\<rparr>"
  let ?bw = "rev (butlast ips)"
  let ?msg = "\<lparr>msg_emerge = False, msg_routingKey = strings_join '','' (map ip_string ?bw), msg_protocol = '''',
     msg_port = 0, msg_routingInfo = \<lparr>Hops = map ip_string ?bw, Rtt = 0, RawRTT = 0\<rparr>,
     msg_nextHop = Some (?bw ! 1), msg_userID = msg_userID msg, msg_data = resp\<rparr>"
  have bk: "length ?bw = 2 \<or> length ?bw = 3" "0 \<notin> set ?bw"
    using ips by (auto dest: in_set_butlastD)
  have h: "response_hops (padded ips) = map Some ?bw" using ips by (intro response_hops_padded) auto
  have "IP_String \<circ> Some = ip_string" by (simp add: fun_eq_iff)
  then have d: "doOriginRequest DoRequest ?task = Inr (Some ?msg)"
    using origin(1,2) bk(1) h by (auto simp: doOriginRequest_def Let_def)
  from inbound_journey [OF bk, of ?msg m w'] origin(2-4)
  obtain pkt' where "send_now m ?msg w'
      = Inr (w'\<lparr>sent := sent w' @ [\<lparr>send_p = pkt', send_routingKey = msg_routingKey ?msg, send_next = msg_nextHop ?msg\<rparr>]\<rparr>)"
    "relay 3 pkt' = Some (map Some (drop 2 ?bw), [Deliver (msg_userID msg) resp])" by auto
  moreover have "msg_nextHop ?msg = Some (?bw ! 1)" by simp
  moreover from outbound_journey [OF ips msg, of w] obtain pkt where "send_now n msg w
      = Inr (w\<lparr>sent := sent w @ [\<lparr>send_p = pkt, send_routingKey = msg_routingKey msg, send_next = msg_nextHop msg\<rparr>]\<rparr>)"
    "relay 3 pkt = Some (map Some (drop 2 (butlast ips)), [Submit (if msg_protocol msg = ''tcp'' then ''tcp'' else ''udp'') ?task])"
    by blast
  ultimately show ?thesis using d by blast
qed

definition sample_request :: aggregatorMsg where
  "sample_request = \<lparr>msg_emerge = True, msg_routingKey = ''r'', msg_protocol = ''tcp'', msg_port = 80,
     msg_routingInfo = \<lparr>Hops = map ip_string [1, 2, 3, 4], Rtt = 0, RawRTT = 0\<rparr>, msg_nextHop = Some 2,
     msg_userID = 9, msg_data = [71, 10]\<rparr>"

theorem request_response_roundtrip_witness:
  "length [1 :: u32, 2, 3, 4] = 4 \<and> 0 \<notin> set [1 :: u32, 2, 3, 4] \<and>
   (\<exists>pkt task msg' pkt'.
      send_now 64 sample_request new_worker
        = Inr (new_worker\<lparr>sent := sent new_worker @ [\<lparr>send_p = pkt, send_routingKey = msg_routingKey sample_request,
            send_next = msg_nextHop sample_request\<rparr>]\<rparr>)
    \<and> relay 3 pkt = Some ([Some 3], [Submit ''tcp'' task])
    \<and> doOriginRequest (\<lambda>a d. Inr (d @ d)) task = Inr (Some msg')
    \<and> msg_nextHop msg' = Some 2
    \<and> send_now 64 msg' new_worker
        = Inr (new_worker\<lparr>sent := sent new_worker @ [\<lparr>send_p = pkt', send_routingKey = msg_routingKey msg',
            send_next = msg_nextHop msg'\<rparr>]\<rparr>)
    \<and> relay 3 pkt' = Some ([Some 1], [Deliver 9 [71, 10, 71, 10]]))"
  using request_response_roundtrip [of "[1, 2, 3, 4]" sample_request 64 "\<lambda>a d. Inr (d @ d)" "[71, 10, 71, 10]" 64 new_worker new_worker]
  by (simp add: sample_request_def HeaderSize_def)

text \<open>C32. The handler panics on a received packet exactly when it is at least a header long and its
  hop position points behind the four addresses: 3 or more with a port, 4 or more without one,
  except 255, whose successor wraps to 0. One such packet from the network stops the proxy.\<close>

theorem HandleQUICPacket_panics:
  "(\<exists>e. HandleQUICPacket pkt = Inl e) \<longleftrightarrow> HeaderSize \<le> length pkt
     \<and> (if get_u16 (drop 19 pkt) \<noteq> 0 then 3 else 4) \<le> unat (pkt ! 0) \<and> pkt ! 0 \<noteq> 255"
  by (rule panic_iff)

text \<open>C34. A route longer than four addresses is cut without an error: the request is handed to the
  fourth address as its origin, whatever the rest of the route.\<close>

theorem long_route_misdelivered:
  assumes "length ips > 4" "0 \<notin> set ips" "Hops (msg_routingInfo msg) = map ip_string ips"
    and "msg_port msg \<noteq> 0" "msg_data msg \<noteq> []" "HeaderSize + 6 + length (msg_data msg) \<le> n" "n < HeaderSize + 2 ^ 16"
  shows "\<exists>pkt task. send_now n msg w
      = Inr (w\<lparr>sent := sent w @ [\<lparr>send_p = pkt, send_routingKey = msg_routingKey msg, send_next = msg_nextHop msg\<rparr>]\<rparr>)
    \<and> relay 3 pkt = Some ([Some (ips ! 2)], [Submit (if msg_protocol msg = ''tcp'' then ''tcp'' else ''udp'') task])
    \<and> task_OriginAddr task = JoinHostPort (ip_string (ips ! 3)) (itoa (unat (msg_port msg)))"
proof -
  obtain pkt p where s: "send_now n msg w
      = Inr (w\<lparr>sent := sent w @ [\<lparr>send_p = pkt, send_routingKey = msg_routingKey msg, send_next = msg_nextHop msg\<rparr>]\<rparr>)"
    "packet_at p [\<lparr>UserID = msg_userID msg, Data = msg_data msg\<rparr>] 1 pkt" "HopIP p = padded ips"
    "Port p = msg_port msg" "Protocol p = (if msg_protocol msg = ''tcp'' then 6 else 17)"
    using send_now_packet [OF assms(5-7), of w] unfolding route_packet_HopIP [OF assms(3)] by blast
  have h: "padded ips ! 2 = ips ! 2" "padded ips ! 3 = ips ! 3" "ips ! 2 \<noteq> 0" "ips ! 3 \<noteq> 0"
    using assms(1,2) nth_mem [of 2 ips] nth_mem [of 3 ips] by (auto simp: padded_def nth_append simp del: nth_mem)
  then have "relay 3 pkt = Some ([Some (ips ! 2)], tasks p (ips ! 3) [\<lparr>UserID = msg_userID msg, Data = msg_data msg\<rparr>])"
    using relay_request [OF s(2)] assms(4) s(3,4) by simp
  then have "relay 3 pkt = Some ([Some (ips ! 2)], [Submit (if msg_protocol msg = ''tcp'' then ''tcp'' else ''udp'')
      \<lparr>task_HopIP = HopIP p, task_Port = Port p, task_UserID = msg_userID msg,
       task_OriginAddr = JoinHostPort (ip_string (ips ! 3)) (itoa (unat (msg_port msg))), task_ReqData = msg_data msg\<rparr>])"
    using s(4,5) by (simp add: tasks_def)
  with s(1) show ?thesis by fastforce
qed

theorem long_route_misdelivered_witness:
  "length [1 :: u32, 2, 3, 4, 5] > 4 \<and>
   (\<exists>pkt task. relay 3 pkt = Some ([Some 3], [Submit ''tcp'' task])
      \<and> task_OriginAddr task = JoinHostPort (ip_string 4) (itoa 80))"
  using long_route_misdelivered [of "[1, 2, 3, 4, 5]"
      "sample_request\<lparr>msg_routingInfo := \<lparr>Hops = map ip_string [1, 2, 3, 4, 5], Rtt = 0, RawRTT = 0\<rparr>\<rparr>" 64 new_worker]
  by (auto simp: sample_request_def HeaderSize_def)

end
