(* ===== verification/Telemetry.thy ===== *)
theory Telemetry
  imports Go_Strings
begin

text \<open>
  The telemetry the control plane aggregates: the reports of a node about its links
  (control-plane/receive-info, aggregator/node.go) and the response times of users seen by the
  edge nodes (aggregator/edge.go).

  The identity of the node, which the code reads from the configuration, is a parameter, and so
  is the order in which a map is iterated. Writing the result to etcd as JSON is not modelled. The
  entries of a report are values, not pointers: a report with a null entry, which \<open>rebuildAggregate\<close>
  would dereference, has no counterpart here. Counts are integers without an upper bound.
\<close>

section \<open>Node telemetry\<close>

record ProbeTask =
  TargetType :: string
  task_Provider :: string
  task_IP :: string
  task_TargetPort :: int
  task_Region :: string
  task_ID :: string

record LinkCongestion =
  TargetIP :: string
  Target :: ProbeTask
  PacketLoss :: float64
  AverageLatency :: float64

record CPUInfo =
  PhysicalCore :: int
  LogicalCore :: int
  Usage :: float64
  Load1Min :: float64
  LoadDelta :: float64

record NodeTelemetry =
  PublicIP :: string
  node_Provider :: string
  node_Continent :: string
  node_Country :: string
  node_City :: string
  CpuPressure :: float64
  Cpu :: CPUInfo
  LinksCongestion :: "string \<rightharpoonup> LinkCongestion"

text \<open>The two fields of a VM report that the aggregation reads.\<close>

record VMReport =
  report_CPU :: CPUInfo
  report_Links :: "LinkCongestion list"

text \<open>The local struct of \<open>DoClusterWeightedAvg\<close>.\<close>

record linksCongestion =
  PacketLosses :: "float64 list"
  AverageLatencies :: "float64 list"
  first_task :: ProbeTask

definition collect_link :: "LinkCongestion \<Rightarrow> (string \<rightharpoonup> linksCongestion) \<Rightarrow> (string \<rightharpoonup> linksCongestion)" where
  "collect_link v m =
     (let t = (case m (TargetIP v) of
                 Some t \<Rightarrow> t
               | None \<Rightarrow> \<lparr>PacketLosses = [], AverageLatencies = [], first_task = Target v\<rparr>)
      in m(TargetIP v \<mapsto> t\<lparr>PacketLosses := PacketLosses t @ [PacketLoss v],
                            AverageLatencies := AverageLatencies t @ [AverageLatency v]\<rparr>))"

definition average :: "float64 list \<Rightarrow> float64" where
  "average vs =
     (let avg = foldl (\<lambda>a v. a + v) 0 vs
      in if avg \<noteq> 0 \<and> length vs > 0 then avg / real (length vs) else avg)"

definition link_average :: "string \<Rightarrow> linksCongestion \<Rightarrow> LinkCongestion" where
  "link_average k vs =
     \<lparr>TargetIP = k, Target = first_task vs, PacketLoss = average (PacketLosses vs),
      AverageLatency = average (AverageLatencies vs)\<rparr>"

definition DoClusterWeightedAvg :: "NodeTelemetry \<Rightarrow> VMReport \<Rightarrow> NodeTelemetry" where
  "DoClusterWeightedAvg self report =
     (let total = fold collect_link (report_Links report) Map.empty
      in self\<lparr>CpuPressure := Usage (report_CPU report), Cpu := report_CPU report,
              LinksCongestion := (\<lambda>k. map_option (link_average k) (total k))\<rparr>)"

section \<open>Response times of users\<close>

record LastCongestion =
  Count :: int
  SumRT :: float64
  AvgRT :: float64
  P95RT :: int

record LastTelemetry =
  LastsCongestion :: "string \<rightharpoonup> LastCongestion"
  last_IP :: string
  last_Continent :: string
  last_Country :: string
  last_City :: string

record GlobalStats =
  nodeLast :: "string \<rightharpoonup> LastTelemetry"
  edgeAgg :: "string \<rightharpoonup> LastCongestion"

definition NewGlobalStats :: GlobalStats where
  "NewGlobalStats = \<lparr>nodeLast = Map.empty, edgeAgg = Map.empty\<rparr>"

definition AddOrUpdateNode :: "LastTelemetry \<Rightarrow> GlobalStats \<Rightarrow> GlobalStats" where
  "AddOrUpdateNode node g =
     (if last_IP node = '''' then g else g\<lparr>nodeLast := (nodeLast g)(last_IP node \<mapsto> node)\<rparr>)"

definition DelNode :: "string \<Rightarrow> GlobalStats \<Rightarrow> GlobalStats" where
  "DelNode nodeIP g = g\<lparr>nodeLast := (nodeLast g)(nodeIP := None)\<rparr>"

definition GetAggValue :: "string \<Rightarrow> GlobalStats \<Rightarrow> LastCongestion" where
  "GetAggValue key g = map_get \<lparr>Count = 0, SumRT = 0, AvgRT = 0, P95RT = 0\<rparr> (edgeAgg g) key"

text \<open>The key of a user group at a node, and the pairs the two nested loops visit, in order.\<close>

definition agg_key :: "string \<Rightarrow> string \<Rightarrow> string" where
  "agg_key userKey ip = userKey @ ''-'' @ ip"

definition agg_entries :: "LastTelemetry list \<Rightarrow> (LastTelemetry \<Rightarrow> string list) \<Rightarrow> (string \<times> LastCongestion) list" where
  "agg_entries nodeList users =
     concat (map (\<lambda>node. map (\<lambda>u. (agg_key u (last_IP node), the (LastsCongestion node u))) (users node)) nodeList)"

definition agg_add :: "string \<times> LastCongestion \<Rightarrow> (string \<rightharpoonup> LastCongestion) \<Rightarrow> (string \<rightharpoonup> LastCongestion)" where
  "agg_add kv m =
     (case kv of (key, val) \<Rightarrow>
        let s = map_get \<lparr>Count = 0, SumRT = 0, AvgRT = 0, P95RT = 0\<rparr> m key
        in m(key \<mapsto> s\<lparr>Count := Count s + Count val, SumRT := SumRT s + AvgRT val * of_int (Count val)\<rparr>))"

definition finish_average :: "LastCongestion \<Rightarrow> LastCongestion" where
  "finish_average s = (if Count s > 0 then s\<lparr>AvgRT := SumRT s / of_int (Count s)\<rparr> else s)"

text \<open>\<open>nodes\<close> and \<open>users\<close> are the orders of the two map iterations.\<close>

definition rebuildAggregate :: "string list \<Rightarrow> (LastTelemetry \<Rightarrow> string list) \<Rightarrow> GlobalStats \<Rightarrow> GlobalStats" where
  "rebuildAggregate nodes users g =
     (let nodeList = map (\<lambda>k. the (nodeLast g k)) nodes;
          newAgg = fold agg_add (agg_entries nodeList users) Map.empty
      in g\<lparr>edgeAgg := map_option finish_average \<circ> newAgg\<rparr>)"

section \<open>Lemmas\<close>

definition mean :: "float64 list \<Rightarrow> float64" where
  "mean vs = sum_list vs / real (length vs)"

lemma average_mean: "vs \<noteq> [] \<Longrightarrow> average vs = mean vs"
  by (simp add: average_def mean_def Let_def foldl_conv_fold fold_plus_sum_list_rev add.commute)

lemma collect_links:
  "fold collect_link vs Map.empty k =
     (let ws = filter (\<lambda>v. TargetIP v = k) vs
      in if ws = [] then None
         else Some \<lparr>PacketLosses = map PacketLoss ws, AverageLatencies = map AverageLatency ws,
                    first_task = Target (hd ws)\<rparr>)"
proof (induction vs rule: rev_induct)
  case (snoc v vs)
  then show ?case by (auto simp: collect_link_def Let_def)
qed simp

lemma agg_sum:
  "fold agg_add es m key =
     (let vs = map snd (filter (\<lambda>e. fst e = key) es); s = map_get \<lparr>Count = 0, SumRT = 0, AvgRT = 0, P95RT = 0\<rparr> m key
      in if vs = [] then m key
         else Some (s\<lparr>Count := Count s + (\<Sum>v\<leftarrow>vs. Count v), SumRT := SumRT s + (\<Sum>v\<leftarrow>vs. AvgRT v * of_int (Count v))\<rparr>))"
proof (induction es rule: rev_induct)
  case (snoc e es)
  obtain k v where e: "e = (k, v)" by fastforce
  show ?case
    using snoc.IH by (cases "k = key") (auto simp: e agg_add_def Let_def map_get_def)
qed (simp add: Let_def)

lemma weighted_sum_bounds:
  assumes "\<forall>v \<in> set vs. 0 \<le> Count v \<and> lo \<le> AvgRT v \<and> AvgRT v \<le> hi"
  shows "lo * of_int (\<Sum>v\<leftarrow>vs. Count v) \<le> (\<Sum>v\<leftarrow>vs. AvgRT v * of_int (Count v))"
    and "(\<Sum>v\<leftarrow>vs. AvgRT v * of_int (Count v)) \<le> hi * of_int (\<Sum>v\<leftarrow>vs. Count v)"
  using assms
proof (induction vs)
  case (Cons v vs)
  {
    case 1
    then have "lo * of_int (Count v) \<le> AvgRT v * of_int (Count v)" by (intro mult_right_mono) auto
    with Cons.IH(1) 1 show ?case by (simp add: ring_distribs)
  next
    case 2
    then have "AvgRT v * of_int (Count v) \<le> hi * of_int (Count v)" by (intro mult_right_mono) auto
    with Cons.IH(2) 2 show ?case by (simp add: ring_distribs)
  }
qed simp_all

section \<open>Properties\<close>

text \<open>The telemetry of a node has, for exactly the targets of the report, the arithmetic means of
  the losses and of the latencies reported for that target, and the probe task of the first entry.\<close>

lemma link_means:
  assumes "ws = filter (\<lambda>v. TargetIP v = k) (report_Links report)"
  shows "LinksCongestion (DoClusterWeightedAvg self report) k =
    (if ws = [] then None
     else Some \<lparr>TargetIP = k, Target = Target (hd ws), PacketLoss = mean (map PacketLoss ws),
                AverageLatency = mean (map AverageLatency ws)\<rparr>)"
  using assms by (simp add: DoClusterWeightedAvg_def collect_links link_average_def average_mean Let_def)

definition sample_link :: "float64 \<Rightarrow> LinkCongestion" where
  "sample_link l = \<lparr>TargetIP = ''b'', Target = \<lparr>TargetType = ''node'', task_Provider = '''', task_IP = ''b'',
     task_TargetPort = 0, task_Region = '''', task_ID = ''''\<rparr>, PacketLoss = 0, AverageLatency = l\<rparr>"

definition sample_node :: "string \<Rightarrow> (string \<rightharpoonup> LinkCongestion) \<Rightarrow> NodeTelemetry" where
  "sample_node ip links = \<lparr>PublicIP = ip, node_Provider = '''', node_Continent = '''', node_Country = '''',
     node_City = '''', CpuPressure = 20,
     Cpu = \<lparr>PhysicalCore = 1, LogicalCore = 1, Usage = 20, Load1Min = 0, LoadDelta = 0\<rparr>, LinksCongestion = links\<rparr>"

text \<open>What the entries with a key add up to, without an order.\<close>

definition total :: "(LastCongestion \<Rightarrow> 'a::comm_monoid_add) \<Rightarrow> GlobalStats \<Rightarrow> string \<Rightarrow> 'a" where
  "total f g key = (\<Sum>k \<in> dom (nodeLast g). let n = the (nodeLast g k)
     in \<Sum>u \<in> {u \<in> dom (LastsCongestion n). agg_key u (last_IP n) = key}. f (the (LastsCongestion n u)))"

lemma sum_list_concat_filter:
  "(\<Sum>x\<leftarrow>filter P (concat xss). f x) = (\<Sum>xs\<leftarrow>xss. \<Sum>x\<leftarrow>filter P xs. f x)"
  by (induction xss) auto

lemma entries_total:
  assumes "range_order (nodeLast g) nodes"
    and "\<forall>k n. nodeLast g k = Some n \<longrightarrow> range_order (LastsCongestion n) (users n)"
  shows "(\<Sum>v\<leftarrow>map snd (filter (\<lambda>e. fst e = key) (agg_entries (map (\<lambda>k. the (nodeLast g k)) nodes) users)). f v)
    = total f g key"
proof -
  let ?n = "\<lambda>k. the (nodeLast g k)"
  let ?us = "\<lambda>k. filter (\<lambda>u. agg_key u (last_IP (?n k)) = key) (users (?n k))"
  have one: "(\<Sum>u\<leftarrow>?us k. f (the (LastsCongestion (?n k) u)))
      = (\<Sum>u \<in> {u \<in> dom (LastsCongestion (?n k)). agg_key u (last_IP (?n k)) = key}. f (the (LastsCongestion (?n k) u)))"
    if "k \<in> set nodes" for k
  proof -
    have "range_order (LastsCongestion (?n k)) (users (?n k))"
      using assms that by (auto simp: range_order_def)
    then have us: "distinct (?us k)" "set (?us k) = {u \<in> dom (LastsCongestion (?n k)). agg_key u (last_IP (?n k)) = key}"
      by (auto simp: range_order_def)
    show ?thesis unfolding us(2) [symmetric] by (rule sum_list_distinct_conv_sum_set [OF us(1)])
  qed
  have "(\<Sum>v\<leftarrow>map snd (filter (\<lambda>e. fst e = key) (agg_entries (map ?n nodes) users)). f v)
      = (\<Sum>k\<leftarrow>nodes. \<Sum>u\<leftarrow>?us k. f (the (LastsCongestion (?n k) u)))"
    by (simp add: agg_entries_def sum_list_concat_filter filter_map o_def)
  also have "\<dots> = (\<Sum>k\<leftarrow>nodes. \<Sum>u \<in> {u \<in> dom (LastsCongestion (?n k)). agg_key u (last_IP (?n k)) = key}.
      f (the (LastsCongestion (?n k) u)))"
    using one by (intro arg_cong [of _ _ sum_list] map_cong) auto
  also have "\<dots> = total f g key"
    using assms(1) by (simp add: total_def range_order_def sum_list_distinct_conv_sum_set Let_def)
  finally show ?thesis .
qed

text \<open>C26. The aggregate of the edge nodes is a weighted mean, whatever the order in which the maps are
  iterated: under a key it has the sum of the request counts of all entries with that key, its
  average times its count is the sum of their response times, and the average lies between the
  smallest and the largest average it was made of.\<close>

theorem aggregate_weighted_mean:
  assumes nodes: "range_order (nodeLast g) nodes"
    and users: "\<forall>k n. nodeLast g k = Some n \<longrightarrow> range_order (LastsCongestion n) (users n)"
    and bounds: "\<forall>k n u v. nodeLast g k = Some n \<and> LastsCongestion n u = Some v \<and> agg_key u (last_IP n) = key
      \<longrightarrow> 0 \<le> Count v \<and> lo \<le> AvgRT v \<and> AvgRT v \<le> hi"
    and pos: "0 < total Count g key"
  shows "\<exists>s. edgeAgg (rebuildAggregate nodes users g) key = Some s \<and> Count s = total Count g key
    \<and> AvgRT s * of_int (Count s) = total (\<lambda>v. AvgRT v * of_int (Count v)) g key \<and> lo \<le> AvgRT s \<and> AvgRT s \<le> hi"
proof -
  let ?es = "agg_entries (map (\<lambda>k. the (nodeLast g k)) nodes) users"
  define vs where "vs = map snd (filter (\<lambda>e. fst e = key) ?es)"
  have c: "(\<Sum>v\<leftarrow>vs. Count v) = total Count g key"
    and t: "(\<Sum>v\<leftarrow>vs. AvgRT v * of_int (Count v)) = total (\<lambda>v. AvgRT v * of_int (Count v)) g key"
    unfolding vs_def by (rule entries_total [OF nodes users])+
  let ?c = "total Count g key" and ?t = "total (\<lambda>v. AvgRT v * of_int (Count v)) g key"
  have "vs \<noteq> []" using pos c by auto
  then have "fold agg_add ?es Map.empty key = Some \<lparr>Count = ?c, SumRT = ?t, AvgRT = 0, P95RT = 0\<rparr>"
    using agg_sum [of ?es Map.empty key] c t unfolding vs_def [symmetric] by (simp add: Let_def map_get_def)
  then have e: "edgeAgg (rebuildAggregate nodes users g) key = Some \<lparr>Count = ?c, SumRT = ?t, AvgRT = ?t / of_int ?c, P95RT = 0\<rparr>"
    using pos by (simp add: rebuildAggregate_def Let_def finish_average_def)
  have "\<forall>v \<in> set vs. 0 \<le> Count v \<and> lo \<le> AvgRT v \<and> AvgRT v \<le> hi"
  proof
    fix v assume "v \<in> set vs"
    then obtain k u where ku: "k \<in> set nodes" "u \<in> set (users (the (nodeLast g k)))"
      "agg_key u (last_IP (the (nodeLast g k))) = key" "v = the (LastsCongestion (the (nodeLast g k)) u)"
      by (auto simp: vs_def agg_entries_def)
    then obtain n where n: "nodeLast g k = Some n" using nodes by (auto simp: range_order_def)
    with users ku(2) obtain w where "LastsCongestion n u = Some w" by (fastforce simp: range_order_def)
    with bounds n ku show "0 \<le> Count v \<and> lo \<le> AvgRT v \<and> AvgRT v \<le> hi" by auto
  qed
  from weighted_sum_bounds [OF this] have "lo \<le> ?t / of_int ?c" "?t / of_int ?c \<le> hi"
    using pos unfolding c t by (simp_all add: le_divide_eq divide_le_eq)
  with e pos show ?thesis by simp
qed

definition sample_stats :: GlobalStats where
  "sample_stats = \<lparr>nodeLast = [''n'' \<mapsto> \<lparr>LastsCongestion = [''paris'' \<mapsto> \<lparr>Count = 4, SumRT = 0, AvgRT = 25, P95RT = 0\<rparr>],
     last_IP = ''n'', last_Continent = '''', last_Country = '''', last_City = ''''\<rparr>], edgeAgg = Map.empty\<rparr>"

theorem aggregate_weighted_mean_witness:
  "range_order (nodeLast sample_stats) [''n''] \<and> 0 < total Count sample_stats ''paris-n'' \<and>
   (\<exists>s. edgeAgg (rebuildAggregate [''n''] (\<lambda>n. [''paris'']) sample_stats) ''paris-n'' = Some s
      \<and> Count s = total Count sample_stats ''paris-n'' \<and> 20 \<le> AvgRT s \<and> AvgRT s \<le> 30)"
proof -
  have 1: "range_order (nodeLast sample_stats) [''n'']"
    "\<forall>k n. nodeLast sample_stats k = Some n \<longrightarrow> range_order (LastsCongestion n) [''paris'']"
    by (auto simp: range_order_def sample_stats_def split: if_splits)
  have set: "{u. u = ''paris'' \<and> agg_key u ''n'' = ''paris-n''} = {''paris''}" by (auto simp: agg_key_def)
  have 2: "0 < total Count sample_stats ''paris-n''"
    by (simp add: total_def sample_stats_def set)
  have 3: "\<forall>k n u v. nodeLast sample_stats k = Some n \<and> LastsCongestion n u = Some v \<and> agg_key u (last_IP n) = ''paris-n''
      \<longrightarrow> 0 \<le> Count v \<and> 20 \<le> AvgRT v \<and> AvgRT v \<le> 30"
    by (auto simp: sample_stats_def split: if_splits)
  show ?thesis using aggregate_weighted_mean [OF 1(1) _ 3 2, of "\<lambda>n. [''paris'']"] 1 2 by blast
qed

end
