(* ===== verification/Graph_Manager.thy ===== *)
theory Graph_Manager
  imports Telemetry Go_Machine
begin

text \<open>
  The graph of the network (control-plane/routing/graph/update-graph.go): nodes by address and
  directed edges by \<open>source->destination\<close>, updated from node telemetry, with the risk function
  that weighs an edge. The logger is left out, and so is the lock, which makes every operation
  one step. \<open>GetEdges\<close> lists the edges in the iteration order of the map, a parameter.

  Shown: weights are not negative, every edge starts at a known node and ends at a known node or
  at an origin server, removal leaves no edge of the node, and what an update does and does not
  change.
\<close>

record Edge =
  SourceIp :: string
  DestinationIp :: string
  EdgeWeight :: float64
  Load :: float64
  Latency :: float64
  Loss :: float64

record GraphManager =
  edges :: "string \<rightharpoonup> Edge"
  nodes :: "string \<rightharpoonup> NodeTelemetry"

definition NewGraphManager :: GraphManager where
  "NewGraphManager = \<lparr>edges = Map.empty, nodes = Map.empty\<rparr>"

definition UpdateWeight :: "float64 \<Rightarrow> Edge \<Rightarrow> Edge" where
  "UpdateWeight newWeight e = e\<lparr>EdgeWeight := newWeight\<rparr>"

definition GetNode :: "string \<Rightarrow> GraphManager \<Rightarrow> NodeTelemetry option" where
  "GetNode i g = nodes g i"

definition GetNodes :: "GraphManager \<Rightarrow> (string \<rightharpoonup> NodeTelemetry)" where
  "GetNodes g = nodes g"

definition GetEdges :: "string list \<Rightarrow> GraphManager \<Rightarrow> Edge list" where
  "GetEdges ks g = map (\<lambda>k. the (edges g k)) ks"

definition GetEdge :: "string \<Rightarrow> GraphManager \<Rightarrow> Edge option" where
  "GetEdge edgeID g = edges g edgeID"

definition RemoveNode :: "string \<Rightarrow> GraphManager \<Rightarrow> GraphManager" where
  "RemoveNode i g =
     g\<lparr>nodes := (nodes g)(i := None),
       edges := (\<lambda>key. case edges g key of
                          None \<Rightarrow> None
                        | Some e \<Rightarrow> if SourceIp e = i \<or> DestinationIp e = i then None else Some e)\<rparr>"

text \<open>\<open>math.Pow\<close> on non-negative bases is \<open>powr\<close>; the weight of the loss term is 0.\<close>

definition EdgeRisk :: "float64 \<Rightarrow> float64 \<Rightarrow> float64 \<Rightarrow> float64" where
  "EdgeRisk cpuPressure loss latency =
     (let cpuMax = 60; cpuPower = 2; lossInflection = 0.05; lossSharpness = 40;
          latencyMax = 150; latPower = 1.5; wCPU = 0.5; wLoss = 0; wLat = 0.5;
          cpuRisk = (if cpuPressure < 50 then 0 else (cpuPressure / cpuMax) powr cpuPower);
          lossRisk = (if loss \<ge> 1 then 1 else if loss \<le> 0 then 0
                      else 1 / (1 + exp (- lossSharpness * (loss - lossInflection))));
          latRatio = latency / latencyMax;
          latRatio = (if latRatio < 0 then 0 else latRatio);
          latRisk = latRatio powr latPower
      in wCPU * cpuRisk + wLoss * lossRisk + wLat * latRisk)"

definition edge_line :: "string \<Rightarrow> string \<Rightarrow> string" where
  "edge_line a b = a @ ''->'' @ b"

text \<open>\<open>strconv.Itoa\<close> of a port, which may be any int.\<close>

definition itoa_int :: "int \<Rightarrow> string" where
  "itoa_int n = (if n < 0 then ''-'' @ itoa (nat (- n)) else itoa (nat n))"

text \<open>The destination, the risk and the load of a link; None where the loop continues.\<close>

definition link_edge :: "(string \<rightharpoonup> NodeTelemetry) \<Rightarrow> LinkCongestion \<Rightarrow> (string \<times> float64 \<times> float64) option" where
  "link_edge ns v =
     (if TargetType (Target v) = ''source''
      then Some (task_IP (Target v) @ '':'' @ itoa_int (task_TargetPort (Target v)),
                 EdgeRisk 0 (PacketLoss v) (AverageLatency v), 0)
      else case ns (task_IP (Target v)) of
             None \<Rightarrow> None
           | Some outNode \<Rightarrow> Some (task_IP (Target v), EdgeRisk (CpuPressure outNode) (PacketLoss v) (AverageLatency v),
                                    CpuPressure outNode))"

definition add_link :: "string \<Rightarrow> LinkCongestion \<Rightarrow> GraphManager \<Rightarrow> GraphManager" where
  "add_link inp v g =
     (case link_edge (nodes g) v of
        None \<Rightarrow> g
      | Some (out, r, load) \<Rightarrow>
          let newLine = edge_line inp out
          in case edges g newLine of
               Some oldLine \<Rightarrow> g\<lparr>edges := (edges g)(newLine \<mapsto> oldLine\<lparr>EdgeWeight := r\<rparr>)\<rparr>
             | None \<Rightarrow> g\<lparr>edges := (edges g)(newLine \<mapsto>
                  \<lparr>SourceIp = inp, DestinationIp = out, EdgeWeight = r, Load = load,
                   Latency = AverageLatency v, Loss = 0\<rparr>)\<rparr>)"

text \<open>\<open>ks\<close> is the order in which the links of the node are iterated.\<close>

definition AddNode :: "NodeTelemetry \<Rightarrow> string list \<Rightarrow> GraphManager \<Rightarrow> GraphManager" where
  "AddNode node ks g =
     fold (\<lambda>k. add_link (PublicIP node) (the (LinksCongestion node k))) ks
       (g\<lparr>nodes := (nodes g)(PublicIP node \<mapsto> node)\<rparr>)"

section \<open>The risk of an edge\<close>

lemma EdgeRisk_eq:
  "EdgeRisk cpu loss lat =
     0.5 * (if cpu < 50 then 0 else (cpu / 60) powr 2) + 0.5 * (if lat < 0 then 0 else lat / 150) powr 1.5"
  by (simp add: EdgeRisk_def Let_def)

lemma EdgeRisk_nonneg: "0 \<le> EdgeRisk cpu loss lat"
  by (simp add: EdgeRisk_eq)

lemma EdgeRisk_mono:
  assumes "cpu \<le> cpu'" "lat \<le> lat'"
  shows "EdgeRisk cpu loss lat \<le> EdgeRisk cpu' loss' lat'"
proof -
  have "(if cpu < 50 then 0 else (cpu / 60) powr 2) \<le> (if cpu' < 50 then 0 else (cpu' / 60) powr 2)"
    using assms(1) by (auto intro!: powr_mono2)
  moreover have "(if lat < 0 then 0 else lat / 150) powr 1.5 \<le> (if lat' < 0 then 0 else lat' / 150) powr 1.5"
    using assms(2) by (intro powr_mono2) auto
  ultimately show ?thesis unfolding EdgeRisk_eq by linarith
qed

section \<open>The invariant of the graph\<close>

definition is_origin :: "string \<Rightarrow> bool" where
  "is_origin s \<longleftrightarrow> (\<exists>ip port. s = ip @ '':'' @ itoa_int port)"

definition edge_ok :: "GraphManager \<Rightarrow> string \<Rightarrow> Edge \<Rightarrow> bool" where
  "edge_ok g key e \<longleftrightarrow> key = edge_line (SourceIp e) (DestinationIp e) \<and> 0 \<le> EdgeWeight e
     \<and> SourceIp e \<in> dom (nodes g) \<and> (DestinationIp e \<in> dom (nodes g) \<or> is_origin (DestinationIp e))"

definition graph_ok :: "GraphManager \<Rightarrow> bool" where
  "graph_ok g \<longleftrightarrow> (\<forall>key e. edges g key = Some e \<longrightarrow> edge_ok g key e)"

lemma graph_ok_init: "graph_ok NewGraphManager"
  by (simp add: graph_ok_def NewGraphManager_def)

lemma RemoveNode_ok: "graph_ok g \<Longrightarrow> graph_ok (RemoveNode i g)"
  by (auto simp: graph_ok_def RemoveNode_def edge_ok_def split: option.splits if_splits)

lemma link_edge_ok:
  "link_edge ns v = Some (out, r, load) \<Longrightarrow> 0 \<le> r \<and> (out \<in> dom ns \<or> is_origin out)"
  by (auto simp: link_edge_def is_origin_def EdgeRisk_nonneg split: if_splits option.splits)

lemma add_link_ok:
  assumes "graph_ok g" "inp \<in> dom (nodes g)"
  shows "graph_ok (add_link inp v g) \<and> nodes (add_link inp v g) = nodes g"
proof (cases "link_edge (nodes g) v")
  case (Some l)
  obtain out r load where l: "l = (out, r, load)" by (metis prod_cases3)
  note ok = link_edge_ok [OF Some [unfolded l]]
  show ?thesis
    using assms ok Some l
    by (auto simp: add_link_def Let_def graph_ok_def edge_ok_def split: option.splits)
qed (use assms in \<open>simp add: add_link_def\<close>)

lemma add_links_ok:
  "graph_ok g \<Longrightarrow> inp \<in> dom (nodes g) \<Longrightarrow> graph_ok (fold (\<lambda>k. add_link inp (f k)) ks g)
     \<and> nodes (fold (\<lambda>k. add_link inp (f k)) ks g) = nodes g"
proof (induction ks arbitrary: g)
  case (Cons k ks)
  note step = add_link_ok [OF Cons.prems, of "f k"]
  then have "inp \<in> dom (nodes (add_link inp (f k) g))" using Cons.prems(2) by simp
  with Cons.IH [OF conjunct1 [OF step]] step show ?case by simp
qed simp

lemma AddNode_ok: "graph_ok g \<Longrightarrow> graph_ok (AddNode node ks g)"
  unfolding AddNode_def
  by (intro conjunct1 [OF add_links_ok]) (auto simp: graph_ok_def edge_ok_def)

lemma AddNode_nodes: "graph_ok g \<Longrightarrow> nodes (AddNode node ks g) = (nodes g)(PublicIP node \<mapsto> node)"
proof -
  assume g: "graph_ok g"
  let ?g = "g\<lparr>nodes := (nodes g)(PublicIP node \<mapsto> node)\<rparr>"
  have "graph_ok ?g" using g by (auto simp: graph_ok_def edge_ok_def)
  then have "nodes (fold (\<lambda>k. add_link (PublicIP node) (the (LinksCongestion node k))) ks ?g) = nodes ?g"
    by (intro conjunct2 [OF add_links_ok]) auto
  then show ?thesis by (simp add: AddNode_def)
qed

text \<open>Existing edges keep everything but their weight.\<close>

lemma weight_same: "\<exists>r. e = e\<lparr>EdgeWeight := r\<rparr>"
  by (rule exI [of _ "EdgeWeight e"]) simp

lemma add_link_keeps:
  assumes "edges g key = Some e"
  shows "\<exists>r. edges (add_link inp v g) key = Some (e\<lparr>EdgeWeight := r\<rparr>)"
proof -
  note same = weight_same [of e]
  show ?thesis
  proof (cases "link_edge (nodes g) v")
    case (Some l)
    then show ?thesis
      using assms same by (cases l) (auto simp: add_link_def Let_def split: option.splits)
  qed (use assms same in \<open>simp add: add_link_def\<close>)
qed

lemma add_links_keep:
  "edges g key = Some e \<Longrightarrow> \<exists>r. edges (fold (\<lambda>k. add_link inp (f k)) ks g) key = Some (e\<lparr>EdgeWeight := r\<rparr>)"
proof (induction ks arbitrary: g e)
  case (Cons k ks)
  from add_link_keeps [OF Cons.prems, of inp "f k"] obtain r where
    "edges (add_link inp (f k) g) key = Some (e\<lparr>EdgeWeight := r\<rparr>)" by blast
  from Cons.IH [OF this] show ?case by auto
qed (simp add: weight_same)

section \<open>Updates as a machine\<close>

datatype graph_event =
    AddE NodeTelemetry "string list"
  | RemoveE string

fun graph_step :: "graph_event \<Rightarrow> GraphManager \<Rightarrow> GraphManager go" where
  "graph_step (AddE node ks) g = Inr (AddNode node ks g)"
| "graph_step (RemoveE i) g = Inr (RemoveNode i g)"

interpretation gm: state_machine graph_step "\<lambda>e. True" graph_ok
proof
  show "\<exists>g'. graph_step e g = Inr g' \<and> graph_ok g'" if "graph_ok g" for g e
    using that AddNode_ok RemoveNode_ok by (cases e) auto
qed

section \<open>Properties\<close>

text \<open>C9. The graph stays sound under every sequence of telemetry updates and removals: an edge is
  stored under its own endpoints, its weight is not negative, it starts at a known node and ends
  at a known node or at an origin server.\<close>

theorem graph_sound:
  "\<exists>g. go_run graph_step es NewGraphManager = Inr g \<and> graph_ok g"
  using gm.run_inv [OF graph_ok_init, of es] by (simp add: list_all_iff)

text \<open>Removing a node removes it and every edge that touches it, and nothing else.\<close>

lemma RemoveNode_spec:
  "GetNode j (RemoveNode i g) = (if j = i then None else GetNode j g) \<and>
   (GetEdge key (RemoveNode i g) = Some e \<longleftrightarrow> GetEdge key g = Some e \<and> SourceIp e \<noteq> i \<and> DestinationIp e \<noteq> i)"
  by (auto simp: GetNode_def GetEdge_def RemoveNode_def split: option.splits)

text \<open>The risk of an edge is not negative and grows with the load of the target and with the
  latency; the packet loss has no influence on it.\<close>

lemma EdgeRisk_monotone:
  assumes "cpu \<le> cpu'" "lat \<le> lat'"
  shows "0 \<le> EdgeRisk cpu loss lat \<and> EdgeRisk cpu loss lat \<le> EdgeRisk cpu' loss' lat'"
  using EdgeRisk_nonneg EdgeRisk_mono [OF assms] by blast



text \<open>An update never changes the latency or the load of an edge that exists: whatever a node
  reports about its links, the solvers that read the latency work with its first measurement.\<close>

lemma AddNode_stale_latency:
  assumes "GetEdge key g = Some e"
  shows "\<exists>e'. GetEdge key (AddNode node ks g) = Some e' \<and> Latency e' = Latency e \<and> Load e' = Load e"
proof -
  have "edges (g\<lparr>nodes := (nodes g)(PublicIP node \<mapsto> node)\<rparr>) key = Some e" using assms by (simp add: GetEdge_def)
  from add_links_keep [OF this, of "PublicIP node" "\<lambda>k. the (LinksCongestion node k)" ks] show ?thesis
    by (auto simp: GetEdge_def AddNode_def)
qed

definition sample_graph :: GraphManager where
  "sample_graph = AddNode (sample_node ''a'' [''b'' \<mapsto> sample_link 10]) [''b'']
     (AddNode (sample_node ''b'' Map.empty) [] NewGraphManager)"

lemma AddNode_stale_latency_witness:
  "\<exists>e e'. GetEdge ''a->b'' sample_graph = Some e \<and> Latency e = 10 \<and>
     GetEdge ''a->b'' (AddNode (sample_node ''a'' [''b'' \<mapsto> sample_link 900]) [''b''] sample_graph) = Some e' \<and> Latency e' = 10"
proof -
  obtain e where "GetEdge ''a->b'' sample_graph = Some e" "Latency e = 10"
    by (simp add: sample_graph_def AddNode_def add_link_def link_edge_def edge_line_def GetEdge_def
        NewGraphManager_def sample_node_def sample_link_def)
  with AddNode_stale_latency [of "''a->b''" sample_graph e "sample_node ''a'' [''b'' \<mapsto> sample_link 900]" "[''b'']"]
  show ?thesis by auto
qed

end
