(* ===== verification/Go_Float.thy ===== *)
theory Go_Float
  imports Go_Prelude
begin

text \<open>
  Floats that may be \<open>math.Inf(1)\<close>, as the tables of distances of the solvers hold them: ordered
  with infinity on top, and added to finite numbers.
\<close>

datatype xfloat = Fin float64 | Inf

instantiation xfloat :: linorder
begin

definition less_eq_xfloat :: "xfloat \<Rightarrow> xfloat \<Rightarrow> bool" where
  "less_eq_xfloat a b = (case b of Inf \<Rightarrow> True | Fin y \<Rightarrow> (case a of Inf \<Rightarrow> False | Fin x \<Rightarrow> x \<le> y))"

definition less_xfloat :: "xfloat \<Rightarrow> xfloat \<Rightarrow> bool" where
  "less_xfloat a b = (case a of Inf \<Rightarrow> False | Fin x \<Rightarrow> (case b of Inf \<Rightarrow> True | Fin y \<Rightarrow> x < y))"

instance
  by standard (auto simp: less_eq_xfloat_def less_xfloat_def split: xfloat.splits)

end

instantiation xfloat :: plus
begin

definition plus_xfloat :: "xfloat \<Rightarrow> xfloat \<Rightarrow> xfloat" where
  "plus_xfloat a b = (case a of Inf \<Rightarrow> Inf | Fin x \<Rightarrow> (case b of Inf \<Rightarrow> Inf | Fin y \<Rightarrow> Fin (x + y)))"

instance ..

end

lemma xfloat_simps [simp]:
  "Fin x \<le> Fin y \<longleftrightarrow> x \<le> y" "Fin x < Fin y \<longleftrightarrow> x < y" "a \<le> Inf" "\<not> Inf \<le> Fin x" "Fin x < Inf" "\<not> Inf < a"
  "Fin x + Fin y = Fin (x + y)" "Inf + a = Inf" "a + Inf = Inf"
  by (auto simp: less_eq_xfloat_def less_xfloat_def plus_xfloat_def split: xfloat.splits)

text \<open>Reading a value that is known to be finite.\<close>

definition float_of :: "xfloat \<Rightarrow> float64" where
  "float_of a = (case a of Fin x \<Rightarrow> x | Inf \<Rightarrow> 0)"

lemma float_of_Fin [simp]: "float_of (Fin x) = x"
  by (simp add: float_of_def)

end
