(* ===== verification/K_Shortest.thy ===== *)
theory K_Shortest
  imports Graph_Manager Go_Heap Go_Float Route_Info "HOL-Library.AList"
begin

text \<open>
  The k shortest paths of control-plane/routing/core-domain/k-shortest.go: a Dijkstra search with
  a heap (\<open>findShortestPath\<close>) and Yen's algorithm on top of it (\<open>yensAlgorithm\<close>).

  The adjacency map is an association list (its order is never observed). The two loops that
  need not end on every graph carry fuel: the search returns None without it, and so does
  following the predecessors. The lemmas show that on graphs without negative weights the fuel
  the definitions use is enough, that the path returned is a simple path of the graph from
  start to end with its cost, and that a path is found whenever there is one.
\<close>

section \<open>Data\<close>

record KShortestSolver =
  ks_edges :: "Edge list"
  alpha :: float64
  ks_k :: int
  useLatency :: bool

record Path =
  path_hops :: "string list"
  path_cost :: float64
  path_rawRTT :: xfloat

record PQNode =
  pq_node :: string
  pq_cost :: float64
  pq_rawRTT :: xfloat
  pq_index :: int

type_synonym adjacency = "(string \<times> Edge list) list"

definition NewKShortestSolverWithLatency :: "Edge list \<Rightarrow> int \<Rightarrow> bool \<Rightarrow> KShortestSolver" where
  "NewKShortestSolverWithLatency es k lat =
     \<lparr>ks_edges = es, alpha = 1, ks_k = (if k \<le> 0 then 5 else k), useLatency = lat\<rparr>"

definition NewKShortestSolver :: "Edge list \<Rightarrow> int \<Rightarrow> KShortestSolver" where
  "NewKShortestSolver es k = NewKShortestSolverWithLatency es k False"

text \<open>\<open>graph_[src]\<close>, nil when there is no entry.\<close>

definition adj :: "adjacency \<Rightarrow> string \<Rightarrow> Edge list" where
  "adj G s = map_get [] (map_of G) s"

definition add_edge :: "Edge \<Rightarrow> adjacency \<Rightarrow> adjacency" where
  "add_edge e G = AList.update (SourceIp e) (adj G (SourceIp e) @ [e]) G"

definition build_graph :: "Edge list \<Rightarrow> adjacency" where
  "build_graph es = fold add_edge es []"

definition graph_nodes :: "Edge list \<Rightarrow> string list" where
  "graph_nodes es = concat (map (\<lambda>e. [SourceIp e, DestinationIp e]) es)"

section \<open>The priority queue\<close>

definition pq_upd :: "int \<Rightarrow> PQNode \<Rightarrow> PQNode" where
  "pq_upd i x = x\<lparr>pq_index := i\<rparr>"

definition pq_core :: "PQNode \<Rightarrow> string \<times> float64 \<times> xfloat" where
  "pq_core x = (pq_node x, pq_cost x, pq_rawRTT x)"

interpretation pq: heap_item pq_cost pq_upd pq_index pq_core
  by unfold_locales (simp_all add: pq_upd_def pq_core_def)

abbreviation pq_push :: "PQNode \<Rightarrow> PQNode list \<Rightarrow> PQNode list" where
  "pq_push \<equiv> heap_push pq_cost pq_upd"

section \<open>findShortestPath\<close>

record search =
  dist :: "string \<rightharpoonup> xfloat"
  raw :: "string \<rightharpoonup> xfloat"
  prev :: "string \<rightharpoonup> string"
  queue :: "PQNode list"

text \<open>A map read of a missing key gives 0, also for the distance.\<close>

abbreviation get_dist :: "search \<Rightarrow> string \<Rightarrow> xfloat" where
  "get_dist st n \<equiv> map_get (Fin 0) (dist st) n"

abbreviation get_raw :: "search \<Rightarrow> string \<Rightarrow> xfloat" where
  "get_raw st n \<equiv> map_get (Fin 0) (raw st) n"

definition edge_cost :: "KShortestSolver \<Rightarrow> Edge \<Rightarrow> float64" where
  "edge_cost ks e = (if useLatency ks then Latency e * alpha ks else EdgeWeight e * alpha ks)"

definition all_nodes :: "adjacency \<Rightarrow> string list" where
  "all_nodes G = map fst G @ concat (map (\<lambda>(s, es). map DestinationIp es) G)"

definition init_search :: "adjacency \<Rightarrow> string \<Rightarrow> search" where
  "init_search G start =
     \<lparr>dist = (\<lambda>n. if n \<in> set (all_nodes G) then Some Inf else None)(start \<mapsto> Fin 0),
      raw = (\<lambda>n. if n \<in> set (all_nodes G) then Some Inf else None)(start \<mapsto> Fin 0),
      prev = Map.empty,
      queue = pq_push \<lparr>pq_node = start, pq_cost = 0, pq_rawRTT = Fin 0, pq_index = 0\<rparr> []\<rparr>"

definition relax :: "KShortestSolver \<Rightarrow> string list \<Rightarrow> string list \<Rightarrow> string \<Rightarrow> float64 \<Rightarrow> Edge \<Rightarrow> search \<Rightarrow> search" where
  "relax ks forbiddenNodes forbiddenEdges currNode currCost e st =
     (if DestinationIp e \<in> set forbiddenNodes then st
      else if edge_line currNode (DestinationIp e) \<in> set forbiddenEdges then st
      else
        let nextNode = DestinationIp e;
            newCost = currCost + edge_cost ks e;
            newRTT = get_raw st currNode + Fin (Latency e)
        in if Fin newCost < get_dist st nextNode
           then st\<lparr>dist := (dist st)(nextNode \<mapsto> Fin newCost), raw := (raw st)(nextNode \<mapsto> newRTT),
                   prev := (prev st)(nextNode \<mapsto> currNode),
                   queue := pq_push \<lparr>pq_node = nextNode, pq_cost = newCost, pq_rawRTT = Fin 0, pq_index = 0\<rparr> (queue st)\<rparr>
           else st)"

text \<open>The loop \<open>for node := end; node != ""; node = prev[node]\<close>; a missing predecessor reads "".\<close>

fun follow_prev :: "nat \<Rightarrow> (string \<rightharpoonup> string) \<Rightarrow> string \<Rightarrow> string list \<Rightarrow> string list option" where
  "follow_prev 0 p node path = None"
| "follow_prev (Suc n) p node path =
     (if node = '''' then Some path else follow_prev n p (map_get '''' p node) (node # path))"

fun removeConsecutiveDuplicates :: "string list \<Rightarrow> string list" where
  "removeConsecutiveDuplicates (x # y # ys) =
     (if x = y then removeConsecutiveDuplicates (y # ys) else x # removeConsecutiveDuplicates (y # ys))"
| "removeConsecutiveDuplicates hs = hs"

definition no_path :: "string \<Rightarrow> string \<Rightarrow> string" where
  "no_path start end' = ''no path found from '' @ start @ '' to '' @ end'"

fun search_loop :: "nat \<Rightarrow> nat \<Rightarrow> KShortestSolver \<Rightarrow> adjacency \<Rightarrow> string list \<Rightarrow> string list \<Rightarrow> string \<Rightarrow> string
    \<Rightarrow> search \<Rightarrow> Path result option" where
  "search_loop 0 m ks G fN fE start end' st = None"
| "search_loop (Suc n) m ks G fN fE start end' st =
     (case heap_pop pq_cost pq_upd (queue st) of
        Inl e \<Rightarrow> Some (Inl (no_path start end'))
      | Inr (u, q) \<Rightarrow>
          let st = st\<lparr>queue := q\<rparr>; currNode = pq_node u; currCost = pq_cost u
          in if get_dist st currNode < Fin currCost then search_loop n m ks G fN fE start end' st
             else if currNode = end'
             then map_option (\<lambda>path. Inr \<lparr>path_hops = removeConsecutiveDuplicates path, path_cost = currCost,
                                            path_rawRTT = get_raw st end'\<rparr>)
                    (follow_prev m (prev st) end' [])
             else if get_dist st end' \<noteq> Inf then search_loop n m ks G fN fE start end' st
             else search_loop n m ks G fN fE start end' (fold (relax ks fN fE currNode currCost) (adj G currNode) st))"

text \<open>
  The fuel: an iteration pops an entry, and a node is expanded once, so that there are no more
  iterations than edges and two; a path has no more nodes than the graph and the start.
\<close>

definition search_fuel :: "adjacency \<Rightarrow> nat" where
  "search_fuel G = sum_list (map (\<lambda>(s, es). length es) G) + 2"

definition path_fuel :: "adjacency \<Rightarrow> nat" where
  "path_fuel G = length (all_nodes G) + 2"

definition findShortestPath :: "KShortestSolver \<Rightarrow> string \<Rightarrow> string \<Rightarrow> adjacency \<Rightarrow> string list \<Rightarrow> string list
    \<Rightarrow> Path result option" where
  "findShortestPath ks start end' G forbiddenNodes forbiddenEdges =
     search_loop (search_fuel G) (path_fuel G) ks G forbiddenNodes forbiddenEdges start end' (init_search G start)"

section \<open>Walks and the assumptions on a graph\<close>

definition arc :: "adjacency \<Rightarrow> string list \<Rightarrow> string list \<Rightarrow> string \<Rightarrow> Edge \<Rightarrow> string \<Rightarrow> bool" where
  "arc G fN fE u e v \<longleftrightarrow> e \<in> set (adj G u) \<and> DestinationIp e = v \<and> v \<notin> set fN \<and> edge_line u v \<notin> set fE"

fun walk :: "adjacency \<Rightarrow> string list \<Rightarrow> string list \<Rightarrow> string \<Rightarrow> Edge list \<Rightarrow> string \<Rightarrow> bool" where
  "walk G fN fE s [] t = (s = t)"
| "walk G fN fE s (e # es) t = (arc G fN fE s e (DestinationIp e) \<and> walk G fN fE (DestinationIp e) es t)"

definition walk_hops :: "string \<Rightarrow> Edge list \<Rightarrow> string list" where
  "walk_hops s es = s # map DestinationIp es"

definition walk_cost :: "KShortestSolver \<Rightarrow> Edge list \<Rightarrow> float64" where
  "walk_cost ks es = sum_list (map (edge_cost ks) es)"

definition walk_rtt :: "Edge list \<Rightarrow> float64" where
  "walk_rtt es = sum_list (map Latency es)"

text \<open>Weights are not negative, no node has the empty name, an entry is stored once.\<close>

definition good_graph :: "KShortestSolver \<Rightarrow> adjacency \<Rightarrow> bool" where
  "good_graph ks G \<longleftrightarrow> (\<forall>u. \<forall>e \<in> set (adj G u). 0 \<le> edge_cost ks e)
     \<and> '''' \<notin> set (all_nodes G) \<and> distinct (map fst G)"

lemma walk_snoc: "walk G fN fE s (es @ [e]) t \<longleftrightarrow> (\<exists>u. walk G fN fE s es u \<and> arc G fN fE u e t)"
  by (induction es arbitrary: s) (auto simp: arc_def)

lemma walk_hops_snoc: "walk_hops s (es @ [e]) = walk_hops s es @ [DestinationIp e]"
  by (simp add: walk_hops_def)

lemma adj_all_nodes:
  assumes "e \<in> set (adj G u)"
  shows "u \<in> set (all_nodes G) \<and> DestinationIp e \<in> set (all_nodes G)"
proof -
  obtain es where "map_of G u = Some es" "e \<in> set es"
    using assms by (cases "map_of G u") (auto simp: adj_def)
  then have "(u, es) \<in> set G" "e \<in> set es" by (auto dest: map_of_SomeD)
  then show ?thesis unfolding all_nodes_def by (auto intro: rev_image_eqI)
qed

section \<open>The invariant of the search\<close>

text \<open>The entries of the queue, as pairs.\<close>

definition entries :: "search \<Rightarrow> (string \<times> float64) multiset" where
  "entries st = image_mset (\<lambda>(n, c, r). (n, c)) (mset (map pq_core (queue st)))"

definition fin_dist :: "search \<Rightarrow> string \<Rightarrow> float64 \<Rightarrow> bool" where
  "fin_dist st n d \<longleftrightarrow> dist st n = Some (Fin d)"

text \<open>
  \<open>xs\<close> are the nodes expanded so far, in order; \<open>b\<close> bounds the costs in the queue from below.
  The predecessor of a node is an expanded node, and that of an expanded node was expanded
  before it.
\<close>

definition tree_inv :: "KShortestSolver \<Rightarrow> adjacency \<Rightarrow> string list \<Rightarrow> string list \<Rightarrow> string
    \<Rightarrow> string list \<Rightarrow> float64 \<Rightarrow> search \<Rightarrow> bool" where
  "tree_inv ks G fN fE s xs b st \<longleftrightarrow>
     fin_dist st s 0 \<and> raw st s = Some (Fin 0) \<and> prev st s = None \<and> 0 \<le> b
     \<and> distinct xs \<and> (xs \<noteq> [] \<longrightarrow> hd xs = s)
     \<and> (\<forall>u \<in> set xs. \<exists>d. fin_dist st u d \<and> d \<le> b)
     \<and> (\<forall>n d. fin_dist st n d \<longrightarrow> n = s \<or> prev st n \<noteq> None)
     \<and> (\<forall>n m. prev st n = Some m \<longrightarrow> n \<noteq> s \<and> m \<in> set xs \<and>
          (\<exists>e d r. arc G fN fE m e n \<and> fin_dist st m d \<and> fin_dist st n (d + edge_cost ks e)
             \<and> raw st m = Some (Fin r) \<and> raw st n = Some (Fin (r + Latency e))))
     \<and> (\<forall>i < length xs. \<forall>m. prev st (xs ! i) = Some m \<longrightarrow> m \<in> set (take i xs))
     \<and> (\<forall>u. \<forall>e \<in> set (adj G u). dist st (DestinationIp e) \<noteq> None)"

definition queue_inv :: "string \<Rightarrow> string list \<Rightarrow> float64 \<Rightarrow> search \<Rightarrow> bool" where
  "queue_inv t xs b st \<longleftrightarrow>
     heap_ok pq_cost (queue st) \<and> t \<notin> set xs
     \<and> (\<forall>(n, c) \<in># entries st. b \<le> c \<and> (\<exists>d. fin_dist st n d \<and> d \<le> c))
     \<and> (\<forall>n d. fin_dist st n d \<longrightarrow> count (entries st) (n, d) \<le> (if n \<in> set xs then 0 else 1))
     \<and> (\<forall>n d. fin_dist st n d \<longrightarrow> n \<notin> set xs \<longrightarrow> dist st t = Some Inf \<or> n = t \<longrightarrow> (n, d) \<in># entries st)"

text \<open>The arcs out of the expanded nodes have been used.\<close>

definition closed_inv :: "KShortestSolver \<Rightarrow> adjacency \<Rightarrow> string list \<Rightarrow> string list \<Rightarrow> string list \<Rightarrow> search \<Rightarrow> bool" where
  "closed_inv ks G fN fE xs st \<longleftrightarrow> (\<forall>u \<in> set xs. \<forall>e v. arc G fN fE u e v \<longrightarrow> (\<exists>d. fin_dist st v d))"

lemma entries_pop:
  assumes "heap_pop pq_cost pq_upd (queue st) = Inr (u, q)"
  shows "entries st = add_mset (pq_node u, pq_cost u) (entries (st\<lparr>queue := q\<rparr>))"
  using pq.pop_spec(1) [OF assms] by (simp add: entries_def pq_core_def)

lemma entries_push:
  "entries (st\<lparr>queue := pq_push x (queue st)\<rparr>) = add_mset (pq_node x, pq_cost x) (entries st)"
  by (simp add: entries_def pq.push_core [unfolded mset_map] pq_core_def)

lemma entries_frame [simp]:
  "entries (st\<lparr>dist := a\<rparr>) = entries st" "entries (st\<lparr>raw := b\<rparr>) = entries st" "entries (st\<lparr>prev := c\<rparr>) = entries st"
  by (simp_all add: entries_def)

lemma pop_minimal:
  assumes "heap_pop pq_cost pq_upd (queue st) = Inr (u, q)" "heap_ok pq_cost (queue st)" "(n, c) \<in># entries st"
  shows "pq_cost u \<le> c"
proof -
  obtain x where "x \<in> set (queue st)" "pq_cost x = c"
    using assms(3) by (auto simp: entries_def pq_core_def)
  with pq.pop_spec(6) [OF assms(1,2)] show ?thesis by blast
qed

lemma init_inv:
  assumes "good_graph ks G"
  shows "tree_inv ks G fN fE s [] 0 (init_search G s)" "queue_inv t [] 0 (init_search G s)"
    "closed_inv ks G fN fE [] (init_search G s)"
proof -
  let ?x = "\<lparr>pq_node = s, pq_cost = 0, pq_rawRTT = Fin 0, pq_index = 0\<rparr>"
  have e: "entries (init_search G s) = {#(s, 0)#}"
    using pq.push_core [of ?x "[]"] by (simp add: entries_def init_search_def pq_core_def)
  have h: "heap_ok pq_cost (queue (init_search G s))"
    using pq.push_heap [of "[]" ?x] by (simp add: init_search_def heap_on_def)
  have d: "fin_dist (init_search G s) n x \<longleftrightarrow> n = s \<and> x = 0" for n x
    by (auto simp: fin_dist_def init_search_def)
  show "queue_inv t [] 0 (init_search G s)" using h by (auto simp: queue_inv_def e d)
  show "tree_inv ks G fN fE s [] 0 (init_search G s)"
    using adj_all_nodes by (auto simp: tree_inv_def d) (auto simp: init_search_def)
  show "closed_inv ks G fN fE [] (init_search G s)" by (simp add: closed_inv_def)
qed

section \<open>Relaxing an edge\<close>

lemma tree_invD:
  assumes "tree_inv ks G fN fE s xs b st"
  shows "fin_dist st s 0" "raw st s = Some (Fin 0)" "prev st s = None" "0 \<le> b" "distinct xs"
    and "xs \<noteq> [] \<Longrightarrow> hd xs = s"
    and "u \<in> set xs \<Longrightarrow> \<exists>d. fin_dist st u d \<and> d \<le> b"
    and "fin_dist st n d \<Longrightarrow> n \<noteq> s \<Longrightarrow> prev st n \<noteq> None"
    and "prev st n = Some m \<Longrightarrow> n \<noteq> s \<and> m \<in> set xs \<and>
      (\<exists>e d r. arc G fN fE m e n \<and> fin_dist st m d \<and> fin_dist st n (d + edge_cost ks e)
         \<and> raw st m = Some (Fin r) \<and> raw st n = Some (Fin (r + Latency e)))"
    and "i < length xs \<Longrightarrow> prev st (xs ! i) = Some m \<Longrightarrow> m \<in> set (take i xs)"
    and "e \<in> set (adj G u) \<Longrightarrow> dist st (DestinationIp e) \<noteq> None"
  using assms unfolding tree_inv_def by blast+

lemma tree_invI:
  assumes "fin_dist st s 0" "raw st s = Some (Fin 0)" "prev st s = None" "0 \<le> b" "distinct xs"
    and "xs \<noteq> [] \<Longrightarrow> hd xs = s"
    and "\<And>u. u \<in> set xs \<Longrightarrow> \<exists>d. fin_dist st u d \<and> d \<le> b"
    and "\<And>n d. fin_dist st n d \<Longrightarrow> n \<noteq> s \<Longrightarrow> prev st n \<noteq> None"
    and "\<And>n m. prev st n = Some m \<Longrightarrow> n \<noteq> s \<and> m \<in> set xs \<and>
      (\<exists>e d r. arc G fN fE m e n \<and> fin_dist st m d \<and> fin_dist st n (d + edge_cost ks e)
         \<and> raw st m = Some (Fin r) \<and> raw st n = Some (Fin (r + Latency e)))"
    and "\<And>i m. i < length xs \<Longrightarrow> prev st (xs ! i) = Some m \<Longrightarrow> m \<in> set (take i xs)"
    and "\<And>e u. e \<in> set (adj G u) \<Longrightarrow> dist st (DestinationIp e) \<noteq> None"
  shows "tree_inv ks G fN fE s xs b st"
  using assms unfolding tree_inv_def by blast

lemma queue_invD:
  assumes "queue_inv t xs b st"
  shows "heap_ok pq_cost (queue st)" "t \<notin> set xs"
    and "(n, c) \<in># entries st \<Longrightarrow> b \<le> c" and "(n, c) \<in># entries st \<Longrightarrow> \<exists>d. fin_dist st n d \<and> d \<le> c"
    and "fin_dist st n d \<Longrightarrow> count (entries st) (n, d) \<le> (if n \<in> set xs then 0 else 1)"
    and "fin_dist st n d \<Longrightarrow> n \<notin> set xs \<Longrightarrow> dist st t = Some Inf \<or> n = t \<Longrightarrow> (n, d) \<in># entries st"
  using assms unfolding queue_inv_def by blast+

lemma queue_invI:
  assumes "heap_ok pq_cost (queue st)" "t \<notin> set xs"
    and "\<And>n c. (n, c) \<in># entries st \<Longrightarrow> b \<le> c \<and> (\<exists>d. fin_dist st n d \<and> d \<le> c)"
    and "\<And>n d. fin_dist st n d \<Longrightarrow> count (entries st) (n, d) \<le> (if n \<in> set xs then 0 else 1)"
    and "\<And>n d. fin_dist st n d \<Longrightarrow> n \<notin> set xs \<Longrightarrow> dist st t = Some Inf \<or> n = t \<Longrightarrow> (n, d) \<in># entries st"
  shows "queue_inv t xs b st"
  using assms unfolding queue_inv_def by blast

text \<open>The update of a successful relaxation of an edge to \<open>n\<close>.\<close>

definition reach :: "string \<Rightarrow> string \<Rightarrow> float64 \<Rightarrow> xfloat \<Rightarrow> search \<Rightarrow> search" where
  "reach u n x r st = st\<lparr>dist := (dist st)(n \<mapsto> Fin x), raw := (raw st)(n \<mapsto> r), prev := (prev st)(n \<mapsto> u),
     queue := pq_push \<lparr>pq_node = n, pq_cost = x, pq_rawRTT = Fin 0, pq_index = 0\<rparr> (queue st)\<rparr>"

lemma fin_dist_reach: "fin_dist (reach u n x r st) m d \<longleftrightarrow> (if m = n then d = x else fin_dist st m d)"
  by (auto simp: fin_dist_def reach_def)

lemma entries_reach: "entries (reach u n x r st) = add_mset (n, x) (entries st)"
  by (simp add: reach_def entries_def pq.push_core [unfolded mset_map] pq_core_def)

lemma reach_tree:
  assumes inv: "tree_inv ks G fN fE s xs c st" and u: "u \<in> set xs" "fin_dist st u c" "raw st u = Some (Fin r)"
    and e: "arc G fN fE u e n" and w: "0 \<le> edge_cost ks e" and n: "n \<noteq> s" "n \<notin> set xs"
  shows "tree_inv ks G fN fE s xs c (reach u n (c + edge_cost ks e) (Fin (r + Latency e)) st)"
proof -
  let ?st = "reach u n (c + edge_cost ks e) (Fin (r + Latency e)) st"
  note D = tree_invD [OF inv]
  have rp: "raw ?st m = (if m = n then Some (Fin (r + Latency e)) else raw st m)"
    "prev ?st m = (if m = n then Some u else prev st m)" for m
    by (simp_all add: reach_def)
  have nu: "u \<noteq> n" using u n by auto
  have P: "m \<noteq> s \<and> k \<in> set xs \<and> (\<exists>e d r. arc G fN fE k e m \<and> fin_dist ?st k d \<and> fin_dist ?st m (d + edge_cost ks e)
      \<and> raw ?st k = Some (Fin r) \<and> raw ?st m = Some (Fin (r + Latency e)))" if "prev ?st m = Some k" for m k
  proof (cases "m = n")
    case True
    then have "k = u" using that by (simp add: rp)
    then show ?thesis using True u e n nu by (auto simp: fin_dist_reach rp)
  next
    case False
    then have "prev st m = Some k" using that by (simp add: rp)
    moreover from D(9) [OF this] n have "k \<noteq> n" by auto
    ultimately show ?thesis using D(9) False by (auto simp: fin_dist_reach rp)
  qed
  have X: "\<exists>d. fin_dist ?st v d \<and> d \<le> c" if "v \<in> set xs" for v
    using D(7) [OF that] that n by (auto simp: fin_dist_reach)
  have O: "m \<in> set (take i xs)" if "i < length xs" "prev ?st (xs ! i) = Some m" for i m
    using D(10) that n nth_mem by (auto simp: rp split: if_splits)
  have F: "prev ?st m \<noteq> None" if "fin_dist ?st m d" "m \<noteq> s" for m d
    using that D(8) by (auto simp: fin_dist_reach rp split: if_splits)
  have A: "dist ?st (DestinationIp f) \<noteq> None" if "f \<in> set (adj G v)" for f v
    using D(11) [OF that] by (simp add: reach_def)
  have S: "fin_dist ?st s 0" "raw ?st s = Some (Fin 0)" "prev ?st s = None"
    using D(1-3) n by (auto simp: fin_dist_reach rp)
  show ?thesis
    using S D(4-6) X F P O A by (rule tree_invI)
qed

lemma reach_queue:
  assumes inv: "queue_inv t xs c st" and n: "n \<notin> set xs" "c \<le> x"
    and less: "\<And>d. fin_dist st n d \<Longrightarrow> x < d"
  shows "queue_inv t xs c (reach u n x r st)"
proof -
  let ?st = "reach u n x r st"
  note D = queue_invD [OF inv]
  have new: "(n, x) \<notin># entries st"
  proof
    assume "(n, x) \<in># entries st"
    from D(4) [OF this] obtain d where "fin_dist st n d" "d \<le> x" by blast
    with less show False by fastforce
  qed
  have h: "heap_ok pq_cost (queue ?st)" using pq.push_heap [OF D(1)] by (simp add: reach_def)
  have e: "c \<le> y \<and> (\<exists>d. fin_dist ?st m d \<and> d \<le> y)" if "(m, y) \<in># entries ?st" for m y
  proof (cases "(m, y) = (n, x)")
    case False
    then have "(m, y) \<in># entries st" using that by (auto simp: entries_reach)
    from D(3) [OF this] D(4) [OF this] obtain d where d: "c \<le> y" "fin_dist st m d" "d \<le> y" by blast
    then show ?thesis using less by (cases "m = n") (fastforce simp: fin_dist_reach)+
  qed (use n in \<open>simp add: fin_dist_reach\<close>)
  have c1: "count (entries ?st) (m, d) \<le> (if m \<in> set xs then 0 else 1)" if "fin_dist ?st m d" for m d
  proof (cases "m = n")
    case True
    then show ?thesis using that n new by (simp add: entries_reach fin_dist_reach not_in_iff)
  next
    case False
    then show ?thesis using that D(5) [of m d] by (simp add: entries_reach fin_dist_reach)
  qed
  have f: "(m, d) \<in># entries ?st" if "fin_dist ?st m d" "m \<notin> set xs" "dist ?st t = Some Inf \<or> m = t" for m d
  proof (cases "m = n")
    case True
    then show ?thesis using that by (simp add: entries_reach fin_dist_reach)
  next
    case False
    then have "dist st t = Some Inf \<or> m = t" using that(3) by (auto simp: reach_def split: if_splits)
    then show ?thesis using False that D(6) [of m d] by (simp add: entries_reach fin_dist_reach)
  qed
  show ?thesis using h D(2) e c1 f by (rule queue_invI)
qed

text \<open>What one relaxation keeps and achieves.\<close>

lemma relax_inv:
  assumes g: "good_graph ks G" and tr: "tree_inv ks G fN fE s xs c st" and q: "queue_inv t xs c st"
    and u: "u \<in> set xs" "fin_dist st u c" and e: "e \<in> set (adj G u)"
  defines "st' \<equiv> relax ks fN fE u c e st"
  shows "tree_inv ks G fN fE s xs c st' \<and> queue_inv t xs c st' \<and> fin_dist st' u c
    \<and> (\<forall>n d. fin_dist st n d \<longrightarrow> (\<exists>d'. fin_dist st' n d'))
    \<and> (\<forall>v. arc G fN fE u e v \<longrightarrow> (\<exists>d. fin_dist st' v d))
    \<and> length (queue st') \<le> Suc (length (queue st))"
proof (cases "arc G fN fE u e (DestinationIp e)")
  case False
  then have "st' = st" using e by (auto simp: st'_def relax_def arc_def)
  then show ?thesis using tr q u False by (auto simp: arc_def)
next
  case True
  note D = tree_invD [OF tr]
  let ?n = "DestinationIp e" and ?x = "c + edge_cost ks e"
  have w: "0 \<le> edge_cost ks e" using g e by (auto simp: good_graph_def)
  obtain r where r: "raw st u = Some (Fin r)"
  proof (cases "u = s")
    case False
    with D(8) [OF u(2)] D(9) [of u] show ?thesis using that by blast
  qed (use D(2) that in auto)
  have st': "st' = (if Fin ?x < get_dist st ?n then reach u ?n ?x (Fin (r + Latency e)) st else st)"
    using True r by (simp add: st'_def relax_def arc_def Let_def reach_def)
  have dn: "\<exists>y. dist st ?n = Some y" using D(11) [OF e] by auto
  show ?thesis
  proof (cases "Fin ?x < get_dist st ?n")
    case False
    then obtain d where "fin_dist st ?n d"
      using dn by (auto simp: fin_dist_def not_less) (metis xfloat.exhaust xfloat_simps(4))
    then show ?thesis using False st' tr q u by (auto simp: arc_def)
  next
    case up: True
    have lt: "?x < d" if "fin_dist st ?n d" for d using up that by (simp add: fin_dist_def)
    have "?n \<noteq> s" using lt D(1,4) w by fastforce
    moreover have "?n \<notin> set xs" using lt D(7) w by fastforce
    ultimately have "tree_inv ks G fN fE s xs c st'" "queue_inv t xs c st'"
      using reach_tree [OF tr u r True w] reach_queue [OF q _ _ lt] w up st' by auto
    moreover have "fin_dist st' m d'" if "m \<noteq> ?n" "fin_dist st m d'" for m d'
      using that up st' by (simp add: fin_dist_reach)
    moreover have "fin_dist st' ?n ?x" using up st' by (simp add: fin_dist_reach)
    moreover have "u \<noteq> ?n" using \<open>?n \<notin> set xs\<close> u by auto
    moreover have "length (queue st') \<le> Suc (length (queue st))" using up st' by (simp add: reach_def)
    ultimately show ?thesis using u(2) by (metis arc_def)
  qed
qed

lemma relax_fold_inv:
  assumes "good_graph ks G" "tree_inv ks G fN fE s xs c st" "queue_inv t xs c st"
    and "u \<in> set xs" "fin_dist st u c" "set es \<subseteq> set (adj G u)"
  defines "st' \<equiv> fold (relax ks fN fE u c) es st"
  shows "tree_inv ks G fN fE s xs c st' \<and> queue_inv t xs c st' \<and> fin_dist st' u c
    \<and> (\<forall>n d. fin_dist st n d \<longrightarrow> (\<exists>d'. fin_dist st' n d'))
    \<and> (\<forall>e \<in> set es. \<forall>v. arc G fN fE u e v \<longrightarrow> (\<exists>d. fin_dist st' v d))
    \<and> length (queue st') \<le> length es + length (queue st)"
  unfolding st'_def using assms(2,3,5,6)
proof (induction es arbitrary: st)
  case (Cons e es)
  let ?st = "relax ks fN fE u c e st"
  have e: "e \<in> set (adj G u)" using Cons.prems by simp
  note r = relax_inv [OF assms(1) Cons.prems(1,2) assms(4) Cons.prems(3) e]
  have "tree_inv ks G fN fE s xs c ?st" "queue_inv t xs c ?st" "fin_dist ?st u c" "set es \<subseteq> set (adj G u)"
    using r Cons.prems by auto
  note ih = Cons.IH [OF this]
  have "\<exists>d. fin_dist (fold (relax ks fN fE u c) (e # es) st) v d" if "arc G fN fE u e v" for v
    using r ih that by (metis fold_simps(2))
  moreover have "\<exists>d. fin_dist (fold (relax ks fN fE u c) (e # es) st) m d" if "fin_dist st m d0" for m d0
    using r ih that by (metis fold_simps(2))
  moreover have "length (queue (fold (relax ks fN fE u c) (e # es) st)) \<le> length (e # es) + length (queue st)"
    using r ih by simp
  ultimately show ?case using ih by (metis fold_simps(2) set_ConsD)
qed simp

section \<open>One iteration\<close>

text \<open>Popping an entry that is not used: it is out of date, or the end has been reached.\<close>

lemma pop_entry:
  assumes "heap_pop pq_cost pq_upd (queue st) = Inr (u, q)" "tree_inv ks G fN fE s xs b st" "queue_inv t xs b st"
  shows "b \<le> pq_cost u" "\<exists>d. fin_dist st (pq_node u) d \<and> d \<le> pq_cost u"
    "Suc (length q) = length (queue st)" "heap_ok pq_cost q"
proof -
  have "(pq_node u, pq_cost u) \<in># entries st" using entries_pop [OF assms(1)] by simp
  from queue_invD(3,4) [OF assms(3) this]
  show "b \<le> pq_cost u" "\<exists>d. fin_dist st (pq_node u) d \<and> d \<le> pq_cost u" by auto
  show "Suc (length q) = length (queue st)" using pq.pop_spec(2) [OF assms(1)] by simp
  show "heap_ok pq_cost q" using pq.pop_spec [OF assms(1)] queue_invD(1) [OF assms(3)] by blast
qed

lemma fin_dist_queue [simp]: "fin_dist (st\<lparr>queue := q\<rparr>) n d = fin_dist st n d"
  by (simp add: fin_dist_def)

lemma tree_inv_queue [simp]: "tree_inv ks G fN fE s xs b (st\<lparr>queue := q\<rparr>) = tree_inv ks G fN fE s xs b st"
  by (simp add: tree_inv_def)

lemma closed_inv_queue [simp]: "closed_inv ks G fN fE xs (st\<lparr>queue := q\<rparr>) = closed_inv ks G fN fE xs st"
  by (simp add: closed_inv_def)

lemma pop_skip:
  assumes pop: "heap_pop pq_cost pq_upd (queue st) = Inr (u, q)"
    and tr: "tree_inv ks G fN fE s xs b st" and qu: "queue_inv t xs b st"
    and skip: "\<not> fin_dist st (pq_node u) (pq_cost u) \<or> dist st t \<noteq> Some Inf \<and> pq_node u \<noteq> t"
  shows "queue_inv t xs b (st\<lparr>queue := q\<rparr>)"
proof -
  note D = queue_invD [OF qu] and E = entries_pop [OF pop]
  have "b \<le> c \<and> (\<exists>d. fin_dist st n d \<and> d \<le> c)" if "(n, c) \<in># entries (st\<lparr>queue := q\<rparr>)" for n c
    using that D(3,4) [of n c] E by simp
  moreover have "count (entries (st\<lparr>queue := q\<rparr>)) (n, d) \<le> (if n \<in> set xs then 0 else 1)" if "fin_dist st n d" for n d
    using D(5) [OF that] E by (auto split: if_splits)
  moreover have "(n, d) \<in># entries (st\<lparr>queue := q\<rparr>)"
    if "fin_dist st n d" "n \<notin> set xs" "dist st t = Some Inf \<or> n = t" for n d
    using D(6) [OF that] E skip that by auto
  ultimately show ?thesis
    using D(2) pop_entry(4) [OF pop tr qu] by (intro queue_invI) simp_all
qed

text \<open>Popping an entry that is expanded: its node joins the expanded ones.\<close>

lemma pop_expand:
  assumes pop: "heap_pop pq_cost pq_upd (queue st) = Inr (u, q)"
    and tr: "tree_inv ks G fN fE s xs b st" and qu: "queue_inv t xs b st"
    and cur: "fin_dist st (pq_node u) (pq_cost u)" "pq_node u \<noteq> t"
  shows "pq_node u \<notin> set xs" "tree_inv ks G fN fE s (xs @ [pq_node u]) (pq_cost u) st"
    "queue_inv t (xs @ [pq_node u]) (pq_cost u) (st\<lparr>queue := q\<rparr>)"
proof -
  note D = queue_invD [OF qu] and E = entries_pop [OF pop] and T = tree_invD [OF tr] and P = pop_entry [OF pop tr qu]
  show new: "pq_node u \<notin> set xs"
  proof
    assume "pq_node u \<in> set xs"
    then have "count (entries st) (pq_node u, pq_cost u) = 0" using D(5) [OF cur(1)] by simp
    then show False unfolding E by simp
  qed
  have "hd (xs @ [pq_node u]) = s"
  proof (cases "xs = []")
    case True
    then have "prev st (pq_node u) = None" using T(9) by fastforce
    then show ?thesis using True T(8) [OF cur(1)] by auto
  qed (use T(6) in simp)
  moreover have "\<exists>d. fin_dist st v d \<and> d \<le> pq_cost u" if "v \<in> set (xs @ [pq_node u])" for v
    using that T(7) [of v] P(1) cur(1) by force
  moreover have "m \<in> set (take i (xs @ [pq_node u]))"
    if "i < length (xs @ [pq_node u])" "prev st ((xs @ [pq_node u]) ! i) = Some m" for i m
    using that T(9) [of "pq_node u" m] T(10) [of i m] by (cases "i < length xs") (auto simp: nth_append less_Suc_eq)
  moreover have "n \<noteq> s \<and> m \<in> set (xs @ [pq_node u]) \<and>
      (\<exists>e d r. arc G fN fE m e n \<and> fin_dist st m d \<and> fin_dist st n (d + edge_cost ks e)
         \<and> raw st m = Some (Fin r) \<and> raw st n = Some (Fin (r + Latency e)))" if "prev st n = Some m" for n m
    using T(9) [OF that] by simp
  moreover have "0 \<le> pq_cost u" "distinct (xs @ [pq_node u])" using T(4,5) P(1) new by auto
  ultimately show "tree_inv ks G fN fE s (xs @ [pq_node u]) (pq_cost u) st"
    using T(1-3,8,11) by (intro tree_invI) blast+
  have "pq_cost u \<le> c \<and> (\<exists>d. fin_dist st n d \<and> d \<le> c)" if "(n, c) \<in># entries (st\<lparr>queue := q\<rparr>)" for n c
    using that D(4) [of n c] E pop_minimal [OF pop D(1), of n c] by simp
  moreover have "count (entries (st\<lparr>queue := q\<rparr>)) (n, d) \<le> (if n \<in> set (xs @ [pq_node u]) then 0 else 1)"
    if "fin_dist st n d" for n d
    using D(5) [OF that] E cur(1) that new by (auto simp: fin_dist_def split: if_splits)
  moreover have "(n, d) \<in># entries (st\<lparr>queue := q\<rparr>)"
    if "fin_dist st n d" "n \<notin> set (xs @ [pq_node u])" "dist st t = Some Inf \<or> n = t" for n d
    using D(6) [OF that(1) _ that(3)] E that by auto
  ultimately show "queue_inv t (xs @ [pq_node u]) (pq_cost u) (st\<lparr>queue := q\<rparr>)"
    using D(2) P(4) cur(2) by (intro queue_invI) auto
qed

text \<open>The iterations that are left: the entries of the queue and the edges of nodes to be expanded.\<close>

definition remaining :: "adjacency \<Rightarrow> string list \<Rightarrow> nat" where
  "remaining G xs = sum_list (map (\<lambda>(k, es). if k \<in> set xs then 0 else length es) G)"

lemma remaining_expand:
  assumes "distinct (map fst G)" "u \<notin> set xs"
  shows "remaining G (xs @ [u]) + length (adj G u) = remaining G xs"
  using assms(1)
proof (induction G)
  case (Cons kes G)
  obtain k es where k: "kes = (k, es)" by fastforce
  show ?case
  proof (cases "k = u")
    case True
    with Cons.prems have "u \<notin> fst ` set G" by (simp add: k)
    then have "map_of G u = None" "remaining G (xs @ [u]) = remaining G xs"
      by (force simp: map_of_eq_None_iff remaining_def intro!: arg_cong [of _ _ sum_list] map_cong)+
    then show ?thesis using True assms(2) by (simp add: k remaining_def adj_def)
  next
    case False
    then show ?thesis using Cons k by (simp add: remaining_def adj_def map_get_def)
  qed
qed (simp add: remaining_def adj_def)

lemma remaining_init: "1 + remaining G [] < search_fuel G"
  by (simp add: remaining_def search_fuel_def case_prod_beta)

section \<open>The path\<close>

lemma follow_prev_mono: "follow_prev m p n acc = Some r \<Longrightarrow> m \<le> k \<Longrightarrow> follow_prev k p n acc = Some r"
proof (induction m p n acc arbitrary: k rule: follow_prev.induct)
  case (2 m p node path)
  then obtain k' where "k = Suc k'" by (cases k) auto
  with 2 show ?case by (auto split: if_splits)
qed simp

lemma removeConsecutiveDuplicates_distinct: "distinct hs \<Longrightarrow> removeConsecutiveDuplicates hs = hs"
  by (induction hs rule: removeConsecutiveDuplicates.induct) auto

lemma arc_node: "arc G fN fE u e v \<Longrightarrow> v \<in> set (all_nodes G)"
  using adj_all_nodes by (auto simp: arc_def)

lemma walk_nodes: "walk G fN fE s es t \<Longrightarrow> set (walk_hops s es) \<subseteq> insert s (set (all_nodes G))"
proof (induction es arbitrary: s)
  case (Cons e es)
  then have "DestinationIp e \<in> set (all_nodes G)" by (auto dest: arc_node)
  moreover have "set (walk_hops (DestinationIp e) es) \<subseteq> insert (DestinationIp e) (set (all_nodes G))"
    using Cons by simp
  ultimately show ?case by (auto simp: walk_hops_def)
qed (simp add: walk_hops_def)

lemma walk_length:
  assumes "walk G fN fE s es t" "distinct (walk_hops s es)"
  shows "length es \<le> length (all_nodes G)"
proof -
  have "Suc (length es) = card (set (walk_hops s es))"
    using distinct_card [OF assms(2)] by (simp add: walk_hops_def)
  also have "\<dots> \<le> card (insert s (set (all_nodes G)))" by (intro card_mono walk_nodes [OF assms(1)]) simp
  also have "\<dots> \<le> Suc (length (all_nodes G))"
    using card_length [of "all_nodes G"] card_insert_le_m1 [of "Suc (length (all_nodes G))"]
    by (simp add: card_insert_if le_SucI)
  finally show ?thesis by simp
qed

text \<open>Following the predecessors from a node gives a simple walk with its cost.\<close>

definition tree_path :: "KShortestSolver \<Rightarrow> adjacency \<Rightarrow> string list \<Rightarrow> string list \<Rightarrow> string \<Rightarrow> search
    \<Rightarrow> string \<Rightarrow> Edge list \<Rightarrow> bool" where
  "tree_path ks G fN fE s st n es \<longleftrightarrow> walk G fN fE s es n \<and> distinct (walk_hops s es)
     \<and> fin_dist st n (walk_cost ks es) \<and> raw st n = Some (Fin (walk_rtt es))
     \<and> (\<forall>acc. follow_prev (length es + 2) (prev st) n acc = Some (walk_hops s es @ acc))"

lemma tree_path_start:
  assumes "tree_inv ks G fN fE s xs b st" "s \<noteq> ''''"
  shows "tree_path ks G fN fE s st s []"
  using tree_invD(1-3) [OF assms(1)] assms(2)
  by (simp add: tree_path_def walk_hops_def walk_cost_def walk_rtt_def numeral_2_eq_2 map_get_def)

lemma tree_path_step:
  assumes tr: "tree_inv ks G fN fE s xs b st" and g: "good_graph ks G"
    and m: "prev st n = Some m" "tree_path ks G fN fE s st m es" "n \<notin> set (walk_hops s es)"
  shows "\<exists>e. DestinationIp e = n \<and> tree_path ks G fN fE s st n (es @ [e])"
proof -
  from tree_invD(9) [OF tr m(1)] obtain e d r where e: "arc G fN fE m e n" "fin_dist st m d"
    "fin_dist st n (d + edge_cost ks e)" "raw st m = Some (Fin r)" "raw st n = Some (Fin (r + Latency e))" by blast
  have "n \<noteq> ''''" using arc_node [OF e(1)] g by (auto simp: good_graph_def)
  moreover have "DestinationIp e = n" using e(1) by (simp add: arc_def)
  moreover have "d = walk_cost ks es" "r = walk_rtt es"
    using m(2) e by (auto simp: tree_path_def fin_dist_def)
  ultimately show ?thesis
    using e m by (auto simp: tree_path_def walk_snoc walk_hops_snoc walk_cost_def walk_rtt_def)
qed

lemma tree_path_expanded:
  assumes tr: "tree_inv ks G fN fE s xs b st" and g: "good_graph ks G" and s: "s \<noteq> ''''"
  shows "i < length xs \<Longrightarrow>
    \<exists>es. tree_path ks G fN fE s st (xs ! i) es \<and> set (walk_hops s es) \<subseteq> set (take (Suc i) xs)"
proof (induction i rule: less_induct)
  case (less i)
  note T = tree_invD [OF tr]
  have i: "xs ! i \<in> set (take (Suc i) xs)" "distinct xs" using less.prems T(5) by (auto simp: take_Suc_conv_app_nth)
  show ?case
  proof (cases "prev st (xs ! i)")
    case None
    with T(7,8) less.prems nth_mem have "xs ! i = s" by blast
    then show ?thesis using tree_path_start [OF tr s] i by (intro exI [of _ "[]"]) (simp add: walk_hops_def)
  next
    case (Some m)
    from T(10) [OF less.prems Some] obtain j where j: "j < i" "m = xs ! j"
      using less.prems by (auto simp: in_set_conv_nth)
    from less.IH [OF j(1)] less.prems j obtain es where
      es: "tree_path ks G fN fE s st m es" "set (walk_hops s es) \<subseteq> set (take (Suc j) xs)" by auto
    have sub: "set (take (Suc j) xs) \<subseteq> set (take i xs)" using j(1) by (intro set_take_subset_set_take) simp
    have "xs ! i \<notin> set (take i xs)"
      using less.prems i(2) by (auto simp: in_set_conv_nth nth_eq_iff_index_eq)
    then have "xs ! i \<notin> set (walk_hops s es)" using es(2) sub by blast
    from tree_path_step [OF tr g Some es(1) this] obtain e where
      e: "DestinationIp e = xs ! i" "tree_path ks G fN fE s st (xs ! i) (es @ [e])" by blast
    have "set (take i xs) \<subseteq> set (take (Suc i) xs)" by (intro set_take_subset_set_take) simp
    then have "set (walk_hops s (es @ [e])) \<subseteq> set (take (Suc i) xs)"
      using es(2) sub i(1) e(1) by (auto simp: walk_hops_snoc)
    then show ?thesis using e(2) by blast
  qed
qed

lemma tree_path_end:
  assumes tr: "tree_inv ks G fN fE s xs b st" and g: "good_graph ks G" and s: "s \<noteq> ''''"
    and t: "t \<notin> set xs" "fin_dist st t c"
  shows "\<exists>es. tree_path ks G fN fE s st t es"
proof (cases "prev st t")
  case None
  then have "t = s" using tree_invD(8) [OF tr t(2)] by blast
  then show ?thesis using tree_path_start [OF tr s] by blast
next
  case (Some m)
  then obtain i where "i < length xs" "m = xs ! i" using tree_invD(9) [OF tr Some] by (auto simp: in_set_conv_nth)
  with tree_path_expanded [OF tr g s] obtain es where
    es: "tree_path ks G fN fE s st m es" "set (walk_hops s es) \<subseteq> set (take (Suc i) xs)" by blast
  then have "t \<notin> set (walk_hops s es)" using t(1) by (meson in_set_takeD subsetD)
  from tree_path_step [OF tr g Some es(1) this] show ?thesis by blast
qed

section \<open>The search\<close>

text \<open>What the search answers: a simple walk with its cost and latency, or that there is no walk.\<close>

definition answer_ok :: "KShortestSolver \<Rightarrow> adjacency \<Rightarrow> string list \<Rightarrow> string list \<Rightarrow> string \<Rightarrow> string
    \<Rightarrow> Path result \<Rightarrow> bool" where
  "answer_ok ks G fN fE s t r \<longleftrightarrow>
     (case r of
        Inl msg \<Rightarrow> msg = no_path s t \<and> (\<nexists>es. walk G fN fE s es t)
      | Inr p \<Rightarrow> \<exists>es. walk G fN fE s es t \<and> distinct (walk_hops s es)
          \<and> p = \<lparr>path_hops = walk_hops s es, path_cost = walk_cost ks es, path_rawRTT = Fin (walk_rtt es)\<rparr>)"

lemma exhausted:
  assumes tr: "tree_inv ks G fN fE s xs b st" and qu: "queue_inv t xs b st" and cl: "closed_inv ks G fN fE xs st"
    and q: "queue st = []"
  shows "\<not> walk G fN fE s es t"
proof
  assume w: "walk G fN fE s es t"
  note T = tree_invD [OF tr] and Q = queue_invD [OF qu]
  have e: "entries st = {#}" by (simp add: entries_def q)
  have nt: "\<not> fin_dist st t d" for d using Q(2,6) e by fastforce
  have "dist st t \<noteq> None"
  proof (cases es rule: rev_cases)
    case Nil
    then show ?thesis using w T(1) by (auto simp: fin_dist_def)
  next
    case (snoc fs f)
    then show ?thesis using w T(11) by (auto simp: walk_snoc arc_def)
  qed
  then have "dist st t = Some Inf" using nt by (metis fin_dist_def not_None_eq xfloat.exhaust)
  then have ex: "n \<in> set xs" if "fin_dist st n d" for n d using Q(6) [OF that] e by fastforce
  have "\<exists>d. fin_dist st v d" if "walk G fN fE s fs v" for fs v
    using that
  proof (induction fs arbitrary: v rule: rev_induct)
    case Nil
    then show ?case using T(1) by auto
  next
    case (snoc f fs)
    then show ?case using ex cl unfolding walk_snoc closed_inv_def by blast
  qed
  with w nt show False by blast
qed

lemma search_found:
  assumes "tree_inv ks G fN fE s xs b st" "good_graph ks G" "s \<noteq> ''''" "t \<notin> set xs" "fin_dist st t c"
  shows "\<exists>r. map_option (\<lambda>path. Inr \<lparr>path_hops = removeConsecutiveDuplicates path, path_cost = c, path_rawRTT = get_raw st t\<rparr>)
      (follow_prev (path_fuel G) (prev st) t []) = Some r \<and> answer_ok ks G fN fE s t r"
proof -
  obtain es where es: "tree_path ks G fN fE s st t es" using tree_path_end [OF assms] by blast
  have "walk_cost ks es = c" using es assms(5) by (auto simp: tree_path_def fin_dist_def)
  moreover have "length es + 2 \<le> path_fuel G"
    using walk_length [of G fN fE s es t] es by (simp add: tree_path_def path_fuel_def)
  moreover have "follow_prev (length es + 2) (prev st) t [] = Some (walk_hops s es)"
    using es unfolding tree_path_def by (metis append_Nil2)
  ultimately have "follow_prev (path_fuel G) (prev st) t [] = Some (walk_hops s es)" "walk_cost ks es = c"
    using follow_prev_mono by blast+
  then show ?thesis
    using es by (auto simp: tree_path_def answer_ok_def removeConsecutiveDuplicates_distinct)
qed

lemma expand_inv:
  assumes g: "good_graph ks G" and pop: "heap_pop pq_cost pq_upd (queue st) = Inr (u, q)"
    and tr: "tree_inv ks G fN fE s xs b st" and qu: "queue_inv t xs b st" and cl: "closed_inv ks G fN fE xs st"
    and cur: "fin_dist st (pq_node u) (pq_cost u)" "pq_node u \<noteq> t"
  defines "st' \<equiv> fold (relax ks fN fE (pq_node u) (pq_cost u)) (adj G (pq_node u)) (st\<lparr>queue := q\<rparr>)"
  shows "tree_inv ks G fN fE s (xs @ [pq_node u]) (pq_cost u) st'" "queue_inv t (xs @ [pq_node u]) (pq_cost u) st'"
    "closed_inv ks G fN fE (xs @ [pq_node u]) st'"
    "length (queue st') + remaining G (xs @ [pq_node u]) < length (queue st) + remaining G xs"
proof -
  note P = pop_expand [OF pop tr qu cur]
  have "tree_inv ks G fN fE s (xs @ [pq_node u]) (pq_cost u) (st\<lparr>queue := q\<rparr>)" using P(2) by simp
  from relax_fold_inv [OF g this P(3), of "pq_node u" "adj G (pq_node u)"] cur(1)
  have R: "tree_inv ks G fN fE s (xs @ [pq_node u]) (pq_cost u) st'" "queue_inv t (xs @ [pq_node u]) (pq_cost u) st'"
    "\<forall>n d. fin_dist st n d \<longrightarrow> (\<exists>d'. fin_dist st' n d')"
    "\<forall>e \<in> set (adj G (pq_node u)). \<forall>v. arc G fN fE (pq_node u) e v \<longrightarrow> (\<exists>d. fin_dist st' v d)"
    "length (queue st') \<le> length (adj G (pq_node u)) + length q"
    unfolding st'_def by auto
  then show "tree_inv ks G fN fE s (xs @ [pq_node u]) (pq_cost u) st'" "queue_inv t (xs @ [pq_node u]) (pq_cost u) st'" by auto
  show "closed_inv ks G fN fE (xs @ [pq_node u]) st'"
    using cl R(3,4) by (fastforce simp: closed_inv_def arc_def)
  have "distinct (map fst G)" using g by (simp add: good_graph_def)
  from remaining_expand [OF this P(1)] R(5) pop_entry(3) [OF pop tr qu]
  show "length (queue st') + remaining G (xs @ [pq_node u]) < length (queue st) + remaining G xs" by linarith
qed

lemma search_loop_ok:
  assumes g: "good_graph ks G" and s: "s \<noteq> ''''"
  shows "tree_inv ks G fN fE s xs b st \<Longrightarrow> queue_inv t xs b st \<Longrightarrow> closed_inv ks G fN fE xs st
    \<Longrightarrow> length (queue st) + remaining G xs < n
    \<Longrightarrow> \<exists>r. search_loop n (path_fuel G) ks G fN fE s t st = Some r \<and> answer_ok ks G fN fE s t r"
proof (induction n arbitrary: xs b st)
  case (Suc n)
  note tr = Suc.prems(1) and qu = Suc.prems(2) and cl = Suc.prems(3)
  show ?case
  proof (cases "heap_pop pq_cost pq_upd (queue st)")
    case (Inl e)
    then have q: "queue st = []" using pq.pop_total by fastforce
    have "search_loop (Suc n) (path_fuel G) ks G fN fE s t st = Some (Inl (no_path s t))" by (simp add: Inl)
    with exhausted [OF tr qu cl q] show ?thesis by (simp add: answer_ok_def)
  next
    case (Inr uq)
    then obtain u q where pop: "heap_pop pq_cost pq_upd (queue st) = Inr (u, q)" by (cases uq) auto
    note P = pop_entry [OF pop tr qu]
    obtain d where d: "fin_dist st (pq_node u) d" "d \<le> pq_cost u" using P(2) by blast
    then have gd: "get_dist st (pq_node u) = Fin d" by (simp add: fin_dist_def)
    have skip: "\<exists>r. search_loop n (path_fuel G) ks G fN fE s t (st\<lparr>queue := q\<rparr>) = Some r \<and> answer_ok ks G fN fE s t r"
      if "\<not> fin_dist st (pq_node u) (pq_cost u) \<or> dist st t \<noteq> Some Inf \<and> pq_node u \<noteq> t"
      using Suc.IH [of xs b "st\<lparr>queue := q\<rparr>"] tr cl pop_skip [OF pop tr qu that] P(3) Suc.prems(4) by simp
    show ?thesis
    proof (cases "fin_dist st (pq_node u) (pq_cost u)")
      case False
      then have "d < pq_cost u" using d by (cases "d = pq_cost u") auto
      then show ?thesis using skip False gd by (simp add: pop)
    next
      case cur: True
      then have dc: "d = pq_cost u" using d by (simp add: fin_dist_def)
      show ?thesis
      proof (cases "pq_node u = t")
        case True
        then show ?thesis
          using search_found [OF tr g s queue_invD(2) [OF qu]] cur gd dc by (simp add: pop)
      next
        case nt: False
        show ?thesis
        proof (cases "get_dist st t = Inf")
          case True
          note E = expand_inv [OF g pop tr qu cl cur nt]
          show ?thesis using Suc.IH [OF E(1-3)] E(4) Suc.prems(4) True nt gd dc by (simp add: pop Let_def)
        next
          case False
          then have "dist st t \<noteq> Some Inf" by auto
          then show ?thesis using skip False nt gd dc by (auto simp: pop)
        qed
      qed
    qed
  qed
qed simp

lemma findShortestPath_ok:
  assumes "good_graph ks G" "s \<noteq> ''''"
  shows "\<exists>r. findShortestPath ks s t G fN fE = Some r \<and> answer_ok ks G fN fE s t r"
proof -
  have "length (queue (init_search G s)) = 1" by (simp add: init_search_def)
  then have "length (queue (init_search G s)) + remaining G [] < search_fuel G" using remaining_init by simp
  from search_loop_ok [OF assms init_inv [OF assms(1)] this] show ?thesis by (simp add: findShortestPath_def)
qed

end
