(* ===== verification/Yen.thy ===== *)
theory Yen
  imports K_Shortest
begin

text \<open>
  Yen's algorithm of control-plane/routing/core-domain/k-shortest.go (\<open>yensAlgorithm\<close>), which
  lists up to \<open>k\<close> paths with \<open>findShortestPath\<close>, and the solver on top of it (\<open>Computing\<close>).

  The loops over the accepted paths and their positions are a list of pairs; the graph that is
  changed and restored in place is part of the state. None is running out of the fuel of a
  search. On graphs without negative weights whose node names have no \<open>-\<close> (the separator of the
  candidate queue is \<open>->\<close>) the lemmas show that the fuel is enough, that every path returned is
  a simple path of the graph with its cost, that no path is returned twice, and that a result of
  fewer than \<open>k\<close> paths has all simple paths.
\<close>

section \<open>Helpers of the solver\<close>

fun dup_after :: "string list \<Rightarrow> string list \<Rightarrow> bool" where
  "dup_after seen [] = False"
| "dup_after seen (hop # hops) = (hop \<in> set seen \<or> dup_after (hop # seen) hops)"

definition hasDuplicateNodes :: "string list \<Rightarrow> bool" where
  "hasDuplicateNodes hops = dup_after [] hops"

definition isInPath :: "string \<Rightarrow> string list \<Rightarrow> bool" where
  "isInPath node path \<longleftrightarrow> (\<exists>n \<in> set path. n = node)"

definition pathsSharePrefix :: "string list \<Rightarrow> string list \<Rightarrow> bool" where
  "pathsSharePrefix path1 path2 =
     (let (p, q) = (if length path1 < length path2 then (path2, path1) else (path1, path2))
      in list_all (\<lambda>i. p ! i = q ! i) [0..<length q])"

definition arrow :: string where
  "arrow = ''->''"

definition isPathInQueue :: "Path \<Rightarrow> PQNode list \<Rightarrow> bool" where
  "isPathInQueue path q \<longleftrightarrow> (\<exists>item \<in> set q. pq_node item = strings_join arrow (path_hops path))"

definition isPathInList :: "Path \<Rightarrow> Path list \<Rightarrow> bool" where
  "isPathInList path ps \<longleftrightarrow> (\<exists>p \<in> set ps. strings_join arrow (path_hops p) = strings_join arrow (path_hops path))"

text \<open>The sum of a quantity over the first edges between consecutive nodes of a path.\<close>

fun sum_path :: "(Edge \<Rightarrow> float64) \<Rightarrow> adjacency \<Rightarrow> string list \<Rightarrow> float64" where
  "sum_path f G (source # dest # path) =
     (case find (\<lambda>e. DestinationIp e = dest) (adj G source) of None \<Rightarrow> 0 | Some e \<Rightarrow> f e) + sum_path f G (dest # path)"
| "sum_path f G path = 0"

definition calculatePathCost :: "KShortestSolver \<Rightarrow> string list \<Rightarrow> adjacency \<Rightarrow> float64" where
  "calculatePathCost ks path G = sum_path (edge_cost ks) G path"

definition calculatePathRTT :: "string list \<Rightarrow> adjacency \<Rightarrow> float64" where
  "calculatePathRTT path G = sum_path Latency G path"

section \<open>yensAlgorithm\<close>

text \<open>The edges of the spur node that a deviation may use.\<close>

definition spur_edges :: "Path list \<Rightarrow> string list \<Rightarrow> nat \<Rightarrow> Edge list \<Rightarrow> Edge list" where
  "spur_edges A rootPath j originalEdges =
     fold (\<lambda>path es.
         if length (path_hops path) > j \<and> pathsSharePrefix (path_hops path) rootPath \<and> j + 1 < length (path_hops path)
         then filter (\<lambda>e. DestinationIp e \<noteq> path_hops path ! (j + 1)) es else es)
       A (filter (\<lambda>e. \<not> isInPath (DestinationIp e) rootPath) originalEdges)"

definition candidate :: "KShortestSolver \<Rightarrow> Path list \<Rightarrow> adjacency \<Rightarrow> string list \<Rightarrow> Path \<Rightarrow> PQNode list \<Rightarrow> PQNode list" where
  "candidate ks A G rootPath spurPath B =
     (let mergedHops = butlast rootPath @ path_hops spurPath;
          completePath = \<lparr>path_hops = removeConsecutiveDuplicates mergedHops,
                          path_cost = calculatePathCost ks rootPath G + path_cost spurPath,
                          path_rawRTT = Fin (calculatePathRTT rootPath G) + path_rawRTT spurPath\<rparr>
      in if \<not> hasDuplicateNodes (path_hops completePath) \<and> \<not> isPathInList completePath A
            \<and> \<not> isPathInQueue completePath B
         then pq_push \<lparr>pq_node = strings_join arrow (path_hops completePath), pq_cost = path_cost completePath,
                       pq_rawRTT = path_rawRTT completePath, pq_index = 0\<rparr> B
         else B)"

text \<open>
  One deviation: position \<open>j\<close> of the path \<open>hops\<close>. A spur path with a repeated node leaves the
  edges of the spur node removed.
\<close>

definition spur :: "KShortestSolver \<Rightarrow> string \<Rightarrow> Path list \<Rightarrow> string list \<times> nat \<Rightarrow> adjacency \<times> PQNode list
    \<Rightarrow> (adjacency \<times> PQNode list) option" where
  "spur ks end' A = (\<lambda>(hops, j) (G, B).
     let spurNode = hops ! j; rootPath = take (j + 1) hops
     in case map_of G spurNode of
          None \<Rightarrow> Some (G, B)
        | Some originalEdges \<Rightarrow>
            let G' = AList.update spurNode (spur_edges A rootPath j originalEdges) G;
                restored = AList.update spurNode originalEdges G'
            in if spurNode = end' then Some (restored, B)
               else if isInPath end' rootPath then Some (restored, B)
               else case findShortestPath ks spurNode end' G' (butlast rootPath) [] of
                      None \<Rightarrow> None
                    | Some (Inl err) \<Rightarrow> Some (restored, B)
                    | Some (Inr spurPath) \<Rightarrow>
                        if hasDuplicateNodes (path_hops spurPath) then Some (G', B)
                        else Some (restored, candidate ks A G' rootPath spurPath B))"

fun spurs :: "KShortestSolver \<Rightarrow> string \<Rightarrow> Path list \<Rightarrow> (string list \<times> nat) list \<Rightarrow> adjacency \<times> PQNode list
    \<Rightarrow> (adjacency \<times> PQNode list) option" where
  "spurs ks end' A [] st = Some st"
| "spurs ks end' A (x # xs) st = (case spur ks end' A x st of None \<Rightarrow> None | Some st \<Rightarrow> spurs ks end' A xs st)"

definition positions :: "Path list \<Rightarrow> (string list \<times> nat) list" where
  "positions A = concat (map (\<lambda>p. map (\<lambda>j. (path_hops p, j)) [0..<length (path_hops p) - 1]) A)"

definition parse_candidate :: "PQNode \<Rightarrow> Path" where
  "parse_candidate x =
     \<lparr>path_hops = removeConsecutiveDuplicates (strings_split (pq_node x) arrow), path_cost = pq_cost x,
      path_rawRTT = pq_rawRTT x\<rparr>"

fun yens_loop :: "nat \<Rightarrow> KShortestSolver \<Rightarrow> string \<Rightarrow> Path list \<Rightarrow> adjacency \<times> PQNode list \<Rightarrow> Path list option" where
  "yens_loop 0 ks end' A st = None"
| "yens_loop (Suc n) ks end' A st =
     (if int (length A) < ks_k ks
      then case spurs ks end' A (positions A) st of
             None \<Rightarrow> None
           | Some (G, B) \<Rightarrow>
               (case heap_pop pq_cost pq_upd B of
                  Inl e \<Rightarrow> Some A
                | Inr (shortest, B) \<Rightarrow>
                    let newPath = parse_candidate shortest
                    in yens_loop n ks end' (if isPathInList newPath A then A else A @ [newPath]) (G, B))
      else Some A)"

definition dedup_hops :: "Path \<Rightarrow> Path" where
  "dedup_hops p = p\<lparr>path_hops := removeConsecutiveDuplicates (path_hops p)\<rparr>"

text \<open>An iteration of the outer loop accepts a path, so that \<open>k\<close> of them and the last test are enough.\<close>

definition yensAlgorithm :: "KShortestSolver \<Rightarrow> string \<Rightarrow> string \<Rightarrow> adjacency \<Rightarrow> Path list result option" where
  "yensAlgorithm ks start end' G =
     (case findShortestPath ks start end' G [] [] of
        None \<Rightarrow> None
      | Some (Inl err) \<Rightarrow> Some (Inl err)
      | Some (Inr firstPath) \<Rightarrow>
          map_option (\<lambda>A. Inr (map dedup_hops (exchange_sort path_cost A)))
            (yens_loop (nat (ks_k ks) + 1) ks end' [dedup_hops firstPath] (G, [])))"

section \<open>Computing\<close>

definition node_not_found :: "string \<Rightarrow> string \<Rightarrow> string" where
  "node_not_found which node = which @ '' node '' @ node @ '' not found''"

definition Computing :: "KShortestSolver \<Rightarrow> string \<Rightarrow> string \<Rightarrow> PathInfo list result option" where
  "Computing ks start end' =
     (if start \<notin> set (graph_nodes (ks_edges ks)) then Some (Inl (node_not_found ''start'' start))
      else if end' \<notin> set (graph_nodes (ks_edges ks)) then Some (Inl (node_not_found ''end'' end'))
      else map_option (map_sum id (map (\<lambda>p. \<lparr>Hops = path_hops p, Rtt = path_cost p, RawRTT = 0\<rparr>)))
             (yensAlgorithm ks start end' (build_graph (ks_edges ks))))"

definition KShortest_selectTopPaths :: "Path list \<Rightarrow> int \<Rightarrow> Path list" where
  "KShortest_selectTopPaths paths num =
     (if int (length paths) \<le> num then paths
      else let shortPaths = exchange_sort path_rawRTT (filter (\<lambda>p. length (path_hops p) \<le> 4) paths);
               longPaths = exchange_sort path_rawRTT (filter (\<lambda>p. length (path_hops p) > 4) paths);
               result = take (nat num) shortPaths
           in result @ take (nat (num - int (length result))) longPaths)"

section \<open>Helpers and walks\<close>

lemma dup_after_iff: "dup_after seen hops \<longleftrightarrow> \<not> distinct hops \<or> set seen \<inter> set hops \<noteq> {}"
  by (induction seen hops rule: dup_after.induct) auto

lemma hasDuplicateNodes_iff [simp]: "hasDuplicateNodes hops \<longleftrightarrow> \<not> distinct hops"
  by (simp add: hasDuplicateNodes_def dup_after_iff)

lemma isInPath_iff [simp]: "isInPath n path \<longleftrightarrow> n \<in> set path"
  by (auto simp: isInPath_def)

lemma pathsSharePrefix_take:
  assumes "length rt \<le> length path"
  shows "pathsSharePrefix path rt \<longleftrightarrow> take (length rt) path = rt"
proof -
  have "pathsSharePrefix path rt \<longleftrightarrow> (\<forall>i < length rt. path ! i = rt ! i)"
    using assms by (auto simp: pathsSharePrefix_def list_all_iff)
  then show ?thesis using assms by (auto simp: list_eq_iff_nth_eq)
qed

lemma adj_update [simp]: "adj (AList.update u es G) v = (if v = u then es else adj G v)"
  by (simp add: adj_def update_conv' map_get_def)

lemma update_restore:
  "map_of G u = Some es \<Longrightarrow> distinct (map fst G) \<Longrightarrow> AList.update u es (AList.update u es' G) = G"
proof (induction G)
  case (Cons kv G)
  then show ?case by (cases kv) auto
qed simp

lemma set_spur_edges:
  assumes "length rt = Suc j"
  shows "e \<in> set (spur_edges A rt j es) \<longleftrightarrow> e \<in> set es \<and> DestinationIp e \<notin> set rt \<and>
    (\<forall>p \<in> set A. Suc j < length (path_hops p) \<and> take (Suc j) (path_hops p) = rt \<longrightarrow> DestinationIp e \<noteq> path_hops p ! Suc j)"
proof -
  have "e \<in> set (fold (\<lambda>path es.
         if length (path_hops path) > j \<and> pathsSharePrefix (path_hops path) rt \<and> j + 1 < length (path_hops path)
         then filter (\<lambda>e. DestinationIp e \<noteq> path_hops path ! (j + 1)) es else es) A fs) \<longleftrightarrow> e \<in> set fs \<and>
    (\<forall>p \<in> set A. Suc j < length (path_hops p) \<and> take (Suc j) (path_hops p) = rt \<longrightarrow> DestinationIp e \<noteq> path_hops p ! Suc j)" for fs
    using assms by (induction A arbitrary: fs) (auto simp: pathsSharePrefix_take)
  then show ?thesis by (auto simp: spur_edges_def)
qed

lemma walk_append:
  "walk G fN fE s (es @ fs) t \<longleftrightarrow> (\<exists>u. walk G fN fE s es u \<and> walk G fN fE u fs t)"
  by (induction es arbitrary: s) auto

lemma last_walk_hops: "walk G fN fE s es t \<Longrightarrow> last (walk_hops s es) = t"
  by (induction es arbitrary: s) (auto simp: walk_hops_def)

lemma walk_hops_append:
  assumes "walk G fN fE s es u"
  shows "walk_hops s (es @ fs) = butlast (walk_hops s es) @ walk_hops u fs"
proof -
  have "walk_hops s es = butlast (walk_hops s es) @ [u]"
    using last_walk_hops [OF assms] append_butlast_last_id [of "walk_hops s es"] by (simp add: walk_hops_def)
  then show ?thesis by (simp add: walk_hops_def)
qed

lemma length_walk_hops [simp]: "length (walk_hops s es) = Suc (length es)"
  by (simp add: walk_hops_def)

lemma walk_hops_take: "j \<le> length es \<Longrightarrow> take (Suc j) (walk_hops s es) = walk_hops s (take j es)"
  by (simp add: walk_hops_def take_map)

lemma walk_take:
  assumes "walk G fN fE s es t" "j \<le> length es"
  shows "walk G fN fE s (take j es) (walk_hops s es ! j)"
proof -
  have "walk G fN fE s (take j es @ drop j es) t" using assms(1) by simp
  then obtain u where u: "walk G fN fE s (take j es) u" by (auto simp: walk_append simp del: append_take_drop_id)
  then have "u = last (take (Suc j) (walk_hops s es))"
    using last_walk_hops walk_hops_take [OF assms(2)] by metis
  also have "\<dots> = walk_hops s es ! j"
    using assms(2) by (simp add: take_Suc_conv_app_nth)
  finally show ?thesis using u by simp
qed

lemma walk_drop:
  assumes "walk G fN fE s es t" "j \<le> length es"
  shows "walk G fN fE (walk_hops s es ! j) (drop j es) t"
proof -
  have "walk G fN fE s (take j es @ drop j es) t" using assms(1) by simp
  then obtain u where u: "walk G fN fE s (take j es) u" "walk G fN fE u (drop j es) t"
    by (auto simp: walk_append simp del: append_take_drop_id)
  from u(1) walk_take [OF assms] have "u = walk_hops s es ! j" by (metis last_walk_hops)
  with u(2) show ?thesis by simp
qed

lemma walk_mono:
  assumes "walk G fN fE s es t" "\<And>u v e. arc G fN fE u e v \<Longrightarrow> arc G' fN' fE' u e v"
  shows "walk G' fN' fE' s es t"
  using assms(1) by (induction es arbitrary: s) (auto intro: assms(2))

text \<open>The cost of a list of nodes is the cost of a walk through them.\<close>

lemma sum_path_walk:
  "walk G [] [] s es t \<Longrightarrow> \<exists>es'. walk G [] [] s es' t \<and> walk_hops s es' = walk_hops s es
     \<and> (\<forall>f. sum_path f G (walk_hops s es) = sum_list (map f es'))"
proof (induction es arbitrary: s)
  case (Cons e es)
  then have e: "e \<in> set (adj G s)" "walk G [] [] (DestinationIp e) es t" by (auto simp: arc_def)
  from Cons.IH [OF e(2)] obtain es' where es': "walk G [] [] (DestinationIp e) es' t"
    "walk_hops (DestinationIp e) es' = walk_hops (DestinationIp e) es"
    "\<forall>f. sum_path f G (walk_hops (DestinationIp e) es) = sum_list (map f es')" by blast
  obtain e' where e': "find (\<lambda>f. DestinationIp f = DestinationIp e) (adj G s) = Some e'"
    using e(1) by (cases "find (\<lambda>f. DestinationIp f = DestinationIp e) (adj G s)") (auto simp: find_None_iff)
  then have "e' \<in> set (adj G s)" "DestinationIp e' = DestinationIp e" by (auto simp: find_Some_iff)
  then show ?case
    using es' e' by (intro exI [of _ "e' # es'"]) (auto simp: walk_hops_def arc_def)
qed (auto simp: walk_hops_def)

lemma sum_path_update: "u \<notin> set (butlast p) \<Longrightarrow> sum_path f (AList.update u es G) p = sum_path f G p"
  by (induction f G p rule: sum_path.induct) auto

section \<open>Deviations\<close>

definition path_of :: "KShortestSolver \<Rightarrow> adjacency \<Rightarrow> string \<Rightarrow> string \<Rightarrow> Path \<Rightarrow> bool" where
  "path_of ks G s t p \<longleftrightarrow> (\<exists>es. walk G [] [] s es t \<and> distinct (walk_hops s es)
     \<and> p = \<lparr>path_hops = walk_hops s es, path_cost = walk_cost ks es, path_rawRTT = Fin (walk_rtt es)\<rparr>)"

definition names_ok :: "adjacency \<Rightarrow> string \<Rightarrow> bool" where
  "names_ok G s \<longleftrightarrow> (\<forall>n \<in> insert s (set (all_nodes G)). CHR ''-'' \<notin> set n)"

definition spur_graph :: "Path list \<Rightarrow> string list \<Rightarrow> nat \<Rightarrow> adjacency \<Rightarrow> adjacency" where
  "spur_graph A hops j G = AList.update (hops ! j) (spur_edges A (take (Suc j) hops) j (adj G (hops ! j))) G"

lemma path_of_hops:
  assumes "path_of ks G s t p"
  shows "path_hops p \<noteq> []" "distinct (path_hops p)" "set (path_hops p) \<subseteq> insert s (set (all_nodes G))"
  using assms walk_nodes by (fastforce simp: path_of_def walk_hops_def)+

lemma split_join_hops:
  assumes "path_of ks G s t p" "names_ok G s"
  shows "strings_split (strings_join arrow (path_hops p)) arrow = path_hops p"
  using path_of_hops [OF assms(1)] assms(2) by (intro split_join) (auto simp: arrow_def names_ok_def)

lemma join_hops_inject:
  assumes "path_of ks G s t p" "path_of ks G s t q" "names_ok G s"
  shows "strings_join arrow (path_hops p) = strings_join arrow (path_hops q) \<longleftrightarrow> path_hops p = path_hops q"
  by (metis split_join_hops assms)

lemma set_AList_update: "set (AList.update k v G) \<subseteq> insert (k, v) (set G)"
  by (induction G) auto

lemma good_update:
  assumes "good_graph ks G" "set es \<subseteq> set (adj G u)" "map_of G u \<noteq> None"
  shows "good_graph ks (AList.update u es G)"
proof -
  have "u \<in> set (all_nodes G)" using assms(3) by (auto simp: all_nodes_def intro: rev_image_eqI dest: map_of_SomeD)
  then have u: "u \<noteq> ''''" using assms(1) by (auto simp: good_graph_def)
  have d: "DestinationIp e \<noteq> ''''" if "e \<in> set fs" "(k, fs) \<in> set (AList.update u es G)" for k fs e
  proof (cases "(k, fs) \<in> set G")
    case True
    then have "DestinationIp e \<in> set (all_nodes G)" using that(1) by (force simp: all_nodes_def)
    then show ?thesis using assms(1) by (auto simp: good_graph_def)
  next
    case False
    then have "e \<in> set (adj G u)" using that set_AList_update [of u es G] assms(2) by auto
    then have "DestinationIp e \<in> set (all_nodes G)" using adj_all_nodes by blast
    then show ?thesis using assms(1) by (auto simp: good_graph_def)
  qed
  have k: "k \<noteq> ''''" if "(k, fs) \<in> set (AList.update u es G)" for k fs
  proof (cases "(k, fs) \<in> set G")
    case True
    then have "k \<in> set (all_nodes G)" using imageI [of _ _ fst] by (fastforce simp: all_nodes_def)
    then show ?thesis using assms(1) by (auto simp: good_graph_def)
  next
    case False
    then show ?thesis using that set_AList_update [of u es G] u by auto
  qed
  have "'''' \<notin> fst ` set (AList.update u es G)" using k by fastforce
  moreover have "'''' \<notin> set (concat (map (\<lambda>(s, es). map DestinationIp es) (AList.update u es G)))"
    using d by fastforce
  ultimately have "'''' \<notin> set (all_nodes (AList.update u es G))"
    unfolding all_nodes_def by simp
  then show ?thesis
    using assms(1,2) by (auto simp: good_graph_def distinct_update)
qed

lemma walk_avoids: "walk G fN fE u fs t \<Longrightarrow> set (map DestinationIp fs) \<inter> set fN = {}"
  by (induction fs arbitrary: u) (auto simp: arc_def)

lemma spur_edges_subset: "set (spur_edges A rt j es) \<subseteq> set es"
proof -
  have "set (fold (\<lambda>path es.
         if length (path_hops path) > j \<and> pathsSharePrefix (path_hops path) rt \<and> j + 1 < length (path_hops path)
         then filter (\<lambda>e. DestinationIp e \<noteq> path_hops path ! (j + 1)) es else es) A fs) \<subseteq> set fs" (is "set (fold ?f A fs) \<subseteq> _") for fs
  proof (induction A arbitrary: fs)
    case (Cons a A)
    have "set (?f a fs) \<subseteq> set fs" by auto
    with Cons [of "?f a fs"] have "set (fold ?f A (?f a fs)) \<subseteq> set fs" by (rule order_trans)
    then show ?case unfolding fold_simps .
  qed simp
  from this [of "filter (\<lambda>e. \<not> isInPath (DestinationIp e) rt) es"] show ?thesis
    unfolding spur_edges_def by auto
qed

lemma spur_arc: "arc (spur_graph A hops j G) fN fE u e v \<Longrightarrow> arc G [] [] u e v"
  using spur_edges_subset by (fastforce simp: arc_def spur_graph_def split: if_splits)

lemma walk_out:
  assumes "walk G fN fE s es t" "j < length es"
  shows "es ! j \<in> set (adj G (walk_hops s es ! j))" "DestinationIp (es ! j) = walk_hops s es ! Suc j"
proof -
  have "walk G fN fE (walk_hops s es ! j) (es ! j # drop (Suc j) es) t"
    using walk_drop [OF assms(1), of j] assms(2) by (simp add: Cons_nth_drop_Suc)
  then show "es ! j \<in> set (adj G (walk_hops s es ! j))" by (simp add: arc_def)
  show "DestinationIp (es ! j) = walk_hops s es ! Suc j" using assms(2) by (simp add: walk_hops_def)
qed

text \<open>A path and a position on it before its end.\<close>

lemma position_facts:
  assumes "path_of ks G s t p" "j < length (path_hops p) - 1" "good_graph ks G"
  shows "map_of G (path_hops p ! j) = Some (adj G (path_hops p ! j))" "path_hops p ! j \<noteq> t"
    "t \<notin> set (take (Suc j) (path_hops p))" "path_hops p ! j \<notin> set (take j (path_hops p))"
    "path_hops p ! j \<noteq> ''''"
proof -
  obtain es where es: "walk G [] [] s es t" "distinct (walk_hops s es)" "path_hops p = walk_hops s es" "j < length es"
    using assms by (auto simp: path_of_def)
  note out = walk_out [OF es(1,4)]
  then show "map_of G (path_hops p ! j) = Some (adj G (path_hops p ! j))"
    by (cases "map_of G (walk_hops s es ! j)") (auto simp: adj_def es(3))
  have "t = walk_hops s es ! length es" using last_walk_hops [OF es(1)] last_conv_nth [of "walk_hops s es"]
    by (auto simp: walk_hops_def)
  then have t: "i \<le> length es \<Longrightarrow> walk_hops s es ! i = t \<longleftrightarrow> i = length es" for i
    using nth_eq_iff_index_eq [OF es(2), of i "length es"] by simp
  then show "path_hops p ! j \<noteq> t" using es(3,4) by auto
  show "t \<notin> set (take (Suc j) (path_hops p))" using t es(3,4) by (auto simp: in_set_conv_nth)
  show "path_hops p ! j \<notin> set (take j (path_hops p))"
    using es nth_eq_iff_index_eq [OF es(2)] by (auto simp: in_set_conv_nth)
  show "path_hops p ! j \<noteq> ''''" using adj_all_nodes [OF out(1)] assms(3) es(3) by (auto simp: good_graph_def)
qed

lemma deviation_path:
  assumes p: "path_of ks G s t p" "j < length (path_hops p) - 1" and g: "good_graph ks G"
    and fs: "walk (spur_graph A (path_hops p) j G) (take j (path_hops p)) [] (path_hops p ! j) fs t"
      "distinct (walk_hops (path_hops p ! j) fs)"
  defines "rt \<equiv> take (Suc j) (path_hops p)" and "G' \<equiv> spur_graph A (path_hops p) j G"
  shows "path_of ks G s t \<lparr>path_hops = take j (path_hops p) @ walk_hops (path_hops p ! j) fs,
      path_cost = calculatePathCost ks rt G' + walk_cost ks fs, path_rawRTT = Fin (calculatePathRTT rt G' + walk_rtt fs)\<rparr>"
proof -
  let ?u = "path_hops p ! j"
  note F = position_facts [OF p g]
  obtain es where es: "walk G [] [] s es t" "distinct (walk_hops s es)" "path_hops p = walk_hops s es" "j < length es"
    using p by (auto simp: path_of_def)
  have w: "walk G [] [] s (take j es) ?u" using walk_take [OF es(1)] es(3,4) by simp
  have rt: "walk_hops s (take j es) = rt" "butlast rt = take j (path_hops p)"
    using walk_hops_take [of j es s] butlast_take [of "Suc j" "walk_hops s es"] es(3,4)
    by (simp_all add: rt_def)
  from sum_path_walk [OF w] obtain es' where es': "walk G [] [] s es' ?u" "walk_hops s es' = rt"
    "\<forall>f. sum_path f G rt = sum_list (map f es')" unfolding rt by blast
  have sum: "sum_path f G' rt = sum_list (map f es')" for f
    using es'(3) F(4) by (simp add: G'_def spur_graph_def sum_path_update rt(2))
  have "walk G [] [] s (es' @ fs) t"
    unfolding walk_append using es'(1) walk_mono [OF fs(1), of G "[]" "[]"] spur_arc by blast
  moreover have hops: "walk_hops s (es' @ fs) = take j (path_hops p) @ walk_hops ?u fs"
    using walk_hops_append [OF es'(1), of fs] by (simp add: es'(2) rt(2))
  moreover have "distinct (walk_hops s (es' @ fs))"
  proof -
    have "set (walk_hops ?u fs) = insert ?u (set (map DestinationIp fs))" by (simp add: walk_hops_def)
    moreover have "distinct (take j (path_hops p))" using es(2,3) by simp
    ultimately show ?thesis unfolding hops using fs(2) F(4) walk_avoids [OF fs(1)] by auto
  qed
  ultimately show ?thesis
    using sum by (auto simp: path_of_def calculatePathCost_def calculatePathRTT_def walk_cost_def walk_rtt_def
        intro!: exI [of _ "es' @ fs"])
qed

lemma deviation_new:
  assumes p: "path_of ks G s t p" "j < length (path_hops p) - 1" and g: "good_graph ks G"
    and fs: "walk (spur_graph A (path_hops p) j G) (take j (path_hops p)) [] (path_hops p ! j) fs t"
    and q: "q \<in> set A"
  shows "path_hops q \<noteq> take j (path_hops p) @ walk_hops (path_hops p ! j) fs"
proof
  assume eq: "path_hops q = take j (path_hops p) @ walk_hops (path_hops p ! j) fs"
  obtain f fs' where f: "fs = f # fs'" using fs position_facts(2) [OF p g] by (cases fs) auto
  have j: "j < length (path_hops p)" using p(2) by linarith
  then have q': "path_hops q = take (Suc j) (path_hops p) @ DestinationIp f # map DestinationIp fs'"
    using eq by (simp add: f walk_hops_def take_Suc_conv_app_nth)
  have "f \<in> set (spur_edges A (take (Suc j) (path_hops p)) j (adj G (path_hops p ! j)))"
    using fs by (simp add: f arc_def spur_graph_def)
  then have "DestinationIp f \<noteq> path_hops q ! Suc j"
    using q q' j by (subst (asm) set_spur_edges) auto
  then show False using q' j by (simp add: nth_append)
qed

section \<open>The candidates\<close>

definition cand_path :: "string \<times> float64 \<times> xfloat \<Rightarrow> Path" where
  "cand_path = (\<lambda>(n, c, r). \<lparr>path_hops = removeConsecutiveDuplicates (strings_split n arrow), path_cost = c, path_rawRTT = r\<rparr>)"

definition cands :: "PQNode list \<Rightarrow> (string \<times> float64 \<times> xfloat) multiset" where
  "cands B = mset (map pq_core B)"

text \<open>A candidate is a path, is not accepted yet and is queued once.\<close>

definition cands_ok :: "KShortestSolver \<Rightarrow> adjacency \<Rightarrow> string \<Rightarrow> string \<Rightarrow> Path list \<Rightarrow> PQNode list \<Rightarrow> bool" where
  "cands_ok ks G s t A B \<longleftrightarrow>
     (\<forall>x \<in># cands B. path_of ks G s t (cand_path x) \<and> fst x = strings_join arrow (path_hops (cand_path x))
        \<and> path_hops (cand_path x) \<notin> path_hops ` set A)
     \<and> (\<forall>n. count (image_mset fst (cands B)) n \<le> 1)"

lemma parse_candidate_core: "parse_candidate x = cand_path (pq_core x)"
  by (simp add: parse_candidate_def cand_path_def pq_core_def)

lemma cand_path_of:
  assumes "path_of ks G s t p" "names_ok G s"
  shows "cand_path (strings_join arrow (path_hops p), path_cost p, path_rawRTT p) = p"
  using split_join_hops [OF assms] path_of_hops(2) [OF assms(1)]
  by (simp add: cand_path_def removeConsecutiveDuplicates_distinct)

lemma isPathInList_iff:
  assumes "path_of ks G s t p" "\<And>q. q \<in> set A \<Longrightarrow> path_of ks G s t q" "names_ok G s"
  shows "isPathInList p A \<longleftrightarrow> path_hops p \<in> path_hops ` set A"
proof -
  have "isPathInList p A \<longleftrightarrow> (\<exists>q \<in> set A. path_hops q = path_hops p)"
    using join_hops_inject [OF assms(2) assms(1,3)] by (auto simp: isPathInList_def)
  then show ?thesis by (metis imageE imageI)
qed

lemma isPathInQueue_iff: "isPathInQueue p B \<longleftrightarrow> strings_join arrow (path_hops p) \<in># image_mset fst (cands B)"
  by (force simp: isPathInQueue_def cands_def pq_core_def image_image)

lemma cands_push: "cands (pq_push x B) = add_mset (pq_core x) (cands B)"
  using pq.push_core [of x B] by (simp add: cands_def)

lemma queue_candidate:
  assumes p: "path_of ks G s t p" "path_hops p \<notin> path_hops ` set A" and n: "names_ok G s"
    and B: "cands_ok ks G s t A B" "\<not> isPathInQueue p B"
  shows "cands_ok ks G s t A (pq_push \<lparr>pq_node = strings_join arrow (path_hops p), pq_cost = path_cost p,
    pq_rawRTT = path_rawRTT p, pq_index = 0\<rparr> B)"
proof -
  let ?a = "strings_join arrow (path_hops p)"
  have "count (image_mset fst (cands B)) ?a = 0" using B(2) by (simp only: isPathInQueue_iff not_in_iff)
  moreover have "count (image_mset fst (cands B)) m \<le> 1" for m using B(1) by (simp add: cands_ok_def)
  ultimately have "count (add_mset ?a (image_mset fst (cands B))) m \<le> 1" for m
    by (cases "m = ?a") simp_all
  then show ?thesis
    using B(1) p cand_path_of [OF p(1) n] by (simp add: cands_ok_def cands_push pq_core_def)
qed

lemma candidate_ok:
  assumes p: "path_of ks G s t p" "j < length (path_hops p) - 1" and g: "good_graph ks G" and n: "names_ok G s"
    and A: "\<And>q. q \<in> set A \<Longrightarrow> path_of ks G s t q" and B: "cands_ok ks G s t A B"
    and fs: "walk (spur_graph A (path_hops p) j G) (take j (path_hops p)) [] (path_hops p ! j) fs t"
      "distinct (walk_hops (path_hops p ! j) fs)"
  defines "B' \<equiv> candidate ks A (spur_graph A (path_hops p) j G) (take (Suc j) (path_hops p))
      \<lparr>path_hops = walk_hops (path_hops p ! j) fs, path_cost = walk_cost ks fs, path_rawRTT = Fin (walk_rtt fs)\<rparr> B"
  shows "cands_ok ks G s t A B' \<and> cands B \<subseteq># cands B' \<and> cands B' \<noteq> {#}"
proof -
  define cp where "cp = \<lparr>path_hops = take j (path_hops p) @ walk_hops (path_hops p ! j) fs,
      path_cost = calculatePathCost ks (take (Suc j) (path_hops p)) (spur_graph A (path_hops p) j G) + walk_cost ks fs,
      path_rawRTT = Fin (calculatePathRTT (take (Suc j) (path_hops p)) (spur_graph A (path_hops p) j G) + walk_rtt fs)\<rparr>"
  have cp: "path_of ks G s t cp" unfolding cp_def by (rule deviation_path [OF p g fs])
  have new: "path_hops cp \<notin> path_hops ` set A"
    using deviation_new [OF p g fs(1)] by (force simp: cp_def)
  have "butlast (take (Suc j) (path_hops p)) = take j (path_hops p)"
    using butlast_take [of "Suc j" "path_hops p"] p(2) by simp
  then have "B' = (if \<not> isPathInQueue cp B
      then pq_push \<lparr>pq_node = strings_join arrow (path_hops cp), pq_cost = path_cost cp, pq_rawRTT = path_rawRTT cp, pq_index = 0\<rparr> B
      else B)"
    using path_of_hops(2) [OF cp] new isPathInList_iff [OF cp A n]
    unfolding B'_def candidate_def cp_def by (simp add: Let_def removeConsecutiveDuplicates_distinct)
  then show ?thesis
    using queue_candidate [OF cp new n B] B by (auto simp: cands_push isPathInQueue_iff)
qed

section \<open>One round of deviations\<close>

lemma spur_ok:
  assumes p: "path_of ks G s t p" "j < length (path_hops p) - 1" and g: "good_graph ks G" and n: "names_ok G s"
    and A: "\<And>q. q \<in> set A \<Longrightarrow> path_of ks G s t q" and B: "cands_ok ks G s t A B"
  shows "\<exists>B'. spur ks t A (path_hops p, j) (G, B) = Some (G, B') \<and> cands_ok ks G s t A B' \<and> cands B \<subseteq># cands B'
    \<and> ((\<exists>es. walk (spur_graph A (path_hops p) j G) (take j (path_hops p)) [] (path_hops p ! j) es t) \<longrightarrow> cands B' \<noteq> {#})"
proof -
  let ?u = "path_hops p ! j" and ?G = "spur_graph A (path_hops p) j G"
  note F = position_facts [OF p g]
  have bl: "butlast (take (Suc j) (path_hops p)) = take j (path_hops p)"
    using butlast_take [of "Suc j" "path_hops p"] p(2) by simp
  have restore: "AList.update ?u (adj G ?u) ?G = G"
    unfolding spur_graph_def using g by (intro update_restore F(1)) (simp add: good_graph_def)
  have "good_graph ks ?G"
    unfolding spur_graph_def using good_update [OF g spur_edges_subset] F(1) by simp
  from findShortestPath_ok [OF this F(5), of t "take j (path_hops p)" "[]"] obtain r where
    r: "findShortestPath ks ?u t ?G (take j (path_hops p)) [] = Some r" "answer_ok ks ?G (take j (path_hops p)) [] ?u t r"
    by blast
  note G' = spur_graph_def [of A "path_hops p" j G, symmetric]
  show ?thesis
  proof (cases r)
    case (Inl err)
    then have "spur ks t A (path_hops p, j) (G, B) = Some (G, B)"
      using r(1) F(1-3) restore by (simp add: spur_def Let_def bl G')
    moreover have "\<nexists>es. walk ?G (take j (path_hops p)) [] ?u es t" using r(2) Inl by (simp add: answer_ok_def)
    ultimately show ?thesis using B by blast
  next
    case (Inr sp)
    then obtain fs where fs: "walk ?G (take j (path_hops p)) [] ?u fs t" "distinct (walk_hops ?u fs)"
      "sp = \<lparr>path_hops = walk_hops ?u fs, path_cost = walk_cost ks fs, path_rawRTT = Fin (walk_rtt fs)\<rparr>"
      using r(2) by (auto simp: answer_ok_def)
    have "spur ks t A (path_hops p, j) (G, B) = Some (G, candidate ks A ?G (take (Suc j) (path_hops p)) sp B)"
      using r(1) Inr F(1-3) restore fs by (simp add: spur_def Let_def bl G')
    with candidate_ok [OF p g n A B fs(1,2)] fs(3) show ?thesis by simp
  qed
qed

definition deviates :: "Path list \<Rightarrow> adjacency \<Rightarrow> string \<Rightarrow> string list \<times> nat \<Rightarrow> bool" where
  "deviates A G t = (\<lambda>(hops, j). \<exists>es. walk (spur_graph A hops j G) (take j hops) [] (hops ! j) es t)"

lemma spurs_ok:
  assumes g: "good_graph ks G" "names_ok G s" and A: "\<And>q. q \<in> set A \<Longrightarrow> path_of ks G s t q"
  shows "cands_ok ks G s t A B \<Longrightarrow> (\<And>h j. (h, j) \<in> set ps \<Longrightarrow> \<exists>p \<in> set A. h = path_hops p \<and> j < length h - 1)
    \<Longrightarrow> \<exists>B'. spurs ks t A ps (G, B) = Some (G, B') \<and> cands_ok ks G s t A B' \<and> cands B \<subseteq># cands B'
          \<and> (\<forall>x \<in> set ps. deviates A G t x \<longrightarrow> cands B' \<noteq> {#})"
proof (induction ps arbitrary: B)
  case (Cons x ps)
  obtain h j where x: "x = (h, j)" by fastforce
  with Cons.prems(2) [of h j] obtain p where p: "p \<in> set A" "h = path_hops p" "j < length (path_hops p) - 1" by auto
  from spur_ok [OF A [OF p(1)] p(3) g A Cons.prems(1)] obtain B1 where
    B1: "spur ks t A x (G, B) = Some (G, B1)" "cands_ok ks G s t A B1" "cands B \<subseteq># cands B1"
      "deviates A G t x \<longrightarrow> cands B1 \<noteq> {#}" by (auto simp: x p(2) deviates_def)
  have "\<exists>p \<in> set A. h = path_hops p \<and> j < length h - 1" if "(h, j) \<in> set ps" for h j
    using Cons.prems(2) [of h j] that by simp
  from Cons.IH [OF B1(2) this] obtain B2 where
    B2: "spurs ks t A ps (G, B1) = Some (G, B2)" "cands_ok ks G s t A B2" "cands B1 \<subseteq># cands B2"
      "\<forall>x \<in> set ps. deviates A G t x \<longrightarrow> cands B2 \<noteq> {#}" by blast
  have "cands B \<subseteq># cands B2" using B1(3) B2(3) by (rule subset_mset.order_trans)
  moreover have "cands B2 \<noteq> {#}" if "cands B1 \<noteq> {#}" using that B2(3) by auto
  ultimately show ?case using B1(1,4) B2(1,2,4) by auto
qed auto

lemma positions_mem: "(h, j) \<in> set (positions A) \<longleftrightarrow> (\<exists>p \<in> set A. h = path_hops p \<and> j < length h - 1)"
  by (force simp: positions_def)

section \<open>Completeness\<close>

lemma walk_iff_nth:
  "walk G fN fE s es t \<longleftrightarrow> (\<forall>i < length es. arc G fN fE (walk_hops s es ! i) (es ! i) (walk_hops s es ! Suc i))
     \<and> walk_hops s es ! length es = t"
proof (induction es arbitrary: s)
  case (Cons e es)
  have "walk_hops s (e # es) = s # walk_hops (DestinationIp e) es" by (simp add: walk_hops_def)
  moreover have "walk_hops (DestinationIp e) es ! 0 = DestinationIp e" by (simp add: walk_hops_def)
  ultimately show ?case by (simp add: Cons.IH All_less_Suc2)
qed (simp add: walk_hops_def)

text \<open>A simple path that leaves the accepted ones after position \<open>j\<close> is a deviation there.\<close>

lemma path_deviates:
  assumes es: "walk G [] [] s es t" "distinct (walk_hops s es)" and j: "j < length es"
    and h: "take (Suc j) h = take (Suc j) (walk_hops s es)"
    and out: "\<And>q. q \<in> set A \<Longrightarrow> Suc j < length (path_hops q) \<Longrightarrow> take (Suc j) (path_hops q) = take (Suc j) h
      \<Longrightarrow> path_hops q ! Suc j \<noteq> walk_hops s es ! Suc j"
  shows "deviates A G t (h, j)"
proof -
  let ?H = "walk_hops s es"
  have H: "?H ! i = ?H ! k \<longleftrightarrow> i = k" if "i \<le> length es" "k \<le> length es" for i k
    using that es(2) by (simp add: nth_eq_iff_index_eq)
  have hj: "h ! j = ?H ! j" "take j h = take j ?H"
    using arg_cong [OF h, of "\<lambda>l. l ! j"] arg_cong [OF h, of "take j"] by (simp_all add: min_def)
  have len: "length (take (Suc j) h) = Suc j" unfolding h using j by simp
  have notin: "?H ! k \<notin> set (take i ?H)" if "i \<le> k" "k \<le> length es" for i k
    using that H by (auto simp: in_set_conv_nth)
  have dh: "walk_hops (?H ! j) (drop j es) ! i = ?H ! (j + i)" if "i \<le> length (drop j es)" for i
    using that j by (cases i) (auto simp: walk_hops_def)
  have "walk (spur_graph A h j G) (take j h) [] (?H ! j) (drop j es) t"
    unfolding walk_iff_nth
  proof (intro conjI allI impI)
    fix i assume i: "i < length (drop j es)"
    have e: "es ! (j + i) \<in> set (adj G (?H ! (j + i)))" "DestinationIp (es ! (j + i)) = ?H ! Suc (j + i)"
      using walk_out [OF es(1), of "j + i"] i by auto
    have "es ! (j + i) \<in> set (adj (spur_graph A h j G) (?H ! (j + i)))"
    proof (cases "i = 0")
      case True
      have "es ! j \<in> set (spur_edges A (take (Suc j) h) j (adj G (h ! j)))"
        unfolding set_spur_edges [OF len]
      proof (intro conjI ballI impI)
        show "DestinationIp (es ! j) \<noteq> path_hops q ! Suc j"
          if "q \<in> set A" "Suc j < length (path_hops q) \<and> take (Suc j) (path_hops q) = take (Suc j) h" for q
          using out [of q] that e(2) True by auto
      qed (use e True notin [of "Suc j" "Suc j"] j in \<open>simp_all add: hj h\<close>)
      then show ?thesis using True by (simp add: spur_graph_def hj)
    next
      case False
      then have "?H ! (j + i) \<noteq> h ! j" using H [of "j + i" j] i by (simp add: hj)
      then show ?thesis using e by (simp add: spur_graph_def)
    qed
    then show "arc (spur_graph A h j G) (take j h) [] (walk_hops (?H ! j) (drop j es) ! i) (drop j es ! i)
        (walk_hops (?H ! j) (drop j es) ! Suc i)"
      using e i notin [of j "Suc (j + i)"] by (simp add: arc_def dh hj)
  next
    show "walk_hops (?H ! j) (drop j es) ! length (drop j es) = t"
      using es(1) j by (simp add: dh walk_iff_nth)
  qed
  then show ?thesis by (auto simp: deviates_def hj)
qed

lemma no_deviation_complete:
  assumes A: "A \<noteq> []" "\<And>q. q \<in> set A \<Longrightarrow> path_of ks G s t q"
    and dev: "\<And>x. x \<in> set (positions A) \<Longrightarrow> \<not> deviates A G t x"
    and es: "walk G [] [] s es t" "distinct (walk_hops s es)"
  shows "walk_hops s es \<in> path_hops ` set A"
proof (rule ccontr)
  assume new: "walk_hops s es \<notin> path_hops ` set A"
  let ?H = "walk_hops s es"
  have q: "\<exists>fs. walk G [] [] s fs t \<and> distinct (walk_hops s fs) \<and> path_hops q = walk_hops s fs" if "q \<in> set A" for q
    using A(2) [OF that] by (auto simp: path_of_def)
  define P where "P j \<longleftrightarrow> j \<le> length es \<and> (\<exists>q \<in> set A. take (Suc j) (path_hops q) = take (Suc j) ?H)" for j
  have "P 0" using A(1) q by (cases A) (fastforce simp: P_def walk_hops_def)+
  moreover have le: "P j \<Longrightarrow> j \<le> length es" for j by (simp add: P_def)
  ultimately have max: "P (Greatest P)" "\<And>j. P j \<Longrightarrow> j \<le> Greatest P"
    using GreatestI_nat [of P 0 "length es"] Greatest_le_nat [of P _ "length es"] by auto
  define j where "j = Greatest P"
  obtain p where p: "p \<in> set A" "take (Suc j) (path_hops p) = take (Suc j) ?H" "j \<le> length es"
    using max(1) by (auto simp: P_def j_def)
  obtain fs where fs: "walk G [] [] s fs t" "distinct (walk_hops s fs)" "path_hops p = walk_hops s fs"
    using q [OF p(1)] by blast
  have jf: "j \<le> length fs" using arg_cong [OF p(2), of length] p(3) fs(3) by (simp add: min_def split: if_splits)
  have nth: "walk_hops s fs ! j = ?H ! j" using arg_cong [OF p(2), of "\<lambda>l. l ! j"] fs(3) by simp
  have t: "?H ! length es = t" "walk_hops s fs ! length fs = t" using es(1) fs(1) by (simp_all add: walk_iff_nth)
  have ends: "j = length es \<longleftrightarrow> j = length fs"
    using nth t nth_eq_iff_index_eq [OF es(2), of j "length es"] nth_eq_iff_index_eq [OF fs(2), of j "length fs"] p(3) jf
    by auto
  have ne: "j \<noteq> length es"
  proof
    assume "j = length es"
    then have "path_hops p = ?H" using ends p(2) fs(3) by simp
    with new p(1) show False by (metis imageI)
  qed
  then have j: "j < length es" "j < length fs" using p(3) jf ends by auto
  have "path_hops q ! Suc j \<noteq> ?H ! Suc j"
    if "q \<in> set A" "Suc j < length (path_hops q)" "take (Suc j) (path_hops q) = take (Suc j) (path_hops p)" for q
  proof
    assume "path_hops q ! Suc j = ?H ! Suc j"
    then have "take (Suc (Suc j)) (path_hops q) = take (Suc (Suc j)) ?H"
      using that p(2) j by (simp add: take_Suc_conv_app_nth [of "Suc j"])
    then have "P (Suc j)" using that(1) j by (auto simp: P_def)
    then show False using max(2) [of "Suc j"] by (simp add: j_def)
  qed
  from path_deviates [OF es j(1) p(2), of A] this have "deviates A G t (path_hops p, j)" by blast
  moreover have "(path_hops p, j) \<in> set (positions A)" using p(1) j(2) fs(3) by (auto simp: positions_mem intro!: bexI [of _ p])
  ultimately show False using dev by blast
qed

section \<open>The loop\<close>

definition all_simple_paths :: "adjacency \<Rightarrow> string \<Rightarrow> string \<Rightarrow> Path list \<Rightarrow> bool" where
  "all_simple_paths G s t A \<longleftrightarrow>
     (\<forall>es. walk G [] [] s es t \<and> distinct (walk_hops s es) \<longrightarrow> walk_hops s es \<in> path_hops ` set A)"

definition paths_ok :: "KShortestSolver \<Rightarrow> adjacency \<Rightarrow> string \<Rightarrow> string \<Rightarrow> Path list \<Rightarrow> bool" where
  "paths_ok ks G s t A \<longleftrightarrow> A \<noteq> [] \<and> (\<forall>p \<in> set A. path_of ks G s t p) \<and> distinct (map path_hops A)"

lemma cands_pop:
  assumes "heap_pop pq_cost pq_upd B = Inr (x, B')"
  shows "cands B = add_mset (pq_core x) (cands B')"
  using pq.pop_spec(1) [OF assms] by (simp add: cands_def)

lemma accept_candidate:
  assumes A: "paths_ok ks G s t A" and B: "cands_ok ks G s t A B" and pop: "heap_pop pq_cost pq_upd B = Inr (x, B')"
    and n: "names_ok G s"
  shows "\<not> isPathInList (parse_candidate x) A" "paths_ok ks G s t (A @ [parse_candidate x])"
    "cands_ok ks G s t (A @ [parse_candidate x]) B'"
proof -
  let ?p = "parse_candidate x"
  note M = cands_pop [OF pop]
  have p: "path_of ks G s t ?p" "pq_node x = strings_join arrow (path_hops ?p)" "path_hops ?p \<notin> path_hops ` set A"
    using B M by (auto simp: cands_ok_def parse_candidate_core pq_core_def)
  then show "\<not> isPathInList ?p A" using isPathInList_iff [OF p(1) _ n] A by (auto simp: paths_ok_def)
  show "paths_ok ks G s t (A @ [?p])" using A p by (auto simp: paths_ok_def)
  have once: "count (image_mset fst (cands B)) m \<le> 1" for m using B by (simp add: cands_ok_def)
  have "path_hops (cand_path y) \<noteq> path_hops ?p" if "y \<in># cands B'" for y
  proof
    assume "path_hops (cand_path y) = path_hops ?p"
    then have "fst y = pq_node x" using B M that p(2) by (auto simp: cands_ok_def)
    then have "pq_node x \<in># image_mset fst (cands B')" using that by force
    then have "0 < count (image_mset fst (cands B')) (pq_node x)" by (simp only: count_greater_zero_iff)
    moreover have "Suc (count (image_mset fst (cands B')) (pq_node x)) \<le> 1"
      using once [of "pq_node x"] unfolding M by (simp add: pq_core_def)
    ultimately show False by linarith
  qed
  moreover have "count (image_mset fst (cands B')) m \<le> 1" for m
    using once [of m] unfolding M by (auto split: if_splits)
  ultimately show "cands_ok ks G s t (A @ [?p]) B'"
    using B M by (auto simp: cands_ok_def)
qed

lemma yens_loop_ok:
  assumes g: "good_graph ks G" and n: "names_ok G s"
  shows "paths_ok ks G s t A \<Longrightarrow> cands_ok ks G s t A B \<Longrightarrow> nat (ks_k ks) - length A < m
    \<Longrightarrow> \<exists>A'. yens_loop m ks t A (G, B) = Some A' \<and> paths_ok ks G s t A' \<and> length A' \<le> max (length A) (nat (ks_k ks))
         \<and> (length A' < nat (ks_k ks) \<longrightarrow> all_simple_paths G s t A')"
proof (induction m arbitrary: A B)
  case (Suc m)
  show ?case
  proof (cases "int (length A) < ks_k ks")
    case False
    then show ?thesis using Suc.prems by (simp add: zless_nat_eq_int_zless)
  next
    case True
    have A: "q \<in> set A \<Longrightarrow> path_of ks G s t q" for q using Suc.prems(1) by (simp add: paths_ok_def)
    from spurs_ok [OF g n A Suc.prems(2), of "positions A"] obtain B1 where
      B1: "spurs ks t A (positions A) (G, B) = Some (G, B1)" "cands_ok ks G s t A B1"
        "\<forall>x \<in> set (positions A). deviates A G t x \<longrightarrow> cands B1 \<noteq> {#}"
      unfolding positions_mem by blast
    show ?thesis
    proof (cases "heap_pop pq_cost pq_upd B1")
      case (Inl e)
      then have "B1 = []" using pq.pop_total [of B1] by fastforce
      then have "\<not> deviates A G t x" if "x \<in> set (positions A)" for x using B1(3) that by (simp add: cands_def)
      then have "all_simple_paths G s t A"
        using no_deviation_complete [OF _ A] Suc.prems(1) by (auto simp: all_simple_paths_def paths_ok_def)
      moreover have "yens_loop (Suc m) ks t A (G, B) = Some A" using True B1(1) Inl by simp
      ultimately show ?thesis using Suc.prems(1) by auto
    next
      case (Inr xB)
      then obtain x B2 where pop: "heap_pop pq_cost pq_upd B1 = Inr (x, B2)" by (cases xB) auto
      note acc = accept_candidate [OF Suc.prems(1) B1(2) pop n]
      have "yens_loop (Suc m) ks t A (G, B) = yens_loop m ks t (A @ [parse_candidate x]) (G, B2)"
        using True B1(1) pop acc(1) by (simp add: Let_def)
      moreover have "max (length (A @ [parse_candidate x])) (nat (ks_k ks)) = nat (ks_k ks)" using True by simp
      ultimately show ?thesis using Suc.IH [OF acc(2,3)] Suc.prems(3) True by auto
    qed
  qed
qed simp

lemma yens_ok:
  assumes g: "good_graph ks G" "names_ok G s" "s \<noteq> ''''" "0 < ks_k ks"
  shows "\<exists>r. yensAlgorithm ks s t G = Some r \<and>
    (case r of Inl msg \<Rightarrow> msg = no_path s t \<and> (\<nexists>es. walk G [] [] s es t)
     | Inr A \<Rightarrow> paths_ok ks G s t A \<and> int (length A) \<le> ks_k ks \<and> sorted (map path_cost A)
         \<and> (int (length A) < ks_k ks \<longrightarrow> all_simple_paths G s t A))"
proof -
  obtain r where r: "findShortestPath ks s t G [] [] = Some r" "answer_ok ks G [] [] s t r"
    using findShortestPath_ok [OF g(1,3)] by blast
  show ?thesis
  proof (cases r)
    case (Inl msg)
    then show ?thesis using r by (simp add: yensAlgorithm_def answer_ok_def)
  next
    case (Inr p)
    then have p: "path_of ks G s t p" using r(2) by (auto simp: answer_ok_def path_of_def)
    have same: "dedup_hops q = q" if "path_of ks G s t q" for q
      using path_of_hops(2) [OF that] by (simp add: dedup_hops_def removeConsecutiveDuplicates_distinct)
    have "paths_ok ks G s t [p]" using p by (simp add: paths_ok_def)
    moreover have "cands_ok ks G s t [p] []" by (simp add: cands_ok_def cands_def)
    moreover have "nat (ks_k ks) - length [p] < nat (ks_k ks) + 1" by simp
    ultimately obtain A where A: "yens_loop (nat (ks_k ks) + 1) ks t [p] (G, []) = Some A" "paths_ok ks G s t A"
      "length A \<le> max 1 (nat (ks_k ks))" "length A < nat (ks_k ks) \<longrightarrow> all_simple_paths G s t A"
      using yens_loop_ok [OF g(1,2), of t "[p]" "[]" "nat (ks_k ks) + 1"] by (auto simp del: yens_loop.simps)
    let ?A = "exchange_sort path_cost A"
    have "map dedup_hops ?A = ?A" using A(2) same by (intro map_idI) (simp add: paths_ok_def)
    then have "yensAlgorithm ks s t G = Some (Inr ?A)"
      using r Inr A(1) same [OF p] by (simp add: yensAlgorithm_def del: yens_loop.simps)
    moreover have "paths_ok ks G s t ?A" "sorted (map path_cost ?A)"
      using A(2) exchange_sort_correct [of path_cost A] length_exchange_sort [of path_cost A]
      by (auto simp: paths_ok_def exchange_sort_map_distinct simp del: length_exchange_sort)
    moreover have "int (length ?A) \<le> ks_k ks" using A(3) g(4) by simp
    moreover have "all_simple_paths G s t ?A" if "int (length ?A) < ks_k ks"
      using A(4) that by (simp add: all_simple_paths_def)
    ultimately show ?thesis by auto
  qed
qed

section \<open>The graph of a list of edges\<close>

fun edge_walk :: "Edge list \<Rightarrow> string \<Rightarrow> Edge list \<Rightarrow> string \<Rightarrow> bool" where
  "edge_walk E s [] t = (s = t)"
| "edge_walk E s (e # es) t = (e \<in> set E \<and> SourceIp e = s \<and> edge_walk E (DestinationIp e) es t)"

definition simple_route :: "Edge list \<Rightarrow> string \<Rightarrow> Edge list \<Rightarrow> string \<Rightarrow> bool" where
  "simple_route E s es t \<longleftrightarrow> edge_walk E s es t \<and> distinct (walk_hops s es)"

text \<open>Costs are not negative and a node is named by an address without a minus sign.\<close>

definition name_ok :: "string \<Rightarrow> bool" where
  "name_ok n \<longleftrightarrow> n \<noteq> '''' \<and> CHR ''-'' \<notin> set n"

definition good_edges :: "(Edge \<Rightarrow> float64) \<Rightarrow> Edge list \<Rightarrow> bool" where
  "good_edges cost E \<longleftrightarrow> list_all (\<lambda>e. 0 \<le> cost e \<and> name_ok (SourceIp e) \<and> name_ok (DestinationIp e)) E"

lemma adj_fold_add: "adj (fold add_edge es G) u = adj G u @ filter (\<lambda>e. SourceIp e = u) es"
  by (induction es arbitrary: G) (auto simp: add_edge_def)

lemma adj_build: "adj (build_graph es) u = filter (\<lambda>e. SourceIp e = u) es"
  by (simp add: build_graph_def adj_fold_add) (simp add: adj_def)

lemma distinct_build: "distinct (map fst (build_graph es))"
proof -
  have "distinct (map fst G) \<Longrightarrow> distinct (map fst (fold add_edge es G))" for G
    by (induction es arbitrary: G) (auto simp: add_edge_def distinct_update)
  then show ?thesis by (simp add: build_graph_def)
qed

lemma entries_build:
  assumes "(k, fs) \<in> set (build_graph es)"
  shows "k \<in> set (graph_nodes es)" "e \<in> set fs \<Longrightarrow> e \<in> set es"
proof -
  have fs: "map_of (build_graph es) k = Some fs" using assms distinct_build by (simp add: map_of_eq_Some_iff)
  then have fs': "fs = filter (\<lambda>e. SourceIp e = k) es" using adj_build [of es k] by (simp add: adj_def)
  then show "e \<in> set fs \<Longrightarrow> e \<in> set es" by simp
  have "[] \<notin> snd ` set G \<Longrightarrow> [] \<notin> snd ` set (fold add_edge es G)" for G
  proof (induction es arbitrary: G)
    case (Cons e es)
    have "snd ` set (add_edge e G) \<subseteq> insert (adj G (SourceIp e) @ [e]) (snd ` set G)"
      unfolding add_edge_def
      using image_mono [OF set_AList_update [of "SourceIp e" "adj G (SourceIp e) @ [e]" G], of snd] by simp
    then have "[] \<notin> snd ` set (add_edge e G)" using Cons.prems by blast
    then show ?case using Cons.IH by simp
  qed simp
  then have "[] \<notin> snd ` set (build_graph es)" by (simp add: build_graph_def)
  moreover have "fs \<in> snd ` set (build_graph es)" using imageI [OF assms, of snd] by simp
  ultimately have "fs \<noteq> []" by blast
  then obtain f where "f \<in> set fs" by (cases fs) auto
  then have "f \<in> set es" "SourceIp f = k" by (simp_all add: fs')
  then show "k \<in> set (graph_nodes es)" by (auto simp: graph_nodes_def)
qed

lemma build_nodes: "set (all_nodes (build_graph es)) \<subseteq> set (graph_nodes es)"
proof -
  have "DestinationIp e \<in> set (graph_nodes es)" if "(k, fs) \<in> set (build_graph es)" "e \<in> set fs" for k fs e
    using entries_build(2) [OF that] by (auto simp: graph_nodes_def)
  then show ?thesis using entries_build(1) by (fastforce simp: all_nodes_def)
qed

lemma walk_build: "walk (build_graph E) [] [] s es t \<longleftrightarrow> edge_walk E s es t"
  by (induction es arbitrary: s) (auto simp: arc_def adj_build)

lemma node_name_ok: "good_edges cost E \<Longrightarrow> n \<in> set (graph_nodes E) \<Longrightarrow> name_ok n"
  by (auto simp: good_edges_def list_all_iff graph_nodes_def)

lemma good_build:
  assumes "good_edges (edge_cost ks) E"
  shows "good_graph ks (build_graph E)"
proof -
  have "'''' \<notin> set (all_nodes (build_graph E))"
    using build_nodes [of E] node_name_ok [OF assms, of "''''"] by (auto simp: name_ok_def)
  then show ?thesis
    using assms distinct_build [of E] by (simp add: good_graph_def good_edges_def list_all_iff adj_build)
qed

lemma names_build:
  assumes "good_edges cost E" "s \<in> set (graph_nodes E)"
  shows "names_ok (build_graph E) s"
  using build_nodes [of E] node_name_ok [OF assms(1)] assms(2) by (auto simp: names_ok_def name_ok_def)

lemma yens_edges:
  assumes "good_edges (edge_cost ks) E" "0 < ks_k ks" "s \<in> set (graph_nodes E)"
  shows "\<exists>r. yensAlgorithm ks s t (build_graph E) = Some r \<and>
    (case r of Inl msg \<Rightarrow> msg = no_path s t \<and> (\<nexists>es. edge_walk E s es t)
     | Inr A \<Rightarrow> A \<noteq> [] \<and> int (length A) \<le> ks_k ks \<and> sorted (map path_cost A) \<and> distinct (map path_hops A)
         \<and> (\<forall>p \<in> set A. \<exists>es. simple_route E s es t \<and> path_hops p = walk_hops s es \<and> path_cost p = walk_cost ks es
              \<and> path_rawRTT p = Fin (walk_rtt es))
         \<and> (int (length A) < ks_k ks \<longrightarrow> (\<forall>es. simple_route E s es t \<longrightarrow> walk_hops s es \<in> path_hops ` set A)))"
proof -
  obtain r where r: "yensAlgorithm ks s t (build_graph E) = Some r"
    "case r of Inl msg \<Rightarrow> msg = no_path s t \<and> (\<nexists>es. walk (build_graph E) [] [] s es t)
     | Inr A \<Rightarrow> paths_ok ks (build_graph E) s t A \<and> int (length A) \<le> ks_k ks \<and> sorted (map path_cost A)
         \<and> (int (length A) < ks_k ks \<longrightarrow> all_simple_paths (build_graph E) s t A)"
    using yens_ok [OF good_build [OF assms(1)] names_build [OF assms(1,3)] _ assms(2)]
      node_name_ok [OF assms(1,3)] by (auto simp: name_ok_def)
  show ?thesis
  proof (cases r)
    case (Inr A)
    have "\<exists>es. simple_route E s es t \<and> path_hops p = walk_hops s es \<and> path_cost p = walk_cost ks es
              \<and> path_rawRTT p = Fin (walk_rtt es)" if "p \<in> set A" for p
      using r(2) Inr that by (force simp: paths_ok_def path_of_def walk_build simple_route_def)
    then show ?thesis
      using r Inr by (auto simp: paths_ok_def all_simple_paths_def walk_build simple_route_def)
  qed (use r in \<open>simp add: walk_build\<close>)
qed

section \<open>Properties\<close>

lemma Computing_eq:
  assumes "s \<in> set (graph_nodes (ks_edges ks))" "t \<in> set (graph_nodes (ks_edges ks))"
    "yensAlgorithm ks s t (build_graph (ks_edges ks)) = Some r"
  shows "Computing ks s t = Some (map_sum id (map (\<lambda>p. \<lparr>Hops = path_hops p, Rtt = path_cost p, RawRTT = 0\<rparr>)) r)"
  using assms by (simp add: Computing_def)

text \<open>Five nodes in a ladder, with a detour that is cheaper than the direct link.\<close>

definition link :: "string \<Rightarrow> string \<Rightarrow> float64 \<Rightarrow> Edge" where
  "link a b w = \<lparr>SourceIp = a, DestinationIp = b, EdgeWeight = w, Load = 0, Latency = w, Loss = 0\<rparr>"

definition sample_edges :: "Edge list" where
  "sample_edges = [link ''s'' ''t'' 10, link ''s'' ''a'' 1, link ''a'' ''t'' 1, link ''a'' ''b'' 2, link ''b'' ''t'' 2]"

text \<open>C19. The search for one path ends, and it answers correctly: either with the nodes, the cost and the
  latency of a simple walk from start to end that uses no forbidden node and no forbidden edge,
  or that there is none, in which case there is none.\<close>

theorem findShortestPath_correct:
  assumes "good_edges (edge_cost ks) E" "s \<noteq> ''''"
  shows "\<exists>r. findShortestPath ks s t (build_graph E) fN fE = Some r \<and> answer_ok ks (build_graph E) fN fE s t r"
  using findShortestPath_ok [OF good_build [OF assms(1)] assms(2)] .

theorem findShortestPath_correct_witness:
  "good_edges (edge_cost (NewKShortestSolver sample_edges 3)) sample_edges \<and> ''s'' \<noteq> '''' \<and>
   (\<exists>r. findShortestPath (NewKShortestSolver sample_edges 3) ''s'' ''t'' (build_graph sample_edges) [''a''] [] = Some r
     \<and> answer_ok (NewKShortestSolver sample_edges 3) (build_graph sample_edges) [''a''] [] ''s'' ''t'' r)"
proof -
  have "good_edges (edge_cost (NewKShortestSolver sample_edges 3)) sample_edges"
    by (simp add: good_edges_def name_ok_def sample_edges_def link_def edge_cost_def NewKShortestSolver_def
        NewKShortestSolverWithLatency_def)
  then show ?thesis using findShortestPath_correct [of "NewKShortestSolver sample_edges 3" sample_edges "''s''"] by simp
qed

text \<open>C10. On a graph whose costs are not negative and whose node names have no minus sign, the solver
  ends, and it answers with at most \<open>k\<close> simple routes: they start at the source and end at the
  destination, visit no node twice, have the cost that is reported, are in the order of their
  costs, and no two of them are the same. It fails only when there is no route, and when it
  returns fewer than \<open>k\<close> paths, it has returned all simple routes. The cost of a route is the sum of
  its weights times the factor of the solver, which the constructors set to 1: a route of two
  links of weight 1 costs 2.0, where k-shortest_test.go expects 2.4.\<close>

theorem Computing_correct:
  assumes "good_edges (edge_cost ks) (ks_edges ks)" "0 < ks_k ks"
    and "s \<in> set (graph_nodes (ks_edges ks))" "t \<in> set (graph_nodes (ks_edges ks))"
  shows "\<exists>r. Computing ks s t = Some r \<and>
    (case r of Inl msg \<Rightarrow> \<nexists>es. edge_walk (ks_edges ks) s es t
     | Inr ps \<Rightarrow> ps \<noteq> [] \<and> int (length ps) \<le> ks_k ks \<and> sorted (map Rtt ps) \<and> distinct (map Hops ps)
         \<and> (\<forall>p \<in> set ps. \<exists>es. simple_route (ks_edges ks) s es t \<and> Hops p = walk_hops s es \<and> Rtt p = walk_cost ks es)
         \<and> (int (length ps) < ks_k ks \<longrightarrow>
              (\<forall>es. simple_route (ks_edges ks) s es t \<longrightarrow> walk_hops s es \<in> Hops ` set ps)))"
proof -
  from yens_edges [OF assms(1-3), of t] obtain r where
    r: "yensAlgorithm ks s t (build_graph (ks_edges ks)) = Some r"
      "case r of Inl msg \<Rightarrow> msg = no_path s t \<and> (\<nexists>es. edge_walk (ks_edges ks) s es t)
       | Inr A \<Rightarrow> A \<noteq> [] \<and> int (length A) \<le> ks_k ks \<and> sorted (map path_cost A) \<and> distinct (map path_hops A)
         \<and> (\<forall>p \<in> set A. \<exists>es. simple_route (ks_edges ks) s es t \<and> path_hops p = walk_hops s es \<and> path_cost p = walk_cost ks es
              \<and> path_rawRTT p = Fin (walk_rtt es))
         \<and> (int (length A) < ks_k ks \<longrightarrow>
              (\<forall>es. simple_route (ks_edges ks) s es t \<longrightarrow> walk_hops s es \<in> path_hops ` set A))" by blast
  note C = Computing_eq [OF assms(3,4) r(1)]
  show ?thesis
  proof (cases r)
    case (Inl msg)
    then show ?thesis using C r(2) by simp
  next
    case (Inr A)
    let ?f = "\<lambda>p. \<lparr>Hops = path_hops p, Rtt = path_cost p, RawRTT = 0\<rparr>"
    have "map Rtt (map ?f A) = map path_cost A" "map Hops (map ?f A) = map path_hops A" by simp_all
    moreover have "Hops ` set (map ?f A) = path_hops ` set A" by (simp add: image_image)
    moreover have "\<exists>es. simple_route (ks_edges ks) s es t \<and> Hops p = walk_hops s es \<and> Rtt p = walk_cost ks es"
      if "p \<in> set (map ?f A)" for p using r(2) Inr that by fastforce
    ultimately show ?thesis using C r(2) Inr by (simp add: comp_def)
  qed
qed

theorem Computing_correct_witness:
  "\<exists>ks. ks = NewKShortestSolver sample_edges 3 \<and> good_edges (edge_cost ks) (ks_edges ks) \<and> 0 < ks_k ks
     \<and> ''s'' \<in> set (graph_nodes (ks_edges ks)) \<and> ''t'' \<in> set (graph_nodes (ks_edges ks))
     \<and> (\<exists>ps. Computing ks ''s'' ''t'' = Some (Inr ps) \<and> ps \<noteq> [] \<and> distinct (map Hops ps))"
proof -
  let ?ks = "NewKShortestSolver sample_edges 3"
  have ok: "good_edges (edge_cost ?ks) (ks_edges ?ks)" "0 < ks_k ?ks"
    "''s'' \<in> set (graph_nodes (ks_edges ?ks))" "''t'' \<in> set (graph_nodes (ks_edges ?ks))"
    by (simp_all add: good_edges_def name_ok_def sample_edges_def link_def edge_cost_def NewKShortestSolver_def
        NewKShortestSolverWithLatency_def graph_nodes_def)
  have w: "edge_walk (ks_edges ?ks) ''s'' [link ''s'' ''t'' 10] ''t''"
    by (simp add: NewKShortestSolver_def NewKShortestSolverWithLatency_def sample_edges_def) (simp add: link_def)
  have "\<exists>ps. Computing ?ks ''s'' ''t'' = Some (Inr ps) \<and> ps \<noteq> [] \<and> distinct (map Hops ps)"
    using Computing_correct [OF ok] exI [of "\<lambda>es. edge_walk (ks_edges ?ks) ''s'' es ''t''", OF w]
    apply (elim exE conjE)
    subgoal for r by (cases r) auto
    done
  with ok show ?thesis by blast
qed

section \<open>The direct link\<close>

text \<open>Once the start is the only node that was expanded and the end has a distance, no other node is
  expanded, and the path is the direct one.\<close>

lemma settled_path:
  assumes tr: "tree_inv ks G fN fE s [s] b st" and g: "good_graph ks G" and s: "s \<noteq> ''''" and t: "s \<noteq> t" "fin_dist st t c"
  shows "follow_prev (path_fuel G) (prev st) t [] = Some [s, t]"
proof -
  note T = tree_invD [OF tr]
  obtain m where m: "prev st t = Some m" using T(8) [OF t(2)] t(1) by auto
  then have ms: "m = s" and "\<exists>e. arc G fN fE m e t" using T(9) [OF m] by auto
  then have "t \<in> set (all_nodes G)" using arc_node by blast
  then have "t \<noteq> ''''" "Suc (Suc (Suc 0)) \<le> path_fuel G" using g by (cases "all_nodes G"; auto simp: good_graph_def path_fuel_def)+
  moreover have "follow_prev (Suc (Suc (Suc 0))) (prev st) t [] = Some [s, t]"
    using T(3) m ms s \<open>t \<noteq> ''''\<close> by (simp add: map_get_def)
  ultimately show ?thesis using follow_prev_mono by blast
qed

lemma search_settled:
  assumes g: "good_graph ks G" and s: "s \<noteq> ''''" "s \<noteq> t"
  shows "tree_inv ks G fN fE s [s] b st \<Longrightarrow> queue_inv t [s] b st \<Longrightarrow> fin_dist st t c \<Longrightarrow> length (queue st) < n \<Longrightarrow>
    \<exists>p. search_loop n (path_fuel G) ks G fN fE s t st = Some (Inr p) \<and> path_hops p = [s, t]"
proof (induction n arbitrary: st)
  case (Suc n)
  note tr = Suc.prems(1) and qu = Suc.prems(2) and tc = Suc.prems(3)
  have "(t, c) \<in># entries st" using queue_invD(6) [OF qu tc] s(2) by auto
  then have "queue st \<noteq> []" by (auto simp: entries_def)
  then obtain u q where pop: "heap_pop pq_cost pq_upd (queue st) = Inr (u, q)" using pq.pop_total by fastforce
  note P = pop_entry [OF pop tr qu]
  obtain d where d: "fin_dist st (pq_node u) d" "d \<le> pq_cost u" using P(2) by blast
  then have gd: "get_dist st (pq_node u) = Fin d" by (simp add: fin_dist_def)
  have fin: "dist st t = Some (Fin c)" using tc by (simp add: fin_dist_def)
  have skip: "\<exists>p. search_loop n (path_fuel G) ks G fN fE s t (st\<lparr>queue := q\<rparr>) = Some (Inr p) \<and> path_hops p = [s, t]"
    if "\<not> fin_dist st (pq_node u) (pq_cost u) \<or> pq_node u \<noteq> t"
    using Suc.IH [of "st\<lparr>queue := q\<rparr>"] tr tc pop_skip [OF pop tr qu] that fin P(3) Suc.prems(4) by auto
  show ?case
  proof (cases "pq_cost u = d \<and> pq_node u = t")
    case True
    then show ?thesis
      using settled_path [OF tr g s tc] gd s(2) by (simp add: pop Let_def)
  next
    case False
    then have "\<not> fin_dist st (pq_node u) (pq_cost u) \<or> pq_node u \<noteq> t" using d(1) by (auto simp: fin_dist_def)
    from skip [OF this] show ?thesis using False gd fin d(2) by (auto simp: pop Let_def)
  qed
qed simp

lemma direct_path:
  assumes g: "good_graph ks G" and s: "s \<noteq> ''''" "s \<noteq> t" and e: "arc G fN fE s e t"
  shows "\<exists>p. findShortestPath ks s t G fN fE = Some (Inr p) \<and> path_hops p = [s, t]"
proof -
  let ?st = "init_search G s"
  note I = init_inv(1) [OF g, of fN fE s] init_inv(2) [OF g, of t s] init_inv(3) [OF g, of fN fE s]
  have es: "entries ?st = {#(s, 0)#}"
    using pq.push_core [of "\<lparr>pq_node = s, pq_cost = 0, pq_rawRTT = Fin 0, pq_index = 0\<rparr>" "[]"]
    by (simp add: entries_def init_search_def pq_core_def)
  then have "queue ?st \<noteq> []" by (auto simp: entries_def)
  then obtain u q where pop: "heap_pop pq_cost pq_upd (queue ?st) = Inr (u, q)" using pq.pop_total by fastforce
  have u: "pq_node u = s" "pq_cost u = 0" using entries_pop [OF pop] es by (auto simp: add_mset_eq_single)
  have "fin_dist ?st (pq_node u) (pq_cost u)" "pq_node u \<noteq> t" using u s by (auto simp: fin_dist_def init_search_def)
  note E = expand_inv [OF g pop I this]
  let ?st' = "fold (relax ks fN fE (pq_node u) (pq_cost u)) (adj G (pq_node u)) (?st\<lparr>queue := q\<rparr>)"
  obtain c where c: "fin_dist ?st' t c" using E(3) e u by (auto simp: closed_inv_def)
  have "length (queue ?st) = 1" by (simp add: init_search_def)
  then obtain n where n: "search_fuel G = Suc n" "length (queue ?st') < n"
    using E(4) remaining_init [of G] by (cases "search_fuel G") auto
  have inf: "get_dist ?st t = Inf" using s(2) arc_node [OF e] by (simp add: init_search_def)
  from search_settled [OF g s _ _ c n(2), of fN fE "pq_cost u"] E(1,2) u
  obtain p where p: "search_loop n (path_fuel G) ks G fN fE s t ?st' = Some (Inr p)" "path_hops p = [s, t]" by auto
  have "get_dist ?st s = Fin 0" by (simp add: init_search_def)
  then have "findShortestPath ks s t G fN fE = search_loop n (path_fuel G) ks G fN fE s t ?st'"
    using inf u s(2) by (simp add: findShortestPath_def n(1) pop Let_def)
  then show ?thesis using p by auto
qed

lemma direct_path_edge:
  assumes "good_graph ks G" "s \<noteq> ''''" "s \<noteq> t" "arc G fN fE s e t"
  shows "\<exists>e'. arc G fN fE s e' t \<and> findShortestPath ks s t G fN fE =
    Some (Inr \<lparr>path_hops = [s, t], path_cost = edge_cost ks e', path_rawRTT = Fin (Latency e')\<rparr>)"
proof -
  obtain p where p: "findShortestPath ks s t G fN fE = Some (Inr p)" "path_hops p = [s, t]" using direct_path [OF assms] by blast
  with findShortestPath_ok [OF assms(1,2), of t fN fE] obtain es where
    es: "walk G fN fE s es t" "p = \<lparr>path_hops = walk_hops s es, path_cost = walk_cost ks es, path_rawRTT = Fin (walk_rtt es)\<rparr>"
    by (auto simp: answer_ok_def)
  then have "map DestinationIp es = [t]" using p(2) by (simp add: walk_hops_def)
  then obtain e' where "es = [e']" by auto
  with es p show ?thesis by (auto simp: walk_hops_def walk_cost_def walk_rtt_def)
qed

text \<open>Each node has an expensive link to the destination and a cheap one to the next node.\<close>

definition ladder_edges :: "Edge list" where
  "ladder_edges = [link ''s'' ''t'' 100, link ''s'' ''a'' 1, link ''a'' ''t'' 90, link ''a'' ''b'' 1,
     link ''b'' ''t'' 80, link ''b'' ''c'' 1, link ''c'' ''t'' 1]"

lemma sort_one: "exchange_sort key [x] = [x]"
proof -
  have "mset (exchange_sort key [x]) = {#x#}" using exchange_sort_correct(1) [of key "[x]"] by simp
  then show ?thesis by (metis mset_single_iff_right)
qed

text \<open>On the ladder the three paths that are returned cost 82, 91 and 100, and the route of cost 4 is not
  among them.\<close>

lemma ladder_misses_shortest:
  "(case Computing (NewKShortestSolver ladder_edges 3) ''s'' ''t'' of
      Some (Inr ps) \<Rightarrow> map Hops ps = [[''s'', ''a'', ''b'', ''t''], [''s'', ''a'', ''t''], [''s'', ''t'']] \<and> map Rtt ps = [82, 91, 100]
    | _ \<Rightarrow> False)
   \<and> (let es = [link ''s'' ''a'' 1, link ''a'' ''b'' 1, link ''b'' ''c'' 1, link ''c'' ''t'' 1]
      in edge_walk ladder_edges ''s'' es ''t'' \<and> walk_cost (NewKShortestSolver ladder_edges 3) es = 4)"
  by code_simp

text \<open>C30. The search for the shortest path does not look past a direct link: once a search has reached
  the end it expands no other node, so that on every graph with a link from the source to the
  destination the answer is such a link, whatever it costs and however cheap a detour is. A solver
  that is asked for one path returns that link alone.\<close>

theorem direct_link_hides_detours:
  assumes "good_edges (edge_cost ks) (ks_edges ks)" "e \<in> set (ks_edges ks)" "SourceIp e = s" "DestinationIp e = t" "s \<noteq> t"
  shows "\<exists>e' \<in> set (ks_edges ks). SourceIp e' = s \<and> DestinationIp e' = t
    \<and> findShortestPath ks s t (build_graph (ks_edges ks)) [] [] =
        Some (Inr \<lparr>path_hops = [s, t], path_cost = edge_cost ks e', path_rawRTT = Fin (Latency e')\<rparr>)
    \<and> (ks_k ks = 1 \<longrightarrow> Computing ks s t = Some (Inr [\<lparr>Hops = [s, t], Rtt = edge_cost ks e', RawRTT = 0\<rparr>]))"
proof -
  let ?G = "build_graph (ks_edges ks)"
  have nodes: "s \<in> set (graph_nodes (ks_edges ks))" "t \<in> set (graph_nodes (ks_edges ks))"
    using assms(2-4) by (auto simp: graph_nodes_def)
  have "s \<noteq> ''''" using assms(1-3) by (auto simp: good_edges_def list_all_iff name_ok_def)
  moreover have "arc ?G [] [] s e t" using assms(2-4) by (simp add: arc_def adj_build)
  ultimately obtain e' where e': "arc ?G [] [] s e' t"
    "findShortestPath ks s t ?G [] [] = Some (Inr \<lparr>path_hops = [s, t], path_cost = edge_cost ks e', path_rawRTT = Fin (Latency e')\<rparr>)"
    using direct_path_edge [OF good_build [OF assms(1)] _ assms(5)] by blast
  have "Computing ks s t = Some (Inr [\<lparr>Hops = [s, t], Rtt = edge_cost ks e', RawRTT = 0\<rparr>])" if "ks_k ks = 1"
    using nodes e'(2) that assms(5) by (simp add: Computing_def yensAlgorithm_def dedup_hops_def sort_one)
  then show ?thesis using e' by (auto simp: arc_def adj_build)
qed

theorem direct_link_hides_detours_witness:
  "\<exists>ks. ks = NewKShortestSolver ladder_edges 1 \<and> good_edges (edge_cost ks) (ks_edges ks)
     \<and> (\<exists>e' \<in> set (ks_edges ks). SourceIp e' = ''s'' \<and> DestinationIp e' = ''t''
          \<and> Computing ks ''s'' ''t'' = Some (Inr [\<lparr>Hops = [''s'', ''t''], Rtt = edge_cost ks e', RawRTT = 0\<rparr>]))"
proof -
  let ?ks = "NewKShortestSolver ladder_edges 1"
  have ok: "good_edges (edge_cost ?ks) (ks_edges ?ks)" "link ''s'' ''t'' 100 \<in> set (ks_edges ?ks)" "ks_k ?ks = 1"
    "SourceIp (link ''s'' ''t'' 100) = ''s''" "DestinationIp (link ''s'' ''t'' 100) = ''t''" "''s'' \<noteq> ''t''"
    by (simp_all add: good_edges_def name_ok_def ladder_edges_def link_def edge_cost_def NewKShortestSolver_def
        NewKShortestSolverWithLatency_def)
  show ?thesis using direct_link_hides_detours [OF ok(1,2,4-6)] ok(1,3) by blast
qed

end
