(* ===== verification/Live_Style.thy ===== *)
theory Live_Style
  imports Yen
begin

text \<open>
  The solver of control-plane/routing/core-domain/livenet.go: five paths of Yen's algorithm, of
  which the ones of at most ten hops with the smallest latencies are kept; and the contract
  (\<open>middle_solver\<close>) that routing relies on, which both solvers for one destination keep: it
  answers, and every route it answers with is a simple route of the graph.
\<close>

section \<open>The solver\<close>

record LiveStyleSolver =
  ls_edges :: "Edge list"
  ls_k :: int

definition NewLiveStyleSolver :: "Edge list \<Rightarrow> int \<Rightarrow> LiveStyleSolver" where
  "NewLiveStyleSolver es k = \<lparr>ls_edges = es, ls_k = (if k \<le> 0 then 2 else k)\<rparr>"

text \<open>\<open>len(path.hops)-1\<close> is -1 for a path without nodes, which is kept as well.\<close>

definition LiveStyle_selectTopPaths :: "Path list \<Rightarrow> int \<Rightarrow> Path list go" where
  "LiveStyle_selectTopPaths paths num =
     (let validPaths = exchange_sort path_rawRTT (filter (\<lambda>p. int (length (path_hops p)) - 1 \<le> 10) paths)
      in if int (length validPaths) > num
         then (if num < 0 then Inl SliceBounds else Inr (take (nat num) validPaths))
         else Inr validPaths)"

definition LiveStyle_Computing :: "LiveStyleSolver \<Rightarrow> string \<Rightarrow> string \<Rightarrow> PathInfo list result go option" where
  "LiveStyle_Computing ls start end' =
     (if start \<notin> set (graph_nodes (ls_edges ls)) then Some (Inr (Inl (node_not_found ''start'' start)))
      else if end' \<notin> set (graph_nodes (ls_edges ls)) then Some (Inr (Inl (node_not_found ''end'' end')))
      else case yensAlgorithm (NewKShortestSolver (ls_edges ls) 5) start end' (build_graph (ls_edges ls)) of
             None \<Rightarrow> None
           | Some (Inl err) \<Rightarrow> Some (Inr (Inl err))
           | Some (Inr paths) \<Rightarrow>
               (case LiveStyle_selectTopPaths paths (ls_k ls) of
                  Inl e \<Rightarrow> Some (Inl e)
                | Inr sel \<Rightarrow>
                    Some (Inr (Inr (map (\<lambda>p. \<lparr>Hops = path_hops p, Rtt = path_cost p, RawRTT = float_of (path_rawRTT p)\<rparr>) sel)))))"

section \<open>The contract of a solver\<close>

definition edge_names_ok :: "Edge list \<Rightarrow> bool" where
  "edge_names_ok E \<longleftrightarrow> list_all (\<lambda>e. name_ok (SourceIp e) \<and> name_ok (DestinationIp e)) E"

definition live_route_ok :: "Edge list \<Rightarrow> string \<Rightarrow> string \<Rightarrow> PathInfo \<Rightarrow> bool" where
  "live_route_ok E s t p \<longleftrightarrow> (\<exists>es. simple_route E s es t \<and> Hops p = walk_hops s es \<and> Rtt p = sum_list (map EdgeWeight es))"

locale middle_solver =
  fixes solve :: "Edge list \<Rightarrow> string \<Rightarrow> string \<Rightarrow> PathInfo list result go option"
    and most :: nat
  assumes total: "good_edges EdgeWeight E \<Longrightarrow> \<exists>r. solve E s t = Some (Inr r)"
    and routes: "good_edges EdgeWeight E \<Longrightarrow> solve E s t = Some (Inr (Inr ps)) \<Longrightarrow>
      length ps \<le> most \<and> distinct (map Hops ps) \<and> list_all (live_route_ok E s t) ps"
    and found: "good_edges EdgeWeight E \<Longrightarrow> solve E s t = Some (Inr (Inl err)) \<Longrightarrow>
      s \<in> set (graph_nodes E) \<Longrightarrow> t \<in> set (graph_nodes E) \<Longrightarrow> \<not> edge_walk E s es t"
begin

text \<open>On the edges of a sound graph every pair of neighbours of a route is an edge of the graph.\<close>

lemma route_in_graph:
  assumes "graph_ok g" "range_order (edges g) ks" "edge_names_ok (GetEdges ks g)"
    and "solve (GetEdges ks g) s t = Some (Inr (Inr ps))" "p \<in> set ps" "Suc i < length (Hops p)"
  shows "GetEdge (edge_line (Hops p ! i) (Hops p ! Suc i)) g \<noteq> None"
proof -
  have e: "edges g (edge_line (SourceIp e) (DestinationIp e)) = Some e \<and> 0 \<le> EdgeWeight e"
    if "e \<in> set (GetEdges ks g)" for e
    using that assms(1) range_orderD(3) [OF assms(2)] by (fastforce simp: GetEdges_def graph_ok_def edge_ok_def)
  then have "good_edges EdgeWeight (GetEdges ks g)"
    using assms(3) by (auto simp: good_edges_def edge_names_ok_def list_all_iff)
  from routes [OF this assms(4)] assms(5) obtain es where
    es: "simple_route (GetEdges ks g) s es t" "Hops p = walk_hops s es" by (auto simp: list_all_iff live_route_ok_def)
  then have "walk (build_graph (GetEdges ks g)) [] [] s es t" by (simp add: walk_build simple_route_def)
  from walk_out [OF this, of i] assms(6) es(2)
  have "es ! i \<in> set (GetEdges ks g)" "SourceIp (es ! i) = Hops p ! i" "DestinationIp (es ! i) = Hops p ! Suc i"
    by (auto simp: adj_build)
  then show ?thesis using e [of "es ! i"] by (auto simp: GetEdge_def)
qed

end

section \<open>Both solvers keep it\<close>

text \<open>Yen's algorithm on a solver that uses the weights.\<close>

lemma edge_cost_weight [simp]: "edge_cost (NewKShortestSolver es k) = EdgeWeight"
  by (simp add: fun_eq_iff edge_cost_def NewKShortestSolver_def NewKShortestSolverWithLatency_def)

lemma ks_fields [simp]:
  "ks_edges (NewKShortestSolver es k) = es" "ks_k (NewKShortestSolver es k) = (if k \<le> 0 then 5 else k)"
  by (simp_all add: NewKShortestSolver_def NewKShortestSolverWithLatency_def)

lemma yens_weights:
  assumes "good_edges EdgeWeight E" "0 < k" "s \<in> set (graph_nodes E)"
  shows yens_total: "\<exists>r. yensAlgorithm (NewKShortestSolver E k) s t (build_graph E) = Some r"
    and yens_Inl: "yensAlgorithm (NewKShortestSolver E k) s t (build_graph E) = Some (Inl msg) \<Longrightarrow> \<not> edge_walk E s es t"
    and yens_Inr: "yensAlgorithm (NewKShortestSolver E k) s t (build_graph E) = Some (Inr A) \<Longrightarrow>
      A \<noteq> [] \<and> int (length A) \<le> k \<and> distinct (map path_hops A)
         \<and> (\<forall>p \<in> set A. \<exists>es. simple_route E s es t \<and> path_hops p = walk_hops s es
              \<and> path_cost p = sum_list (map EdgeWeight es) \<and> path_rawRTT p = Fin (walk_rtt es))"
proof -
  have "good_edges (edge_cost (NewKShortestSolver E k)) E" "0 < ks_k (NewKShortestSolver E k)" using assms by simp_all
  note Y = yens_edges [OF this assms(3), of t]
  show "\<exists>r. yensAlgorithm (NewKShortestSolver E k) s t (build_graph E) = Some r" using Y by blast
  show "\<not> edge_walk E s es t" if "yensAlgorithm (NewKShortestSolver E k) s t (build_graph E) = Some (Inl msg)"
    using Y that by auto
  show "A \<noteq> [] \<and> int (length A) \<le> k \<and> distinct (map path_hops A)
         \<and> (\<forall>p \<in> set A. \<exists>es. simple_route E s es t \<and> path_hops p = walk_hops s es
              \<and> path_cost p = sum_list (map EdgeWeight es) \<and> path_rawRTT p = Fin (walk_rtt es))"
    if "yensAlgorithm (NewKShortestSolver E k) s t (build_graph E) = Some (Inr A)"
    using Y that assms(2) by (simp add: walk_cost_def)
qed

text \<open>\<open>KShortestSolver.Computing\<close> has no panic.\<close>

definition KShortest_solve :: "Edge list \<Rightarrow> string \<Rightarrow> string \<Rightarrow> PathInfo list result go option" where
  "KShortest_solve E s t = map_option Inr (Computing (NewKShortestSolver E 3) s t)"

definition LiveStyle_solve :: "Edge list \<Rightarrow> string \<Rightarrow> string \<Rightarrow> PathInfo list result go option" where
  "LiveStyle_solve E s t = LiveStyle_Computing (NewLiveStyleSolver E 2) s t"

lemma KShortest_solve_eq:
  "KShortest_solve E s t = (if s \<notin> set (graph_nodes E) then Some (Inr (Inl (node_not_found ''start'' s)))
     else if t \<notin> set (graph_nodes E) then Some (Inr (Inl (node_not_found ''end'' t)))
     else case yensAlgorithm (NewKShortestSolver E 3) s t (build_graph E) of
            None \<Rightarrow> None
          | Some (Inl err) \<Rightarrow> Some (Inr (Inl err))
          | Some (Inr A) \<Rightarrow> Some (Inr (Inr (map (\<lambda>p. \<lparr>Hops = path_hops p, Rtt = path_cost p, RawRTT = 0\<rparr>) A))))"
  by (auto simp: KShortest_solve_def Computing_def split: option.splits sum.splits)

interpretation ksp: middle_solver KShortest_solve 3
proof
  fix E s t assume g: "good_edges EdgeWeight E"
  show "\<exists>r. KShortest_solve E s t = Some (Inr r)"
    using yens_total [OF g, of 3 s t] by (auto simp: KShortest_solve_eq split: sum.splits)
  show "length ps \<le> 3 \<and> distinct (map Hops ps) \<and> list_all (live_route_ok E s t) ps"
    if sol: "KShortest_solve E s t = Some (Inr (Inr ps))" for ps
  proof -
    obtain A where A: "s \<in> set (graph_nodes E)" "yensAlgorithm (NewKShortestSolver E 3) s t (build_graph E) = Some (Inr A)"
      "ps = map (\<lambda>p. \<lparr>Hops = path_hops p, Rtt = path_cost p, RawRTT = 0\<rparr>) A"
      using sol by (auto simp: KShortest_solve_eq split: if_splits option.splits sum.splits)
    show ?thesis using yens_Inr [OF g _ A(1,2)] A(3) by (auto simp: comp_def list_all_iff live_route_ok_def)
  qed
  show "\<not> edge_walk E s es t" if "KShortest_solve E s t = Some (Inr (Inl err))" "s \<in> set (graph_nodes E)" "t \<in> set (graph_nodes E)"
    for err es
    using yens_Inl [OF g _ that(2), of 3 t] that by (auto simp: KShortest_solve_eq split: option.splits sum.splits)
qed

lemma select_spec:
  assumes "0 < num"
  shows "\<exists>sel. LiveStyle_selectTopPaths paths num = Inr sel \<and> set sel \<subseteq> set paths \<and> int (length sel) \<le> num
    \<and> (distinct (map path_hops paths) \<longrightarrow> distinct (map path_hops sel))"
proof -
  let ?v = "exchange_sort path_rawRTT (filter (\<lambda>p. int (length (path_hops p)) - 1 \<le> 10) paths)"
  have "LiveStyle_selectTopPaths paths num = Inr (take (nat num) ?v)"
    using assms by (auto simp: LiveStyle_selectTopPaths_def Let_def)
  moreover have "distinct (map path_hops (take (nat num) ?v))" if "distinct (map path_hops paths)"
  proof -
    have "distinct (map path_hops ?v)" using that by (simp add: exchange_sort_map_distinct distinct_map_filter)
    then show ?thesis by (simp flip: take_map)
  qed
  moreover have "set (take (nat num) ?v) \<subseteq> set paths" using set_take_subset [of "nat num" ?v] by auto
  ultimately show ?thesis using assms by auto
qed

lemma ls_fields: "ls_edges (NewLiveStyleSolver es k) = es" "ls_k (NewLiveStyleSolver es k) = (if k \<le> 0 then 2 else k)"
  by (simp_all add: NewLiveStyleSolver_def)

lemma LiveStyle_solve_eq:
  "LiveStyle_solve E s t = (if s \<notin> set (graph_nodes E) then Some (Inr (Inl (node_not_found ''start'' s)))
     else if t \<notin> set (graph_nodes E) then Some (Inr (Inl (node_not_found ''end'' t)))
     else case yensAlgorithm (NewKShortestSolver E 5) s t (build_graph E) of
            None \<Rightarrow> None
          | Some (Inl err) \<Rightarrow> Some (Inr (Inl err))
          | Some (Inr paths) \<Rightarrow> (case LiveStyle_selectTopPaths paths 2 of
               Inl e \<Rightarrow> Some (Inl e)
             | Inr sel \<Rightarrow> Some (Inr (Inr (map (\<lambda>p. \<lparr>Hops = path_hops p, Rtt = path_cost p, RawRTT = float_of (path_rawRTT p)\<rparr>) sel)))))"
  unfolding LiveStyle_solve_def LiveStyle_Computing_def ls_fields by simp

interpretation live: middle_solver LiveStyle_solve 2
proof
  fix E s t assume g: "good_edges EdgeWeight E"
  show "\<exists>r. LiveStyle_solve E s t = Some (Inr r)"
  proof (cases "s \<in> set (graph_nodes E) \<and> t \<in> set (graph_nodes E)")
    case True
    then obtain r where r: "yensAlgorithm (NewKShortestSolver E 5) s t (build_graph E) = Some r"
      using yens_total [OF g, of 5 s t] by auto
    then show ?thesis
    proof (cases r)
      case (Inr A)
      obtain sel where "LiveStyle_selectTopPaths A 2 = Inr sel" using select_spec [of 2 A] by auto
      then show ?thesis using True r Inr by (simp add: LiveStyle_solve_eq)
    qed (use True in \<open>simp add: LiveStyle_solve_eq\<close>)
  qed (auto simp: LiveStyle_solve_eq)
  show "length ps \<le> 2 \<and> distinct (map Hops ps) \<and> list_all (live_route_ok E s t) ps"
    if sol: "LiveStyle_solve E s t = Some (Inr (Inr ps))" for ps
  proof -
    obtain A where A: "s \<in> set (graph_nodes E)" "yensAlgorithm (NewKShortestSolver E 5) s t (build_graph E) = Some (Inr A)"
      using sol by (auto simp: LiveStyle_solve_eq split: if_splits option.splits sum.splits)
    obtain sel where sel: "LiveStyle_selectTopPaths A 2 = Inr sel" "set sel \<subseteq> set A" "int (length sel) \<le> 2"
      "distinct (map path_hops A) \<longrightarrow> distinct (map path_hops sel)" using select_spec [of 2 A] by auto
    then have ps: "ps = map (\<lambda>p. \<lparr>Hops = path_hops p, Rtt = path_cost p, RawRTT = float_of (path_rawRTT p)\<rparr>) sel"
      using sol A by (auto simp: LiveStyle_solve_eq split: if_splits)
    show ?thesis using yens_Inr [OF g _ A] sel(2-4) by (auto simp: ps comp_def list_all_iff live_route_ok_def)
  qed
  show "\<not> edge_walk E s es t" if "LiveStyle_solve E s t = Some (Inr (Inl err))" "s \<in> set (graph_nodes E)" "t \<in> set (graph_nodes E)"
    for err es
    using yens_Inl [OF g _ that(2), of 5 t] that by (auto simp: LiveStyle_solve_eq split: option.splits sum.splits)
qed

section \<open>Properties\<close>

definition short_paths :: "Path list \<Rightarrow> Path list" where
  "short_paths paths = filter (\<lambda>p. int (length (path_hops p)) - 1 \<le> 10) paths"

text \<open>The selection keeps the fastest paths: as many of the paths with at most ten hops as it is
  asked for, ordered by latency, and no path of at most ten hops that is dropped is faster than
  one that is kept. The hop count has no other influence.\<close>

lemma selectTopPaths_fastest:
  assumes "0 \<le> num"
  shows "\<exists>sel. LiveStyle_selectTopPaths paths num = Inr sel \<and> sorted (map path_rawRTT sel)
    \<and> mset sel \<subseteq># mset (short_paths paths) \<and> length sel = min (nat num) (length (short_paths paths))
    \<and> (\<forall>p \<in># mset (short_paths paths) - mset sel. \<forall>q \<in> set sel. path_rawRTT q \<le> path_rawRTT p)"
proof -
  let ?v = "exchange_sort path_rawRTT (short_paths paths)" and ?n = "nat num"
  have sel: "LiveStyle_selectTopPaths paths num = Inr (take ?n ?v)"
    using assms by (auto simp: LiveStyle_selectTopPaths_def Let_def short_paths_def)
  have ms: "mset (short_paths paths) = mset (take ?n ?v) + mset (drop ?n ?v)"
    using exchange_sort_correct(1) [of path_rawRTT "short_paths paths"] by (metis append_take_drop_id mset_append)
  have "sorted (map path_rawRTT (take ?n ?v) @ map path_rawRTT (drop ?n ?v))"
    using exchange_sort_correct(2) [of path_rawRTT "short_paths paths"] by (simp flip: map_append)
  then have "sorted (map path_rawRTT (take ?n ?v))"
    "\<forall>q \<in> set (take ?n ?v). \<forall>p \<in> set (drop ?n ?v). path_rawRTT q \<le> path_rawRTT p"
    by (auto simp: sorted_append)
  then show ?thesis using sel ms by (auto simp: min_def)
qed

lemma select_short:
  assumes "mset sel \<subseteq># mset (short_paths paths)" "q \<in> set paths" "length (path_hops q) \<le> 11" "q \<notin> set sel"
  shows "q \<in># mset (short_paths paths) - mset sel"
proof -
  have "q \<in> set (short_paths paths)" using assms(2,3) by (simp add: short_paths_def)
  then have "count (mset sel) q < count (mset (short_paths paths)) q"
    using assms(4) by (metis count_greater_zero_iff count_mset_0_iff set_mset_mset)
  then show ?thesis by (simp add: in_diff_count)
qed

text \<open>Latencies of routes are finite, and compare as the numbers they are.\<close>

lemma finite_latencies:
  assumes "\<forall>p \<in> set sel. \<exists>x. path_rawRTT p = Fin x" "sorted (map path_rawRTT sel)"
  shows "sorted (map (\<lambda>p. float_of (path_rawRTT p)) sel)"
  using assms by (induction sel) fastforce+

definition path_info :: "Path \<Rightarrow> PathInfo" where
  "path_info p = \<lparr>Hops = path_hops p, Rtt = path_cost p, RawRTT = float_of (path_rawRTT p)\<rparr>"

lemma path_info_simps [simp]:
  "Hops (path_info p) = path_hops p" "Rtt (path_info p) = path_cost p" "RawRTT (path_info p) = float_of (path_rawRTT p)"
  by (simp_all add: path_info_def)

lemma selected_routes:
  assumes A: "distinct (map path_hops A)"
      "\<And>p. p \<in> set A \<Longrightarrow> \<exists>es. simple_route E s es t \<and> path_hops p = walk_hops s es \<and> path_cost p = sum_list (map EdgeWeight es)
         \<and> path_rawRTT p = Fin (walk_rtt es)"
    and "0 < num" and ps: "ps = map path_info sel" and sel: "LiveStyle_selectTopPaths A num = Inr sel"
  shows "length ps = min (nat num) (length (filter (\<lambda>q. length (path_hops q) \<le> 11) A))"
    and "sorted (map RawRTT ps)" and "distinct (map Hops ps)"
    and "p \<in> set ps \<Longrightarrow> length (Hops p) \<le> 11 \<and> (\<exists>es. simple_route E s es t \<and> Hops p = walk_hops s es
              \<and> Rtt p = sum_list (map EdgeWeight es) \<and> RawRTT p = walk_rtt es)"
    and "q \<in> set A \<Longrightarrow> length (path_hops q) \<le> 11 \<Longrightarrow>
      path_hops q \<in> Hops ` set ps \<or> (\<forall>p \<in> set ps. Fin (RawRTT p) \<le> path_rawRTT q)"
proof -
  have f: "sorted (map path_rawRTT sel)" "mset sel \<subseteq># mset (short_paths A)" "length sel = min (nat num) (length (short_paths A))"
    "\<forall>p \<in># mset (short_paths A) - mset sel. \<forall>q \<in> set sel. path_rawRTT q \<le> path_rawRTT p"
    using selectTopPaths_fastest [of num A] assms(3) sel by auto
  have short: "p \<in> set A" "length (path_hops p) \<le> 11" if "p \<in> set sel" for p
    using that set_mset_mono [OF f(2)] by (auto simp: short_paths_def)
  have fin: "path_rawRTT p = Fin (float_of (path_rawRTT p))" if "p \<in> set sel" for p using A(2) short(1) [OF that] by fastforce
  show "length ps = min (nat num) (length (filter (\<lambda>q. length (path_hops q) \<le> 11) A))"
    using f(3) by (simp add: ps short_paths_def)
  show "sorted (map RawRTT ps)" using finite_latencies [OF _ f(1)] fin by (auto simp: ps comp_def)
  show "distinct (map Hops ps)" using select_spec [OF assms(3), of A] sel A(1) by (simp add: ps comp_def)
  show "length (Hops p) \<le> 11 \<and> (\<exists>es. simple_route E s es t \<and> Hops p = walk_hops s es
      \<and> Rtt p = sum_list (map EdgeWeight es) \<and> RawRTT p = walk_rtt es)" if "p \<in> set ps"
    using that short A(2) by (fastforce simp: ps)
  show "path_hops q \<in> Hops ` set ps \<or> (\<forall>p \<in> set ps. Fin (RawRTT p) \<le> path_rawRTT q)"
    if q: "q \<in> set A" "length (path_hops q) \<le> 11"
  proof (cases "q \<in> set sel")
    case False
    then have "\<forall>p \<in> set sel. path_rawRTT p \<le> path_rawRTT q" using f(4) select_short [OF f(2) q] by blast
    then show ?thesis using fin by (auto simp: ps)
  qed (auto simp: ps image_image)
qed

text \<open>C27. The solver returns the fastest of its candidates: for any two nodes of a graph whose weights
  are not negative and whose node names have no minus sign it answers, and it fails only when there
  is no route. Its candidates are the at most five paths of Yen's algorithm. It returns as many of
  those with at most ten links as were asked for (two, when the number is not positive), or all of
  them, in the order of their latencies; each is a simple route with the sum of its weights and the
  sum of its latencies, and no candidate of at most ten links that is left out is faster than one
  that is returned.\<close>

theorem LiveStyle_returns_fastest:
  assumes "good_edges EdgeWeight E" "s \<in> set (graph_nodes E)" "t \<in> set (graph_nodes E)"
  shows "\<exists>r. LiveStyle_Computing (NewLiveStyleSolver E k) s t = Some (Inr r) \<and>
    (case r of Inl msg \<Rightarrow> \<nexists>es. edge_walk E s es t
     | Inr ps \<Rightarrow> \<exists>A. yensAlgorithm (NewKShortestSolver E 5) s t (build_graph E) = Some (Inr A) \<and> length A \<le> 5
         \<and> length ps = min (if k \<le> 0 then 2 else nat k) (length (filter (\<lambda>q. length (path_hops q) \<le> 11) A))
         \<and> sorted (map RawRTT ps) \<and> distinct (map Hops ps)
         \<and> (\<forall>p \<in> set ps. length (Hops p) \<le> 11 \<and> (\<exists>es. simple_route E s es t \<and> Hops p = walk_hops s es
              \<and> Rtt p = sum_list (map EdgeWeight es) \<and> RawRTT p = walk_rtt es))
         \<and> (\<forall>q \<in> set A. length (path_hops q) \<le> 11 \<longrightarrow>
              path_hops q \<in> Hops ` set ps \<or> (\<forall>p \<in> set ps. Fin (RawRTT p) \<le> path_rawRTT q)))"
proof -
  let ?Y = "yensAlgorithm (NewKShortestSolver E 5) s t (build_graph E)" and ?k = "if k \<le> 0 then 2 else k"
  have eq: "LiveStyle_Computing (NewLiveStyleSolver E k) s t = (case ?Y of None \<Rightarrow> None | Some (Inl err) \<Rightarrow> Some (Inr (Inl err))
      | Some (Inr paths) \<Rightarrow> (case LiveStyle_selectTopPaths paths ?k of Inl e \<Rightarrow> Some (Inl e)
          | Inr sel \<Rightarrow> Some (Inr (Inr (map path_info sel)))))"
    using assms(2,3) unfolding LiveStyle_Computing_def ls_fields path_info_def by simp
  obtain r where r: "?Y = Some r" using yens_total [OF assms(1) _ assms(2), of 5 t] by auto
  show ?thesis
  proof (cases r)
    case (Inl msg)
    then show ?thesis using eq r yens_Inl [OF assms(1) _ assms(2), of 5 t msg] by simp
  next
    case (Inr A)
    with yens_Inr [OF assms(1) _ assms(2), of 5 t A] r have A: "length A \<le> 5" "distinct (map path_hops A)"
      "\<And>p. p \<in> set A \<Longrightarrow> \<exists>es. simple_route E s es t \<and> path_hops p = walk_hops s es \<and> path_cost p = sum_list (map EdgeWeight es)
         \<and> path_rawRTT p = Fin (walk_rtt es)" by auto
    have k: "0 < ?k" "nat ?k = (if k \<le> 0 then 2 else nat k)" by auto
    obtain sel where sel: "LiveStyle_selectTopPaths A ?k = Inr sel" using select_spec [OF k(1), of A] by auto
    note S = selected_routes [OF A(2,3) k(1) refl sel]
    have "LiveStyle_Computing (NewLiveStyleSolver E k) s t = Some (Inr (Inr (map path_info sel)))"
      using eq r Inr sel by simp
    then show ?thesis using r Inr A(1) S(1) [unfolded k(2)] S(2-5) by (intro exI [of _ "Inr (map path_info sel)"]) simp
  qed
qed

theorem LiveStyle_returns_fastest_witness:
  "good_edges EdgeWeight sample_edges \<and> ''s'' \<in> set (graph_nodes sample_edges) \<and> ''t'' \<in> set (graph_nodes sample_edges)
   \<and> (\<exists>ps. LiveStyle_Computing (NewLiveStyleSolver sample_edges 1) ''s'' ''t'' = Some (Inr (Inr ps)) \<and> sorted (map RawRTT ps) \<and> length ps \<le> 1)"
proof -
  have ok: "good_edges EdgeWeight sample_edges" "''s'' \<in> set (graph_nodes sample_edges)" "''t'' \<in> set (graph_nodes sample_edges)"
    by (simp_all add: good_edges_def name_ok_def sample_edges_def link_def graph_nodes_def)
  have w: "\<exists>es. edge_walk sample_edges ''s'' es ''t''" by (intro exI [of _ "[link ''s'' ''t'' 10]"], simp add: sample_edges_def) (simp add: link_def)
  from LiveStyle_returns_fastest [OF ok, of 1] show ?thesis
    using ok w by (elim exE conjE) (auto split: sum.splits)
qed

end
