(* ===== verification/Onewan.thy ===== *)
theory Onewan
  imports Yen
begin

text \<open>
  Routing from one source to several destinations in control-plane/routing/core-domain/onewan-multi.go:
  random depth-first searches collect candidate paths per destination, and a stochastic search
  chooses two per destination by latency and edge load.

  The random source is a parameter: \<open>perm i n\<close> is the permutation of \<open>n\<close> indices that the \<open>i\<close>-th
  call of \<open>rand.Perm\<close> returns, \<open>flt i\<close> the number in [0, 1) of the \<open>i\<close>-th call of
  \<open>rand.Float64\<close>; the number of calls so far is part of the state. The depth of a search is
  bounded by the code, and the argument \<open>d\<close> counts down the depth that is left.
\<close>

section \<open>Random depth-first search\<close>

record ONEWANSolver =
  ow_edges :: "Edge list"
  ow_alpha :: float64
  ow_maxPaths :: int

definition NewONEWANSolver :: "Edge list \<Rightarrow> int \<Rightarrow> ONEWANSolver" where
  "NewONEWANSolver es n = \<lparr>ow_edges = es, ow_alpha = 1, ow_maxPaths = n\<rparr>"

definition maxHops :: nat where "maxHops = 30"
definition dfs_maxHops :: nat where "dfs_maxHops = 15"
definition maxAttempts :: nat where "maxAttempts = 100"

record dfs_state =
  dfs_visited :: "string set"
  dfs_hops :: "string list"
  totalLatency :: float64
  perms :: nat

definition dfs_enter :: "string \<Rightarrow> dfs_state \<Rightarrow> dfs_state" where
  "dfs_enter node st = st\<lparr>dfs_visited := insert node (dfs_visited st), dfs_hops := dfs_hops st @ [node]\<rparr>"

definition dfs_leave :: "string \<Rightarrow> dfs_state \<Rightarrow> dfs_state" where
  "dfs_leave node st = st\<lparr>dfs_visited := dfs_visited st - {node}, dfs_hops := butlast (dfs_hops st)\<rparr>"

text \<open>\<open>dfs_try\<close> is the loop over the shuffled indices, with the backtracking behind it.\<close>

fun dfs :: "(nat \<Rightarrow> nat \<Rightarrow> nat list) \<Rightarrow> adjacency \<Rightarrow> string \<Rightarrow> nat \<Rightarrow> string \<Rightarrow> dfs_state \<Rightarrow> bool \<times> dfs_state"
and dfs_try :: "(nat \<Rightarrow> nat \<Rightarrow> nat list) \<Rightarrow> adjacency \<Rightarrow> string \<Rightarrow> nat \<Rightarrow> string \<Rightarrow> Edge list \<Rightarrow> dfs_state \<Rightarrow> bool \<times> dfs_state" where
  "dfs perm G target 0 node st = (False, st)"
| "dfs perm G target (Suc d) node st =
     (let st = dfs_enter node st
      in if node = target then (True, st)
         else if adj G node = [] then (False, dfs_leave node st)
         else let indices = perm (perms st) (length (adj G node))
              in dfs_try perm G target d node (map (\<lambda>i. adj G node ! i) indices) (st\<lparr>perms := Suc (perms st)\<rparr>))"
| "dfs_try perm G target d node [] st = (False, dfs_leave node st)"
| "dfs_try perm G target d node (e # es) st =
     (if DestinationIp e \<in> dfs_visited st then dfs_try perm G target d node es st
      else case dfs perm G target d (DestinationIp e) st of
             (True, st) \<Rightarrow> (True, st\<lparr>totalLatency := totalLatency st + Latency e\<rparr>)
           | (False, st) \<Rightarrow> dfs_try perm G target d node es st)"

definition dfsRandomPath :: "(nat \<Rightarrow> nat \<Rightarrow> nat list) \<Rightarrow> string \<Rightarrow> string \<Rightarrow> adjacency \<Rightarrow> nat \<Rightarrow> nat \<Rightarrow> Path option \<times> nat" where
  "dfsRandomPath perm current target G hops n =
     (case dfs perm G target (Suc hops) current \<lparr>dfs_visited = {}, dfs_hops = [], totalLatency = 0, perms = n\<rparr> of
        (True, st) \<Rightarrow> (Some \<lparr>path_hops = dfs_hops st, path_cost = totalLatency st, path_rawRTT = Fin (totalLatency st)\<rparr>, perms st)
      | (False, st) \<Rightarrow> (None, perms st))"

text \<open>The loop of the attempts; the paths found so far are also the keys of \<open>usedPaths\<close>.\<close>

fun dfs_attempts :: "(nat \<Rightarrow> nat \<Rightarrow> nat list) \<Rightarrow> string \<Rightarrow> string \<Rightarrow> adjacency \<Rightarrow> int \<Rightarrow> nat \<Rightarrow> string set \<Rightarrow> Path list \<Rightarrow> nat
    \<Rightarrow> Path list \<times> nat" where
  "dfs_attempts perm start end' G num 0 used paths n = (paths, n)"
| "dfs_attempts perm start end' G num (Suc a) used paths n =
     (if int (length paths) < num
      then case dfsRandomPath perm start end' G dfs_maxHops n of
             (None, n) \<Rightarrow> dfs_attempts perm start end' G num a used paths n
           | (Some path, n) \<Rightarrow>
               (let pathStr = strings_join arrow (path_hops path)
                in if pathStr \<in> used then dfs_attempts perm start end' G num a used paths n
                   else dfs_attempts perm start end' G num a (insert pathStr used) (paths @ [path]) n)
      else (paths, n))"

definition randomDFSPaths :: "(nat \<Rightarrow> nat \<Rightarrow> nat list) \<Rightarrow> string \<Rightarrow> string \<Rightarrow> adjacency \<Rightarrow> int \<Rightarrow> nat \<Rightarrow> Path list \<times> nat" where
  "randomDFSPaths perm start end' G num n =
     (case dfs_attempts perm start end' G num maxAttempts {} [] n of (paths, n) \<Rightarrow> (exchange_sort path_cost paths, n))"

section \<open>Candidates\<close>

record destCandidates =
  dc_end :: string
  dc_paths :: "PathInfo list"
  dc_probs :: "float64 list"

definition deduplicateHops :: "string list \<Rightarrow> string list" where
  "deduplicateHops hops = removeConsecutiveDuplicates hops"

definition filterPathsByHops :: "PathInfo list \<Rightarrow> nat \<Rightarrow> PathInfo list" where
  "filterPathsByHops paths m = filter (\<lambda>p. int (length (Hops p)) - 1 \<le> int m) paths"

definition path_infos :: "Path list \<Rightarrow> PathInfo list" where
  "path_infos paths =
     map (\<lambda>p. \<lparr>Hops = deduplicateHops (path_hops p), Rtt = path_cost p, RawRTT = float_of (path_rawRTT p)\<rparr>)
       (filter (\<lambda>p. \<not> int (length (deduplicateHops (path_hops p))) - 1 > int maxHops) paths)"

fun generateCandidatePaths :: "(nat \<Rightarrow> nat \<Rightarrow> nat list) \<Rightarrow> int \<Rightarrow> string \<Rightarrow> string list \<Rightarrow> string list \<Rightarrow> adjacency \<Rightarrow> nat
    \<Rightarrow> destCandidates list \<times> nat" where
  "generateCandidatePaths perm num start [] nds G n = ([], n)"
| "generateCandidatePaths perm num start (end' # ends) nds G n =
     (if end' \<notin> set nds then generateCandidatePaths perm num start ends nds G n
      else case randomDFSPaths perm start end' G num n of
             (paths, n) \<Rightarrow>
               (let pathInfos = filterPathsByHops (path_infos paths) maxHops
                in if paths = [] \<or> pathInfos = [] then generateCandidatePaths perm num start ends nds G n
                   else let cut = (if int (length pathInfos) > num then take (nat num) pathInfos else pathInfos)
                        in case generateCandidatePaths perm num start ends nds G n of
                             (cs, n) \<Rightarrow> (\<lparr>dc_end = end', dc_paths = cut, dc_probs = []\<rparr> # cs, n)))"

definition no_paths :: "string \<Rightarrow> string list \<Rightarrow> string" where
  "no_paths start ends = ''no paths found from '' @ start @ '' to any of ['' @ strings_join '' '' ends @ '']''"

section \<open>Stochastic selection\<close>

definition inverse_latencies :: "PathInfo list \<Rightarrow> float64 list" where
  "inverse_latencies paths =
     (let total = sum_list (map (\<lambda>p. 1 / RawRTT p) (filter (\<lambda>p. RawRTT p > 0) paths))
      in map (\<lambda>p. if RawRTT p > 0 \<and> total > 0 then (1 / RawRTT p) / total else 1 / real (length paths)) paths)"

text \<open>The weighted choice among the indices that are left; \<open>i\<close> is the index of the first probability.\<close>

fun pick :: "nat set \<Rightarrow> float64 \<Rightarrow> float64 \<Rightarrow> nat \<Rightarrow> float64 list \<Rightarrow> nat" where
  "pick used r cumulative i [] = 0"
| "pick used r cumulative i (p # ps) =
     (if i \<in> used then pick used r cumulative (Suc i) ps
      else if r \<le> cumulative + p then i
      else pick used r (cumulative + p) (Suc i) ps)"

fun left_prob :: "nat set \<Rightarrow> nat \<Rightarrow> float64 list \<Rightarrow> float64" where
  "left_prob used i [] = 0"
| "left_prob used i (p # ps) = (if i \<in> used then 0 else p) + left_prob used (Suc i) ps"

fun choose_paths :: "(nat \<Rightarrow> float64) \<Rightarrow> nat \<Rightarrow> destCandidates \<Rightarrow> nat set \<Rightarrow> nat \<Rightarrow> PathInfo list \<times> nat" where
  "choose_paths flt 0 dc used n = ([], n)"
| "choose_paths flt (Suc k) dc used n =
     (let r = flt n * left_prob used 0 (dc_probs dc);
          i = pick used r 0 0 (dc_probs dc)
      in case choose_paths flt k dc (insert i used) (Suc n) of (ps, n') \<Rightarrow> (dc_paths dc ! i # ps, n'))"

definition pathsPerDest :: nat where "pathsPerDest = 2"
definition numIterations :: nat where "numIterations = 100"
definition loadWeight :: float64 where "loadWeight = 5"

fun choose_solution :: "(nat \<Rightarrow> float64) \<Rightarrow> destCandidates list \<Rightarrow> nat \<Rightarrow> PathInfo list \<times> nat" where
  "choose_solution flt [] n = ([], n)"
| "choose_solution flt (dc # dcs) n =
     (case choose_paths flt (min pathsPerDest (length (dc_paths dc))) dc {} n of
        (ps, n) \<Rightarrow> (case choose_solution flt dcs n of (qs, n) \<Rightarrow> (ps @ qs, n)))"

definition path_edges :: "PathInfo \<Rightarrow> string list" where
  "path_edges p = map (\<lambda>i. edge_line (Hops p ! i) (Hops p ! Suc i)) [0..<length (Hops p) - 1]"

text \<open>
  \<open>edgeLoadMap\<close>: the last edge with a key wins. The penalty of an edge is added once, at the first
  path that uses it.
\<close>

definition edge_load :: "Edge list \<Rightarrow> string \<Rightarrow> float64" where
  "edge_load es = map_get 0 (map_of (map (\<lambda>e. (edge_line (SourceIp e) (DestinationIp e), Load e)) (rev es)))"

definition edge_penalty :: "Edge list \<Rightarrow> PathInfo list \<Rightarrow> string \<Rightarrow> float64" where
  "edge_penalty es paths k =
     (let cnt = real (count_list (concat (map path_edges paths)) k)
      in cnt * cnt * max (edge_load es k) 1 * loadWeight)"

definition solution_score :: "Edge list \<Rightarrow> PathInfo list \<Rightarrow> float64" where
  "solution_score es paths =
     sum_list (map RawRTT paths) + sum_list (map (edge_penalty es paths) (remdups (concat (map path_edges paths))))"

fun solutions :: "(nat \<Rightarrow> float64) \<Rightarrow> Edge list \<Rightarrow> destCandidates list \<Rightarrow> nat \<Rightarrow> nat \<Rightarrow> (PathInfo list \<times> float64) list" where
  "solutions flt es dcs 0 n = []"
| "solutions flt es dcs (Suc k) n =
     (case choose_solution flt dcs n of (ps, n') \<Rightarrow> (ps, solution_score es ps) # solutions flt es dcs k n')"

fun best_solution :: "(PathInfo list \<times> float64) \<Rightarrow> (PathInfo list \<times> float64) list \<Rightarrow> PathInfo list \<times> float64" where
  "best_solution b [] = b"
| "best_solution b (s # ss) = best_solution (if snd s < snd b then s else b) ss"

definition beamSearchSelection :: "(nat \<Rightarrow> float64) \<Rightarrow> Edge list \<Rightarrow> destCandidates list \<Rightarrow> PathInfo list" where
  "beamSearchSelection flt es dcs =
     (let dcs = map (\<lambda>dc. if dc_paths dc = [] then dc else dc\<lparr>dc_probs := inverse_latencies (dc_paths dc)\<rparr>) dcs;
          sols = solutions flt es dcs numIterations 0
      in fst (best_solution (hd sols) (tl sols)))"

definition ONEWAN_ComputingMulti :: "(nat \<Rightarrow> nat \<Rightarrow> nat list) \<Rightarrow> (nat \<Rightarrow> float64) \<Rightarrow> ONEWANSolver \<Rightarrow> string \<Rightarrow> string list
    \<Rightarrow> PathInfo list result" where
  "ONEWAN_ComputingMulti perm flt os start ends =
     (if start \<notin> set (graph_nodes (ow_edges os)) then Inl (node_not_found ''start'' start)
      else case generateCandidatePaths perm (ow_maxPaths os) start ends (graph_nodes (ow_edges os)) (build_graph (ow_edges os)) 0 of
             (dcs, n) \<Rightarrow> if dcs = [] then Inl (no_paths start ends) else Inr (beamSearchSelection flt (ow_edges os) dcs))"

section \<open>What a search returns\<close>

definition permutes :: "(nat \<Rightarrow> nat \<Rightarrow> nat list) \<Rightarrow> bool" where
  "permutes perm \<longleftrightarrow> (\<forall>i n. mset (perm i n) = mset [0..<n])"

text \<open>
  A path of the remaining depth that avoids the nodes on the stack. A failed search leaves the
  stack as it was, and there was no such path; a successful one has put one on the stack.
\<close>

definition completion :: "adjacency \<Rightarrow> string \<Rightarrow> string list \<Rightarrow> string \<Rightarrow> nat \<Rightarrow> Edge list \<Rightarrow> bool" where
  "completion G target hs node d es \<longleftrightarrow> walk G [] [] node es target \<and> distinct (hs @ walk_hops node es) \<and> length es < d"

definition dfs_ok :: "string list \<Rightarrow> float64 \<Rightarrow> (Edge list \<Rightarrow> bool) \<Rightarrow> string \<Rightarrow> bool \<Rightarrow> dfs_state \<Rightarrow> bool" where
  "dfs_ok hs lat C node b st \<longleftrightarrow> dfs_visited st = set (dfs_hops st) \<and>
     (if b then \<exists>es. C es \<and> dfs_hops st = hs @ walk_hops node es \<and> totalLatency st = lat + walk_rtt es
      else dfs_hops st = hs \<and> totalLatency st = lat \<and> (\<nexists>es. C es))"

lemma shuffled_set:
  assumes "permutes perm"
  shows "set (map (\<lambda>i. xs ! i) (perm n (length xs))) = set xs"
proof -
  have "set (perm n (length xs)) = {0..<length xs}"
    using assms by (metis permutes_def set_mset_mset set_upt)
  then show ?thesis using nth_image [of "length xs" xs] by simp
qed

lemma completion_Cons:
  assumes "node \<noteq> target"
  shows "completion G target hs node (Suc d) es \<longleftrightarrow>
    (\<exists>e es'. es = e # es' \<and> e \<in> set (adj G node) \<and> completion G target (hs @ [node]) (DestinationIp e) d es')"
  using assms by (cases es) (auto simp: completion_def walk_hops_def arc_def)

lemma dfs_okD:
  assumes "dfs_ok hs lat C node b st"
  shows "dfs_visited st = set (dfs_hops st)"
    and "b \<Longrightarrow> \<exists>es. C es \<and> dfs_hops st = hs @ walk_hops node es \<and> totalLatency st = lat + walk_rtt es"
    and "\<not> b \<Longrightarrow> dfs_hops st = hs \<and> totalLatency st = lat \<and> (\<nexists>es. C es)"
  using assms by (auto simp: dfs_ok_def)

lemma dfs_ok_cong: "dfs_ok hs lat C node b st \<Longrightarrow> (\<And>es. C es = C' es) \<Longrightarrow> dfs_ok hs lat C' node b st"
  using ext [of C C'] by simp

lemma completion_fresh: "completion G target hs node d es \<Longrightarrow> node \<notin> set hs"
  by (simp add: completion_def walk_hops_def)

text \<open>The paths through one of the edges \<open>Es\<close> out of \<open>node\<close>.\<close>

definition via :: "adjacency \<Rightarrow> string \<Rightarrow> string list \<Rightarrow> string \<Rightarrow> nat \<Rightarrow> Edge set \<Rightarrow> Edge list \<Rightarrow> bool" where
  "via G target hs node d Es es \<longleftrightarrow>
     (\<exists>e es'. es = e # es' \<and> e \<in> Es \<and> completion G target (hs @ [node]) (DestinationIp e) d es')"

lemma dfs_ok_step:
  assumes "dfs_ok (hs @ [node]) lat (completion G target (hs @ [node]) (DestinationIp e) d) (DestinationIp e) True st"
  shows "dfs_ok hs lat (via G target hs node d (insert e Es)) node True (st\<lparr>totalLatency := totalLatency st + Latency e\<rparr>)"
proof -
  obtain es where "completion G target (hs @ [node]) (DestinationIp e) d es"
      "dfs_hops st = hs @ walk_hops node (e # es)" "totalLatency st = lat + walk_rtt es"
    using dfs_okD(2) [OF assms] by (auto simp: walk_hops_def)
  then have "via G target hs node d (insert e Es) (e # es)" "dfs_hops st = hs @ walk_hops node (e # es)"
      "totalLatency st + Latency e = lat + walk_rtt (e # es)"
    by (auto simp: via_def walk_rtt_def)
  then show ?thesis using dfs_okD(1) [OF assms] unfolding dfs_ok_def by auto
qed

lemma via_skip:
  assumes "\<nexists>es. completion G target (hs @ [node]) (DestinationIp e) d es"
  shows "via G target hs node d (insert e Es) = via G target hs node d Es"
  using assms by (auto simp: via_def fun_eq_iff)

lemma dfs_leave_enter: "node \<notin> dfs_visited st \<Longrightarrow> dfs_leave node (dfs_enter node st) = st"
  by (simp add: dfs_leave_def dfs_enter_def)

lemma dfs_correct:
  shows "permutes perm \<Longrightarrow> distinct (dfs_hops st) \<Longrightarrow> dfs_visited st = set (dfs_hops st) \<Longrightarrow> node \<notin> set (dfs_hops st)
      \<Longrightarrow> dfs perm G target d node st = (b, st')
      \<Longrightarrow> dfs_ok (dfs_hops st) (totalLatency st) (completion G target (dfs_hops st) node d) node b st'"
    and "permutes perm \<Longrightarrow> dfs_hops st = hs @ [node] \<Longrightarrow> distinct (hs @ [node]) \<Longrightarrow> dfs_visited st = set (hs @ [node])
      \<Longrightarrow> dfs_try perm G target d node Es st = (b, st')
      \<Longrightarrow> dfs_ok hs (totalLatency st) (via G target hs node d (set Es)) node b st'"
proof (induction perm G target d node st and perm G target d node Es st
    arbitrary: b st' and hs b st' rule: dfs_dfs_try.induct)
  case (1 perm G target node st)
  then show ?case by (auto simp: dfs_ok_def completion_def)
next
  case (2 perm G target d node st)
  let ?st = "dfs_enter node st"
  consider (found) "node = target" | (leaf) "node \<noteq> target" "adj G node = []" | (inner) "node \<noteq> target" "adj G node \<noteq> []"
    by blast
  then show ?case
  proof cases
    case found
    then have "completion G target (dfs_hops st) node (Suc d) []" using 2(3,5) by (simp add: completion_def walk_hops_def)
    moreover have "b = True" "st' = ?st" using 2(6) found by simp_all
    ultimately show ?thesis using 2(4)
      unfolding dfs_ok_def by (auto simp: dfs_enter_def walk_hops_def walk_rtt_def intro!: exI [of _ "[]"])
  next
    case leaf
    then have "\<not> completion G target (dfs_hops st) node (Suc d) es" for es by (simp add: completion_Cons)
    moreover have "b = False" "st' = st" using 2(6) leaf dfs_leave_enter [of node st] 2(4,5) by simp_all
    ultimately show ?thesis using 2(4) by (simp add: dfs_ok_def)
  next
    case inner
    have "via G target (dfs_hops st) node d (set (adj G node)) es = completion G target (dfs_hops st) node (Suc d) es" for es
      using completion_Cons [OF inner(1)] by (auto simp: via_def)
    moreover have run: "dfs_try perm G target d node (map ((!) (adj G node)) (perm (perms ?st) (length (adj G node))))
        (?st\<lparr>perms := Suc (perms ?st)\<rparr>) = (b, st')"
      using 2(6) inner by (simp add: Let_def)
    have "dfs_ok (dfs_hops st) (totalLatency (?st\<lparr>perms := Suc (perms ?st)\<rparr>))
        (via G target (dfs_hops st) node d (set (adj G node))) node b st'"
      using 2(1) [OF refl inner refl 2(2) _ _ _ run, of "dfs_hops st"] 2(3-5)
      unfolding shuffled_set [OF 2(2)] by (simp add: dfs_enter_def)
    then have "dfs_ok (dfs_hops st) (totalLatency st) (via G target (dfs_hops st) node d (set (adj G node))) node b st'"
      by (simp add: dfs_enter_def)
    ultimately show ?thesis using dfs_ok_cong by blast
  qed
next
  case (3 perm G target d node st)
  then show ?case by (auto simp: dfs_ok_def dfs_leave_def via_def)
next
  case (4 perm G target d node e es st)
  show ?case
  proof (cases "DestinationIp e \<in> dfs_visited st")
    case True
    then have "\<nexists>es. completion G target (hs @ [node]) (DestinationIp e) d es"
      using 4(7) completion_fresh by metis
    then show ?thesis using 4(1) [OF True 4(4-7)] 4(8) True by (simp add: via_skip)
  next
    case False
    obtain b1 st1 where r: "dfs perm G target d (DestinationIp e) st = (b1, st1)" by fastforce
    have ok: "dfs_ok (hs @ [node]) (totalLatency st) (completion G target (hs @ [node]) (DestinationIp e) d) (DestinationIp e) b1 st1"
      using 4(2) [OF False 4(4) _ _ _ r] 4(5-7) False by simp
    show ?thesis
    proof (cases b1)
      case True
      then show ?thesis using dfs_ok_step [of hs node "totalLatency st" G target e d st1 "set es"] ok r False 4(8) by simp
    next
      case b1: False
      note st1 = dfs_okD(1) [OF ok] dfs_okD(3) [OF ok b1]
      have "dfs_ok hs (totalLatency st) (via G target hs node d (set es)) node b st'"
        using 4(3) [OF False r [symmetric] _ 4(4) _ 4(6), of b st'] b1 st1 4(8) r False by simp
      then show ?thesis using st1(2) by (simp add: via_skip)
    qed
  qed
qed

section \<open>Candidates of a destination\<close>

text \<open>The simple paths that the depth limit of the search allows.\<close>

definition short_route :: "Edge list \<Rightarrow> string \<Rightarrow> Edge list \<Rightarrow> string \<Rightarrow> bool" where
  "short_route E s es t \<longleftrightarrow> simple_route E s es t \<and> length es \<le> dfs_maxHops"

definition found_path :: "Edge list \<Rightarrow> string \<Rightarrow> string \<Rightarrow> Path \<Rightarrow> bool" where
  "found_path E s t p \<longleftrightarrow> (\<exists>es. short_route E s es t \<and> path_hops p = walk_hops s es \<and> path_cost p = walk_rtt es
     \<and> path_rawRTT p = Fin (walk_rtt es))"

lemma completion_build: "completion (build_graph E) t [] s (Suc dfs_maxHops) = (\<lambda>es. short_route E s es t)"
  by (simp add: fun_eq_iff completion_def short_route_def simple_route_def walk_build less_Suc_eq_le conj_assoc)

lemma dfsRandomPath_ok:
  assumes "permutes perm" and r: "dfsRandomPath perm s t (build_graph E) dfs_maxHops n = (r, n')"
  shows "case r of None \<Rightarrow> \<nexists>es. short_route E s es t | Some p \<Rightarrow> found_path E s t p"
proof -
  let ?st = "\<lparr>dfs_visited = {}, dfs_hops = [], totalLatency = 0, perms = n\<rparr>"
  obtain b st where d: "dfs perm (build_graph E) t (Suc dfs_maxHops) s ?st = (b, st)" by fastforce
  have ok: "dfs_ok [] 0 (\<lambda>es. short_route E s es t) s b st"
    using dfs_correct(1) [OF assms(1) _ _ _ d] by (simp add: completion_build)
  show ?thesis
  proof (cases b)
    case True
    then show ?thesis using dfs_okD(2) [OF ok] r d by (auto simp: dfsRandomPath_def found_path_def)
  next
    case False
    then show ?thesis using dfs_okD(3) [OF ok] r d by (auto simp: dfsRandomPath_def)
  qed
qed

definition paths_found :: "Edge list \<Rightarrow> string \<Rightarrow> string \<Rightarrow> Path list \<Rightarrow> bool" where
  "paths_found E s t ps \<longleftrightarrow> list_all (found_path E s t) ps \<and> distinct (map path_hops ps)"

lemma dfs_attempts_ok:
  assumes "permutes perm"
  shows "paths_found E s t ps \<Longrightarrow> used = (\<lambda>p. strings_join arrow (path_hops p)) ` set ps
    \<Longrightarrow> dfs_attempts perm s t (build_graph E) num a used ps n = (ps', n')
    \<Longrightarrow> paths_found E s t ps' \<and> set ps \<subseteq> set ps' \<and> ((\<exists>es. short_route E s es t) \<longrightarrow> 0 < a \<longrightarrow> 0 < num \<longrightarrow> ps' \<noteq> [])"
proof (induction a arbitrary: used ps n)
  case (Suc a)
  let ?join = "\<lambda>p. strings_join arrow (path_hops p)"
  show ?case
  proof (cases "int (length ps) < num")
    case False
    then show ?thesis using Suc.prems by auto
  next
    case True
    obtain r n1 where r: "dfsRandomPath perm s t (build_graph E) dfs_maxHops n = (r, n1)" by fastforce
    note ok = dfsRandomPath_ok [OF assms r]
    show ?thesis
    proof (cases r)
      case None
      then show ?thesis using Suc.IH [OF Suc.prems(1,2), of n1] Suc.prems(3) ok r True by simp
    next
      case (Some p)
      show ?thesis
      proof (cases "?join p \<in> used")
        case True
        then have "ps \<noteq> []" using Suc.prems(2) by auto
        then show ?thesis using Suc.IH [OF Suc.prems(1,2), of n1] Suc.prems(3) r True Some \<open>int (length ps) < num\<close> by auto
      next
        case False
        have "paths_found E s t (ps @ [p])"
          using Suc.prems(1,2) ok Some False by (auto simp: paths_found_def)
        then show ?thesis using Suc.IH [of "ps @ [p]" "insert (?join p) used" n1] Suc.prems(2,3) r True False Some by auto
      qed
    qed
  qed
qed simp

lemma randomDFSPaths_ok:
  assumes "permutes perm" and r: "randomDFSPaths perm s t (build_graph E) num n = (ps, n')"
  shows "paths_found E s t ps" and "(\<exists>es. short_route E s es t) \<Longrightarrow> 0 < num \<Longrightarrow> ps \<noteq> []"
proof -
  obtain qs where qs: "dfs_attempts perm s t (build_graph E) num maxAttempts {} [] n = (qs, n')" "ps = exchange_sort path_cost qs"
    using r by (auto simp: randomDFSPaths_def split: prod.splits)
  have *: "paths_found E s t qs" "(\<exists>es. short_route E s es t) \<Longrightarrow> 0 < num \<Longrightarrow> qs \<noteq> []"
    using dfs_attempts_ok [OF assms(1) _ _ qs(1)] by (auto simp: paths_found_def maxAttempts_def)
  show "paths_found E s t ps"
    using *(1) qs(2) by (simp add: paths_found_def list_all_iff exchange_sort_map_distinct)
  show "ps \<noteq> []" if "\<exists>es. short_route E s es t" "0 < num"
    using *(2) [OF that] qs(2) by (metis length_0_conv length_exchange_sort)
qed

text \<open>A route in the form in which the solver returns it.\<close>

definition route_info :: "Edge list \<Rightarrow> string \<Rightarrow> string \<Rightarrow> PathInfo \<Rightarrow> bool" where
  "route_info E s t p \<longleftrightarrow> (\<exists>es. short_route E s es t \<and> Hops p = walk_hops s es \<and> Rtt p = walk_rtt es \<and> RawRTT p = walk_rtt es)"

definition cand_ok :: "Edge list \<Rightarrow> string \<Rightarrow> destCandidates \<Rightarrow> bool" where
  "cand_ok E s dc \<longleftrightarrow> dc_paths dc \<noteq> [] \<and> distinct (map Hops (dc_paths dc)) \<and> list_all (route_info E s (dc_end dc)) (dc_paths dc)"

lemma found_path_clean:
  assumes "found_path E s t p"
  shows "deduplicateHops (path_hops p) = path_hops p" and "length (path_hops p) \<le> Suc dfs_maxHops"
    and "route_info E s t \<lparr>Hops = path_hops p, Rtt = path_cost p, RawRTT = float_of (path_rawRTT p)\<rparr>"
  using assms by (auto simp: found_path_def short_route_def simple_route_def deduplicateHops_def route_info_def
      removeConsecutiveDuplicates_distinct walk_hops_def)

lemma path_infos_found:
  assumes "paths_found E s t ps"
  shows "filterPathsByHops (path_infos ps) maxHops =
    map (\<lambda>p. \<lparr>Hops = path_hops p, Rtt = path_cost p, RawRTT = float_of (path_rawRTT p)\<rparr>) ps"
proof -
  have p: "deduplicateHops (path_hops p) = path_hops p" "length (path_hops p) \<le> Suc 30" if "p \<in> set ps" for p
    using found_path_clean(1,2) [of E s t p] assms that by (auto simp: paths_found_def list_all_iff dfs_maxHops_def)
  then have "filter (\<lambda>p. \<not> int (length (deduplicateHops (path_hops p))) - 1 > int maxHops) ps = ps"
    by (fastforce simp: filter_id_conv maxHops_def)
  then have "path_infos ps = map (\<lambda>p. \<lparr>Hops = path_hops p, Rtt = path_cost p, RawRTT = float_of (path_rawRTT p)\<rparr>) ps"
    using p(1) unfolding path_infos_def by simp
  moreover have "int (length (Hops q)) - 1 \<le> int maxHops"
    if "q \<in> set (map (\<lambda>p. \<lparr>Hops = path_hops p, Rtt = path_cost p, RawRTT = float_of (path_rawRTT p)\<rparr>) ps)" for q
    using p(2) that by (fastforce simp: maxHops_def)
  ultimately show ?thesis by (simp add: filterPathsByHops_def filter_id_conv)
qed

lemma cand_ok_found:
  assumes "paths_found E s t ps" "ps \<noteq> []" "0 < num"
  shows "cand_ok E s \<lparr>dc_end = t, dc_paths = take (nat num) (filterPathsByHops (path_infos ps) maxHops), dc_probs = []\<rparr>"
proof -
  let ?info = "\<lambda>p. \<lparr>Hops = path_hops p, Rtt = path_cost p, RawRTT = float_of (path_rawRTT p)\<rparr>"
  have "list_all (route_info E s t) (map ?info ps)"
    using assms(1) found_path_clean(3) by (auto simp: paths_found_def list_all_iff)
  moreover have "distinct (map Hops (map ?info ps))" using assms(1) by (simp add: paths_found_def comp_def)
  ultimately show ?thesis unfolding cand_ok_def path_infos_found [OF assms(1)]
    using assms(2,3) set_take_subset [of "nat num" "map ?info ps"]
    by (auto simp: list_all_iff distinct_map_filter take_map [symmetric] simp del: map_map)
qed

lemma short_route_node: "short_route E s es t \<Longrightarrow> s \<in> set (graph_nodes E) \<Longrightarrow> t \<in> set (graph_nodes E)"
proof -
  have "edge_walk E s es t \<Longrightarrow> s \<in> set (graph_nodes E) \<Longrightarrow> t \<in> set (graph_nodes E)"
    by (induction es arbitrary: s) (auto simp: graph_nodes_def)
  then show "short_route E s es t \<Longrightarrow> s \<in> set (graph_nodes E) \<Longrightarrow> t \<in> set (graph_nodes E)"
    by (simp add: short_route_def simple_route_def)
qed

lemma paths_found_none: "\<nexists>es. short_route E s es t \<Longrightarrow> paths_found E s t ps \<Longrightarrow> ps = []"
  by (cases ps) (auto simp: paths_found_def found_path_def)

lemma generateCandidatePaths_ok:
  assumes "permutes perm" "0 < num" "s \<in> set (graph_nodes E)"
  shows "generateCandidatePaths perm num s ends (graph_nodes E) (build_graph E) n = (dcs, n')
    \<Longrightarrow> map dc_end dcs = filter (\<lambda>t. \<exists>es. short_route E s es t) ends \<and> list_all (cand_ok E s) dcs"
proof (induction ends arbitrary: n dcs n')
  case (Cons t ends)
  let ?G = "build_graph E"
  obtain ps n1 where r: "randomDFSPaths perm s t ?G num n = (ps, n1)" by fastforce
  note found = randomDFSPaths_ok [OF assms(1) r]
  show ?case
  proof (cases "\<exists>es. short_route E s es t")
    case False
    then have "ps = []" using paths_found_none found(1) by blast
    then show ?thesis using Cons.IH [of n dcs n'] Cons.IH [of n1 dcs n'] Cons.prems r False by (auto split: if_splits)
  next
    case True
    then have t: "t \<in> set (graph_nodes E)" and ps: "ps \<noteq> []"
      using short_route_node assms(3) found(2) assms(2) by blast+
    let ?infos = "filterPathsByHops (path_infos ps) maxHops"
    have ne: "?infos \<noteq> []" using ps by (simp add: path_infos_found [OF found(1)])
    obtain cs n2 where g: "generateCandidatePaths perm num s ends (graph_nodes E) ?G n1 = (cs, n2)" by fastforce
    have "(if int (length ?infos) > num then take (nat num) ?infos else ?infos) = take (nat num) ?infos" by auto
    then have "dcs = \<lparr>dc_end = t, dc_paths = take (nat num) ?infos, dc_probs = []\<rparr> # cs"
      using Cons.prems r t ps ne g by (simp add: Let_def)
    then show ?thesis using Cons.IH [OF g] cand_ok_found [OF found(1) ps assms(2)] True by simp
  qed
qed simp

section \<open>What the selection returns\<close>

lemma pick_unused:
  assumes "r \<le> c + left_prob used i ps" "0 < left_prob used i ps"
  shows "pick used r c i ps \<notin> used \<and> i \<le> pick used r c i ps \<and> pick used r c i ps < i + length ps"
  using assms
proof (induction ps arbitrary: c i)
  case (Cons p ps)
  show ?case
  proof (cases "i \<in> used \<or> \<not> r \<le> c + p")
    case True
    then have "r \<le> (if i \<in> used then c else c + p) + left_prob used (Suc i) ps" "0 < left_prob used (Suc i) ps"
      using Cons.prems by (auto split: if_splits)
    from Cons.IH [OF this] show ?thesis using True by (auto split: if_splits)
  qed auto
qed simp

lemma left_prob_nonneg: "list_all (\<lambda>p. 0 < p) ps \<Longrightarrow> 0 \<le> left_prob used i ps"
  by (induction ps arbitrary: i) auto

lemma left_prob_pos:
  assumes "list_all (\<lambda>p. 0 < p) ps" "j \<notin> used" "i \<le> j" "j < i + length ps"
  shows "0 < left_prob used i ps"
  using assms
proof (induction ps arbitrary: i)
  case (Cons p ps)
  then show ?case
    using left_prob_nonneg [of ps used "Suc i"] Cons.IH [of "Suc i"] by (cases "i = j") (auto simp: add_pos_nonneg add_nonneg_pos)
qed simp

lemma choose_paths_ok:
  assumes "\<And>n. 0 \<le> flt n \<and> flt n < 1" "list_all (\<lambda>p. 0 < p) (dc_probs dc)" "length (dc_probs dc) = length (dc_paths dc)"
  shows "used \<subseteq> {..<length (dc_paths dc)} \<Longrightarrow> k + card used \<le> length (dc_paths dc) \<Longrightarrow> choose_paths flt k dc used n = (ps, n')
    \<Longrightarrow> \<exists>is. ps = map (\<lambda>i. dc_paths dc ! i) is \<and> distinct is \<and> set is \<inter> used = {} \<and> set is \<subseteq> {..<length (dc_paths dc)} \<and> length is = k"
proof (induction k arbitrary: used n ps)
  case (Suc k)
  let ?m = "length (dc_paths dc)" and ?left = "left_prob used 0 (dc_probs dc)"
  define i where "i = pick used (flt n * ?left) 0 0 (dc_probs dc)"
  have fin: "finite used" using Suc.prems(1) finite_subset by blast
  have "\<not> {..<?m} \<subseteq> used" using Suc.prems(2) card_mono [OF fin, of "{..<?m}"] by auto
  then obtain j where "j < ?m" "j \<notin> used" by auto
  then have pos: "0 < ?left" using left_prob_pos [OF assms(2)] assms(3) by auto
  then have "flt n * ?left \<le> 0 + ?left" using assms(1) [of n] by (simp add: mult_left_le_one_le)
  then have i: "i \<notin> used" "i < ?m" using pick_unused [OF _ pos] assms(3) unfolding i_def by auto
  obtain qs where qs: "choose_paths flt k dc (insert i used) (Suc n) = (qs, n')" "ps = dc_paths dc ! i # qs"
    using Suc.prems(3) unfolding i_def by (auto simp: Let_def split: prod.splits)
  have "insert i used \<subseteq> {..<?m}" "k + card (insert i used) \<le> ?m" using Suc.prems(1,2) i fin by auto
  from Suc.IH [OF this qs(1)] obtain "is" where
    "qs = map (\<lambda>i. dc_paths dc ! i) is" "distinct is" "set is \<inter> insert i used = {}" "set is \<subseteq> {..<?m}" "length is = k" by blast
  then show ?case using i qs(2) by (intro exI [of _ "i # is"]) auto
qed simp

text \<open>For every destination two of its candidates, or the only one.\<close>

definition chosen :: "destCandidates \<Rightarrow> PathInfo list \<Rightarrow> bool" where
  "chosen dc qs \<longleftrightarrow> set qs \<subseteq> set (dc_paths dc) \<and> length qs = min pathsPerDest (length (dc_paths dc))
     \<and> (distinct (map Hops (dc_paths dc)) \<longrightarrow> distinct (map Hops qs))"

lemma chosen_indices:
  assumes "distinct is" "set is \<subseteq> {..<length (dc_paths dc)}" "length is = min pathsPerDest (length (dc_paths dc))"
  shows "chosen dc (map (\<lambda>i. dc_paths dc ! i) is)"
proof -
  have "distinct (map Hops (map (\<lambda>i. dc_paths dc ! i) is))" if d: "distinct (map Hops (dc_paths dc))"
  proof -
    have "i = j" if "i \<in> set is" "j \<in> set is" "Hops (dc_paths dc ! i) = Hops (dc_paths dc ! j)" for i j
      using nth_eq_iff_index_eq [OF d, of i j] that assms(2) by auto
    then have "inj_on (\<lambda>i. Hops (dc_paths dc ! i)) (set is)" by (simp add: inj_on_def)
    then show ?thesis using assms(1) by (simp add: distinct_map comp_def)
  qed
  then show ?thesis using assms by (auto simp: chosen_def)
qed

definition weighted :: "destCandidates \<Rightarrow> bool" where
  "weighted dc \<longleftrightarrow> list_all (\<lambda>p. 0 < p) (dc_probs dc) \<and> length (dc_probs dc) = length (dc_paths dc)"

lemma choose_solution_ok:
  assumes "\<And>n. 0 \<le> flt n \<and> flt n < 1"
  shows "list_all weighted dcs \<Longrightarrow> choose_solution flt dcs n = (ps, n') \<Longrightarrow> \<exists>pss. ps = concat pss \<and> list_all2 chosen dcs pss"
proof (induction dcs arbitrary: n ps)
  case (Cons dc dcs)
  let ?k = "min pathsPerDest (length (dc_paths dc))"
  obtain qs n1 rs where q: "choose_paths flt ?k dc {} n = (qs, n1)" and r: "choose_solution flt dcs n1 = (rs, n')" "ps = qs @ rs"
    using Cons.prems(2) by (auto split: prod.splits)
  have "chosen dc qs"
    using choose_paths_ok [OF assms _ _ _ _ q] Cons.prems(1) chosen_indices by (fastforce simp: weighted_def)
  moreover obtain pss where "rs = concat pss" "list_all2 chosen dcs pss" using Cons.IH [OF _ r(1)] Cons.prems(1) by auto
  ultimately show ?case using r(2) by (intro exI [of _ "qs # pss"]) simp
qed simp

lemma inverse_latencies_weights:
  assumes "paths \<noteq> []"
  shows "list_all (\<lambda>p. 0 < p) (inverse_latencies paths)" "length (inverse_latencies paths) = length paths"
  using assms by (auto simp: inverse_latencies_def list_all_iff Let_def)

lemma solutions_ok:
  assumes "\<And>n. 0 \<le> flt n \<and> flt n < 1" "list_all weighted dcs"
  shows "(ps, x) \<in> set (solutions flt es dcs k n) \<Longrightarrow> x = solution_score es ps \<and> (\<exists>pss. ps = concat pss \<and> list_all2 chosen dcs pss)"
proof (induction k arbitrary: n)
  case (Suc k)
  obtain qs n1 where q: "choose_solution flt dcs n = (qs, n1)" by fastforce
  then have "ps = qs \<and> x = solution_score es qs \<or> (ps, x) \<in> set (solutions flt es dcs k n1)"
    using Suc.prems by auto
  then show ?case using Suc.IH choose_solution_ok [OF assms q] by blast
qed simp

lemma best_solution_min:
  "best_solution b ss \<in> insert b (set ss) \<and> (\<forall>s \<in> insert b (set ss). snd (best_solution b ss) \<le> snd s)"
proof (induction ss arbitrary: b)
  case (Cons s ss)
  then show ?case using Cons.IH [of s] Cons.IH [of b] by fastforce
qed simp

definition with_probs :: "destCandidates \<Rightarrow> destCandidates" where
  "with_probs dc = (if dc_paths dc = [] then dc else dc\<lparr>dc_probs := inverse_latencies (dc_paths dc)\<rparr>)"

lemma with_probs_paths [simp]: "dc_paths (with_probs dc) = dc_paths dc" "dc_end (with_probs dc) = dc_end dc"
  by (simp_all add: with_probs_def)

lemma chosen_with_probs [simp]: "chosen (with_probs dc) qs = chosen dc qs"
  by (simp add: chosen_def)

lemma length_solutions [simp]: "length (solutions flt es dcs k n) = k"
  by (induction k arbitrary: n) (auto split: prod.splits)

lemma beamSearchSelection_ok:
  assumes "\<And>n. 0 \<le> flt n \<and> flt n < 1" "list_all (cand_ok E s) dcs" "ps = beamSearchSelection flt es dcs"
  shows "\<exists>pss. ps = concat pss \<and> list_all2 chosen dcs pss"
    and "\<forall>(qs, x) \<in> set (solutions flt es (map with_probs dcs) numIterations 0). solution_score es ps \<le> solution_score es qs"
proof -
  define sols where "sols = solutions flt es (map with_probs dcs) numIterations 0"
  have w: "list_all weighted (map with_probs dcs)"
    using assms(2) inverse_latencies_weights by (auto simp: list_all_iff weighted_def with_probs_def cand_ok_def)
  have "sols \<noteq> []" unfolding sols_def using length_solutions [of flt es "map with_probs dcs" numIterations 0]
    by (metis length_0_conv numIterations_def zero_neq_numeral)
  then have sols: "insert (hd sols) (set (tl sols)) = set sols" by (cases sols) auto
  let ?b = "best_solution (hd sols) (tl sols)"
  have ps: "ps = fst ?b" using assms(3) unfolding beamSearchSelection_def sols_def with_probs_def [abs_def] by (simp add: Let_def)
  have b: "?b \<in> set sols" "\<forall>s \<in> set sols. snd ?b \<le> snd s"
    using best_solution_min [of "hd sols" "tl sols"] unfolding sols by auto
  have score: "snd q = solution_score es (fst q) \<and> (\<exists>pss. fst q = concat pss \<and> list_all2 chosen (map with_probs dcs) pss)"
    if "q \<in> set sols" for q
    using solutions_ok [OF assms(1) w, of "fst q" "snd q"] that unfolding sols_def by simp
  show "\<exists>pss. ps = concat pss \<and> list_all2 chosen dcs pss"
    using score [OF b(1)] ps by (simp add: list_all2_map1)
  show "\<forall>(qs, x) \<in> set (solutions flt es (map with_probs dcs) numIterations 0). solution_score es ps \<le> solution_score es qs"
    using b score ps unfolding sols_def [symmetric] by fastforce
qed

definition reaches :: "Edge list \<Rightarrow> string \<Rightarrow> string \<Rightarrow> bool" where
  "reaches E s t \<longleftrightarrow> (\<exists>es. short_route E s es t)"

lemma chosen_route:
  assumes "chosen dc qs" "cand_ok E s dc"
  shows "qs \<noteq> [] \<and> length qs \<le> 2 \<and> distinct (map Hops qs) \<and> list_all (route_info E s (dc_end dc)) qs"
proof -
  have "0 < length qs" using assms by (simp add: chosen_def cand_ok_def pathsPerDest_def)
  then show ?thesis using assms by (auto simp: chosen_def cand_ok_def pathsPerDest_def list_all_iff)
qed

lemma chosen_routes:
  assumes "list_all2 chosen dcs pss" "list_all (cand_ok E s) dcs"
  shows "list_all2 (\<lambda>t qs. qs \<noteq> [] \<and> length qs \<le> 2 \<and> distinct (map Hops qs) \<and> list_all (route_info E s t) qs) (map dc_end dcs) pss"
  using assms by (induction rule: list_all2_induct) (auto dest: chosen_route)

definition unit_random :: "(nat \<Rightarrow> float64) \<Rightarrow> bool" where
  "unit_random flt \<longleftrightarrow> (\<forall>n. 0 \<le> flt n \<and> flt n < 1)"

text \<open>C11. Whatever the random numbers are, the answer for several destinations has, for every
  destination that a simple route of at most 15 edges reaches, one or two different simple routes
  to it with their latencies, in the order of the destinations, and nothing else; it is an error
  exactly when no destination is reached like this.\<close>

theorem ONEWAN_routes:
  assumes "permutes perm" "unit_random flt" "0 < ow_maxPaths os" "s \<in> set (graph_nodes (ow_edges os))"
  shows "case ONEWAN_ComputingMulti perm flt os s ends of
      Inl msg \<Rightarrow> filter (reaches (ow_edges os) s) ends = []
    | Inr ps \<Rightarrow> filter (reaches (ow_edges os) s) ends \<noteq> [] \<and> (\<exists>pss. ps = concat pss \<and>
        list_all2 (\<lambda>t qs. qs \<noteq> [] \<and> length qs \<le> 2 \<and> distinct (map Hops qs) \<and> list_all (route_info (ow_edges os) s t) qs)
          (filter (reaches (ow_edges os) s) ends) pss)"
proof -
  let ?E = "ow_edges os"
  obtain dcs n where g: "generateCandidatePaths perm (ow_maxPaths os) s ends (graph_nodes ?E) (build_graph ?E) 0 = (dcs, n)"
    by fastforce
  have dcs: "map dc_end dcs = filter (reaches ?E s) ends" "list_all (cand_ok ?E s) dcs"
    using generateCandidatePaths_ok [OF assms(1,3,4) g] by (simp_all add: reaches_def [abs_def])
  have flt: "0 \<le> flt n \<and> flt n < 1" for n using assms(2) by (simp add: unit_random_def)
  show ?thesis
  proof (cases "dcs = []")
    case True
    then show ?thesis using dcs(1) g assms(4) by (simp add: ONEWAN_ComputingMulti_def)
  next
    case False
    obtain pss where pss: "beamSearchSelection flt ?E dcs = concat pss" "list_all2 chosen dcs pss"
      using beamSearchSelection_ok(1) [of flt ?E s dcs "beamSearchSelection flt ?E dcs" ?E, OF flt dcs(2) refl] by blast
    have "filter (reaches ?E s) ends \<noteq> []" using dcs(1) False by (metis map_is_Nil_conv)
    moreover have "ONEWAN_ComputingMulti perm flt os s ends = Inr (concat pss)"
      using False g assms(4) pss(1) by (simp add: ONEWAN_ComputingMulti_def)
    ultimately show ?thesis using chosen_routes [OF pss(2) dcs(2)] unfolding dcs(1) by auto
  qed
qed

theorem ONEWAN_routes_witness:
  "\<exists>os. os = NewONEWANSolver sample_edges 3 \<and> permutes (\<lambda>i n. [0..<n]) \<and> unit_random (\<lambda>n. 0) \<and> 0 < ow_maxPaths os
    \<and> ''s'' \<in> set (graph_nodes (ow_edges os))
    \<and> (case ONEWAN_ComputingMulti (\<lambda>i n. [0..<n]) (\<lambda>n. 0) os ''s'' [''t'', ''x''] of
        Inl msg \<Rightarrow> filter (reaches (ow_edges os) ''s'') [''t'', ''x''] = []
      | Inr ps \<Rightarrow> filter (reaches (ow_edges os) ''s'') [''t'', ''x''] \<noteq> [] \<and> (\<exists>pss. ps = concat pss \<and>
          list_all2 (\<lambda>t qs. qs \<noteq> [] \<and> length qs \<le> 2 \<and> distinct (map Hops qs) \<and> list_all (route_info (ow_edges os) ''s'' t) qs)
            (filter (reaches (ow_edges os) ''s'') [''t'', ''x'']) pss))"
proof -
  let ?os = "NewONEWANSolver sample_edges 3"
  have h: "permutes (\<lambda>i n. [0..<n])" "unit_random (\<lambda>n. 0)" "0 < ow_maxPaths ?os" "''s'' \<in> set (graph_nodes (ow_edges ?os))"
    by (simp_all add: permutes_def unit_random_def NewONEWANSolver_def sample_edges_def link_def graph_nodes_def)
  show ?thesis by (intro exI [of _ ?os] conjI refl h ONEWAN_routes [OF h])
qed

end
