(* ===== verification/Carousel.thy ===== *)
theory Carousel
  imports Onewan
begin

text \<open>
  The flow-based solver for several destinations in
  control-plane/routing/core-domain/carousel-greed.go: paths are found by depth-first searches on
  a residual network under a latency limit per destination, and an iterated greedy search
  removes and replaces paths while it keeps the best solution.

  The orders in which Go iterates over a map and the library's \<open>Shuffle\<close> are permutations:
  \<open>perm i n\<close> is the \<open>i\<close>-th one drawn, for \<open>n\<close> elements; \<open>intn i n\<close> is the number below \<open>n\<close> of
  the \<open>i\<close>-th draw of \<open>rand.Intn\<close>. The number of draws is part of the state. The pointers to
  \<open>EdgeFlow\<close> are only reached through the graph, so that the graph holds the values.
\<close>

section \<open>The solver and its residual network\<close>

record FlowOptimizationSolver =
  fo_edges :: "Edge list"
  fo_nodes :: "string list"
  fo_alpha :: float64
  fo_beta :: float64
  fo_capacity :: float64
  flowsPerDest :: nat
  Tu :: float64
  Uhot :: float64
  epsilon :: float64
  thetaLMap :: "string \<rightharpoonup> float64"
  kspK :: int
  latencyMap :: "string \<rightharpoonup> float64"

definition latency_map :: "Edge list \<Rightarrow> string \<rightharpoonup> float64" where
  "latency_map es = map_of (rev (map (\<lambda>e. (edge_line (SourceIp e) (DestinationIp e), Latency e)) es))"

definition NewFlowOptimizationSolver :: "Edge list \<Rightarrow> FlowOptimizationSolver" where
  "NewFlowOptimizationSolver es =
     \<lparr>fo_edges = es, fo_nodes = remdups (graph_nodes es), fo_alpha = 2, fo_beta = 1 / 2, fo_capacity = 0, flowsPerDest = 2,
      Tu = 60, Uhot = 0, epsilon = 1 / 1000, thetaLMap = Map.empty, kspK = 3, latencyMap = latency_map es\<rparr>"

record EdgeFlow =
  ef_flow :: float64
  ef_cap :: float64
  ef_thetaA :: float64
  effCap :: float64
  banned :: bool
  residual :: float64

definition updateResidual :: "EdgeFlow \<Rightarrow> EdgeFlow" where
  "updateResidual ef = ef\<lparr>residual := effCap ef - ef_flow ef\<rparr>"

definition getReverseResidual :: "EdgeFlow \<Rightarrow> float64" where
  "getReverseResidual ef = ef_flow ef"

definition computeThetaA :: "FlowOptimizationSolver \<Rightarrow> float64 \<Rightarrow> float64" where
  "computeThetaA d cpuLoad =
     (let numerator = (if cpuLoad - Tu d < 0 then 0 else cpuLoad - Tu d);
          denominator = (if Uhot d - Tu d < epsilon d then epsilon d else Uhot d - Tu d);
          U_prime = numerator / denominator
      in 1 - (if U_prime > 1 then 1 else U_prime))"

text \<open>None when the search inside the k-shortest solver runs out of fuel.\<close>

fun computeThetaLForDestinations :: "string \<Rightarrow> string list \<Rightarrow> FlowOptimizationSolver \<Rightarrow> FlowOptimizationSolver option" where
  "computeThetaLForDestinations start [] d = Some d"
| "computeThetaLForDestinations start (end' # ends) d =
     (case Computing (NewKShortestSolverWithLatency (fo_edges d) (kspK d) True) start end' of
        None \<Rightarrow> None
      | Some r \<Rightarrow>
          (let thetaL = (case r of Inl err \<Rightarrow> 100
                         | Inr paths \<Rightarrow> if paths = [] then 100
                                       else sum_list (map Rtt paths) / real (length paths) * (3 / 2))
           in computeThetaLForDestinations start ends (d\<lparr>thetaLMap := (thetaLMap d)(end' \<mapsto> thetaL)\<rparr>)))"

text \<open>For a percentile that is not negative, where the conversion to int is the floor.\<close>

definition computePercentile :: "FlowOptimizationSolver \<Rightarrow> float64 \<Rightarrow> float64" where
  "computePercentile d percentile =
     (if fo_edges d = [] then 0
      else let loads = exchange_sort (\<lambda>x. x) (map Load (fo_edges d));
               index = percentile / 100 * real (length loads - 1);
               lowerIndex = nat \<lfloor>index\<rfloor>
           in if Suc lowerIndex \<ge> length loads then loads ! (length loads - 1)
              else loads ! lowerIndex + (index - real lowerIndex) * (loads ! Suc lowerIndex - loads ! lowerIndex))"

type_synonym flow_graph = "(string \<times> (string \<times> EdgeFlow) list) list"

text \<open>\<open>g[u]\<close>, nil when there is no entry, and \<open>g[u][v]\<close>.\<close>

definition out_edges :: "flow_graph \<Rightarrow> string \<Rightarrow> (string \<times> EdgeFlow) list" where
  "out_edges g u = map_get [] (map_of g) u"

definition edge_flow :: "flow_graph \<Rightarrow> string \<Rightarrow> string \<Rightarrow> EdgeFlow option" where
  "edge_flow g u v = map_of (out_edges g u) v"

definition upd_edge :: "(EdgeFlow \<Rightarrow> EdgeFlow) \<Rightarrow> string \<Rightarrow> string \<Rightarrow> flow_graph \<Rightarrow> flow_graph" where
  "upd_edge f u v = AList.map_entry u (AList.map_entry v f)"

definition new_flow :: "FlowOptimizationSolver \<Rightarrow> Edge \<Rightarrow> EdgeFlow" where
  "new_flow d e =
     (let thetaA = computeThetaA d (Load e); eff = thetaA * fo_capacity d
      in \<lparr>ef_flow = 0, ef_cap = fo_capacity d, ef_thetaA = thetaA, effCap = eff, banned = False, residual = eff\<rparr>)"

definition put_flow :: "FlowOptimizationSolver \<Rightarrow> Edge \<Rightarrow> flow_graph \<Rightarrow> flow_graph" where
  "put_flow d e g = AList.update (SourceIp e) (AList.update (DestinationIp e) (new_flow d e) (out_edges g (SourceIp e))) g"

definition buildResidualGraphWithCapacity :: "FlowOptimizationSolver \<Rightarrow> flow_graph" where
  "buildResidualGraphWithCapacity d = fold (put_flow d) (fo_edges d) []"

definition MaxFloat64 :: float64 where
  "MaxFloat64 = (2 ^ 53 - 1) * 2 ^ 971"

definition getEdgeLatency :: "FlowOptimizationSolver \<Rightarrow> string \<Rightarrow> string \<Rightarrow> float64" where
  "getEdgeLatency d from to = (case latencyMap d (edge_line from to) of Some l \<Rightarrow> l | None \<Rightarrow> MaxFloat64)"

text \<open>The loops over the consecutive pairs of a path.\<close>

fun steps :: "string list \<Rightarrow> (string \<times> string) list" where
  "steps (u # v # path) = (u, v) # steps (v # path)"
| "steps path = []"

definition add_flow :: "float64 \<Rightarrow> EdgeFlow \<Rightarrow> EdgeFlow" where
  "add_flow flow ef = updateResidual (ef\<lparr>ef_flow := ef_flow ef + flow\<rparr>)"

definition sub_flow :: "float64 \<Rightarrow> EdgeFlow \<Rightarrow> EdgeFlow" where
  "sub_flow flow ef = updateResidual (ef\<lparr>ef_flow := (if ef_flow ef - flow < 0 then 0 else ef_flow ef - flow)\<rparr>)"

definition allocateFlow :: "float64 \<Rightarrow> string list \<Rightarrow> flow_graph \<Rightarrow> flow_graph" where
  "allocateFlow flow path = fold (\<lambda>s. upd_edge (add_flow flow) (fst s) (snd s)) (steps path)"

definition releaseFlow :: "float64 \<Rightarrow> string list \<Rightarrow> flow_graph \<Rightarrow> flow_graph" where
  "releaseFlow flow path = fold (\<lambda>s. upd_edge (sub_flow flow) (fst s) (snd s)) (steps path)"

definition banEdge :: "string \<Rightarrow> string \<Rightarrow> flow_graph \<Rightarrow> flow_graph" where
  "banEdge u v = upd_edge (\<lambda>ef. ef\<lparr>banned := True\<rparr>) u v"

definition banPathEdges :: "string list \<Rightarrow> flow_graph \<Rightarrow> flow_graph" where
  "banPathEdges path = fold (\<lambda>s. banEdge (fst s) (snd s)) (steps path)"

definition unbanAllEdges :: "flow_graph \<Rightarrow> flow_graph" where
  "unbanAllEdges = map (\<lambda>(u, es). (u, map (\<lambda>(v, ef). (v, ef\<lparr>banned := False\<rparr>)) es))"

section \<open>The search for a path\<close>

text \<open>The list in the \<open>i\<close>-th order that is drawn.\<close>

definition reorder :: "(nat \<Rightarrow> nat \<Rightarrow> nat list) \<Rightarrow> nat \<Rightarrow> 'a list \<Rightarrow> 'a list" where
  "reorder perm i xs = map (\<lambda>j. xs ! j) (perm i (length xs))"

text \<open>The fields \<open>ef\<close> and \<open>revFrom\<close> are set and never read.\<close>

record edgeInfo =
  ei_to :: string
  ei_cost :: float64
  isRev :: bool

definition bannedPenalty :: float64 where
  "bannedPenalty = 100"

definition forward_edges :: "FlowOptimizationSolver \<Rightarrow> string \<Rightarrow> (string \<times> EdgeFlow) list \<Rightarrow> edgeInfo list" where
  "forward_edges d u es =
     map (\<lambda>(v, ef). \<lparr>ei_to = v, ei_cost = getEdgeLatency d u v + (if banned ef then bannedPenalty else 0), isRev = False\<rparr>)
       (filter (\<lambda>(v, ef). residual ef > 0) es)"

definition backward_edges :: "flow_graph \<Rightarrow> string \<Rightarrow> string list \<Rightarrow> edgeInfo list" where
  "backward_edges g u ns =
     concat (map (\<lambda>v. if v \<noteq> u
                      then case edge_flow g v u of
                             Some ef \<Rightarrow> if getReverseResidual ef > 0
                                        then [\<lparr>ei_to = v, ei_cost = (if banned ef then bannedPenalty else 0), isRev = True\<rparr>] else []
                           | None \<Rightarrow> []
                      else []) ns)"

definition getSortedEdges :: "(nat \<Rightarrow> nat \<Rightarrow> nat list) \<Rightarrow> nat \<Rightarrow> FlowOptimizationSolver \<Rightarrow> flow_graph \<Rightarrow> string \<Rightarrow> edgeInfo list" where
  "getSortedEdges perm n d g u =
     exchange_sort ei_cost (forward_edges d u (reorder perm n (out_edges g u)) @ backward_edges g u (reorder perm (Suc n) (fo_nodes d)))"

text \<open>The loop that shuffles the edges, from the last index \<open>j\<close> downwards.\<close>

fun shuffle_edges :: "(nat \<Rightarrow> nat \<Rightarrow> nat) \<Rightarrow> nat \<Rightarrow> nat \<Rightarrow> 'a list \<Rightarrow> 'a list \<times> nat" where
  "shuffle_edges intn n 0 xs = (xs, n)"
| "shuffle_edges intn n (Suc j) xs = shuffle_edges intn (Suc n) j (swap xs (Suc j) (intn n (Suc (Suc j))))"

text \<open>What the search closes over, and the variables it assigns.\<close>

record search_env =
  env_perm :: "nat \<Rightarrow> nat \<Rightarrow> nat list"
  env_intn :: "nat \<Rightarrow> nat \<Rightarrow> nat"
  env_d :: FlowOptimizationSolver
  env_g :: flow_graph
  env_t :: string
  env_thetaL :: float64
  env_used :: "string set"
  env_optimize :: bool
  env_randomize :: bool

record search_state =
  ss_visited :: "string set"
  ss_path :: "string list"
  bestPath :: "string list option"
  bestLatency :: float64
  draws :: nat

definition search_edges :: "search_env \<Rightarrow> string \<Rightarrow> nat \<Rightarrow> edgeInfo list \<times> nat" where
  "search_edges E u n =
     (let es = getSortedEdges (env_perm E) n (env_d E) (env_g E) u
      in if env_randomize E then shuffle_edges (env_intn E) (n + 2) (length es - 1) es else (es, n + 2))"

definition search_hit :: "search_env \<Rightarrow> string \<Rightarrow> float64 \<Rightarrow> search_state \<Rightarrow> bool \<times> search_state" where
  "search_hit E u currentLatency st =
     (if currentLatency \<le> env_thetaL E
      then if env_optimize E
           then (False, if currentLatency < bestLatency st \<and> strings_join arrow (ss_path st @ [u]) \<notin> env_used E
                        then st\<lparr>bestLatency := currentLatency, bestPath := Some (ss_path st @ [u])\<rparr> else st)
           else (True, st\<lparr>bestPath := Some (ss_path st @ [u]), bestLatency := currentLatency\<rparr>)
      else (False, st))"

fun path_dfs :: "search_env \<Rightarrow> nat \<Rightarrow> string \<Rightarrow> float64 \<Rightarrow> search_state \<Rightarrow> bool \<times> search_state"
and path_try :: "search_env \<Rightarrow> nat \<Rightarrow> string \<Rightarrow> float64 \<Rightarrow> edgeInfo list \<Rightarrow> bool \<Rightarrow> search_state \<Rightarrow> bool \<times> search_state" where
  "path_dfs E 0 u currentLatency st = (False, st)"
| "path_dfs E (Suc d) u currentLatency st =
     (if u = env_t E then search_hit E u currentLatency st
      else case search_edges E u (draws st) of
             (es, n) \<Rightarrow> path_try E d u currentLatency es False
                         (st\<lparr>ss_visited := insert u (ss_visited st), ss_path := ss_path st @ [u], draws := n\<rparr>))"
| "path_try E d u currentLatency [] found st =
     (found, st\<lparr>ss_path := butlast (ss_path st), ss_visited := ss_visited st - {u}\<rparr>)"
| "path_try E d u currentLatency (ei # es) found st =
     (if ei_to ei \<in> ss_visited st then path_try E d u currentLatency es found st
      else if env_optimize E \<and> currentLatency + ei_cost ei \<ge> bestLatency st then path_try E d u currentLatency es found st
      else if currentLatency + ei_cost ei > env_thetaL E then path_try E d u currentLatency es found st
      else case path_dfs E d (ei_to ei) (currentLatency + ei_cost ei) st of
             (False, st) \<Rightarrow> path_try E d u currentLatency es found st
           | (True, st) \<Rightarrow> path_try E d u currentLatency (if env_optimize E then es else []) True st)"

definition dfsPathSearch :: "search_env \<Rightarrow> string \<Rightarrow> nat \<Rightarrow> (string list \<times> float64) option \<times> nat" where
  "dfsPathSearch E s n =
     (let st = snd (path_dfs E maxHops s 0 \<lparr>ss_visited = {}, ss_path = [], bestPath = None, bestLatency = env_thetaL E + 1, draws = n\<rparr>)
      in (map_option (\<lambda>p. (p, bestLatency st)) (bestPath st), draws st))"

record PathWithInfo =
  pi_path :: "string list"
  pi_pathStr :: string
  pi_dest :: string
  pi_latency :: float64

definition findFeasiblePathWithLatency :: "(nat \<Rightarrow> nat \<Rightarrow> nat list) \<Rightarrow> (nat \<Rightarrow> nat \<Rightarrow> nat) \<Rightarrow> FlowOptimizationSolver \<Rightarrow> flow_graph \<Rightarrow> string \<Rightarrow> string
    \<Rightarrow> string set \<Rightarrow> nat \<Rightarrow> nat \<Rightarrow> PathWithInfo option \<times> nat" where
  "findFeasiblePathWithLatency perm intn d g s t used attempt n =
     (if map_of g s = None then (None, n)
      else let thetaL = (case thetaLMap d t of Some l \<Rightarrow> l | None \<Rightarrow> 100);
               E = \<lparr>env_perm = perm, env_intn = intn, env_d = d, env_g = g, env_t = t, env_thetaL = thetaL, env_used = used,
                    env_optimize = (attempt \<le> 1), env_randomize = (\<not> attempt \<le> 1)\<rparr>
           in case dfsPathSearch E s n of
                (None, n) \<Rightarrow> (None, n)
              | (Some (p, l), n) \<Rightarrow> (Some \<lparr>pi_path = p, pi_pathStr = strings_join ''|'' p, pi_dest = t, pi_latency = l\<rparr>, n))"

section \<open>The iterated greedy search\<close>

record PathAccumulator =
  acc_paths :: "(string \<times> PathWithInfo) list"
  acc_freq :: "(string \<times> nat) list"

definition NewPathAccumulator :: PathAccumulator where
  "NewPathAccumulator = \<lparr>acc_paths = [], acc_freq = []\<rparr>"

definition AddPath :: "PathWithInfo \<Rightarrow> PathAccumulator \<Rightarrow> PathAccumulator" where
  "AddPath pinfo pa = \<lparr>acc_paths = AList.update (pi_pathStr pinfo) pinfo (acc_paths pa),
     acc_freq = AList.update (pi_pathStr pinfo) (Suc (map_get 0 (map_of (acc_freq pa)) (pi_pathStr pinfo))) (acc_freq pa)\<rparr>"

definition most_frequent :: "PathAccumulator \<Rightarrow> (string \<times> nat) list \<Rightarrow> PathWithInfo option" where
  "most_frequent pa fs =
     snd (fold (\<lambda>(pathStr, freq) (maxCnt, best). if freq > maxCnt then (freq, map_of (acc_paths pa) pathStr) else (maxCnt, best))
            fs (0, None))"

definition GetMostFrequent :: "(nat \<Rightarrow> nat \<Rightarrow> nat list) \<Rightarrow> nat \<Rightarrow> PathAccumulator \<Rightarrow> PathWithInfo option" where
  "GetMostFrequent perm n pa = most_frequent pa (reorder perm n (acc_freq pa))"

definition step_line :: "string \<times> string \<Rightarrow> string" where
  "step_line s = edge_line (fst s) (snd s)"

definition congestion :: "flow_graph \<Rightarrow> string \<times> string \<Rightarrow> float64" where
  "congestion g s =
     (case edge_flow g (fst s) (snd s) of
        None \<Rightarrow> 0
      | Some ef \<Rightarrow> if effCap ef > 0 then 1 - residual ef / effCap ef else 0)"

definition objective :: "PathWithInfo list \<Rightarrow> flow_graph \<Rightarrow> float64" where
  "objective lst g =
     (if lst = [] then 0
      else let all = concat (map (\<lambda>pinfo. steps (pi_path pinfo)) lst);
               keys = map step_line all;
               diversityScore = sum_list (map (\<lambda>k. 1 / real (count_list keys k)) (remdups keys));
               latencyPenalty = sum_list (map pi_latency lst) * (1 / 10);
               congestionPenalty = sum_list (map (congestion g) all) * 1
           in real (length lst) * 10 + diversityScore * 1 - latencyPenalty - congestionPenalty)"

text \<open>\<open>copyPathList\<close> copies the list and the records; a value needs no copy.\<close>

record carousel =
  c_g :: flow_graph
  allPaths :: "PathWithInfo list"
  usedPaths :: "string set"
  destFlowCount :: "string \<Rightarrow> int"
  pathAccumulator :: PathAccumulator
  bestPaths :: "PathWithInfo list"
  bestScore :: float64
  c_draws :: nat

definition pathToString :: "string list \<Rightarrow> string" where
  "pathToString path = strings_join arrow path"

definition accept_path :: "PathWithInfo \<Rightarrow> string \<Rightarrow> carousel \<Rightarrow> carousel" where
  "accept_path pinfo end' c = c\<lparr>allPaths := allPaths c @ [pinfo], usedPaths := insert (pathToString (pi_path pinfo)) (usedPaths c),
     destFlowCount := (destFlowCount c)(end' := destFlowCount c end' + 1), c_g := allocateFlow 1 (pi_path pinfo) (c_g c)\<rparr>"

text \<open>
  The first search for one destination: \<open>i\<close> paths are found, \<open>left\<close> attempts are left of
  \<open>flowsPerDest * 10\<close>.
\<close>

fun initial_dest :: "(nat \<Rightarrow> nat \<Rightarrow> nat list) \<Rightarrow> (nat \<Rightarrow> nat \<Rightarrow> nat) \<Rightarrow> FlowOptimizationSolver \<Rightarrow> string \<Rightarrow> string \<Rightarrow> nat \<Rightarrow> nat
    \<Rightarrow> carousel \<Rightarrow> carousel" where
  "initial_dest perm intn d start end' 0 i c = c"
| "initial_dest perm intn d start end' (Suc left) i c =
     (if i < flowsPerDest d
      then case findFeasiblePathWithLatency perm intn d (c_g c) start end' (usedPaths c) (flowsPerDest d * 10 - left) (c_draws c) of
             (None, n) \<Rightarrow> c\<lparr>c_draws := n\<rparr>
           | (Some pinfo, n) \<Rightarrow>
               if pathToString (pi_path pinfo) \<in> usedPaths c
               then initial_dest perm intn d start end' left i (c\<lparr>c_draws := n\<rparr>)
               else initial_dest perm intn d start end' left (Suc i) (accept_path pinfo end' (c\<lparr>c_draws := n\<rparr>))
      else c)"

definition initial_paths :: "(nat \<Rightarrow> nat \<Rightarrow> nat list) \<Rightarrow> (nat \<Rightarrow> nat \<Rightarrow> nat) \<Rightarrow> FlowOptimizationSolver \<Rightarrow> string \<Rightarrow> string list
    \<Rightarrow> carousel \<Rightarrow> carousel" where
  "initial_paths perm intn d start ends =
     fold (\<lambda>end' c. initial_dest perm intn d start end' (flowsPerDest d * 10) 0 c) ends"

text \<open>The oldest path leaves the solution and its flow is released.\<close>

definition remove_oldest :: "carousel \<Rightarrow> carousel" where
  "remove_oldest c =
     (case allPaths c of
        [] \<Rightarrow> c
      | pinfo # pis \<Rightarrow> c\<lparr>allPaths := pis, c_g := releaseFlow 1 (pi_path pinfo) (c_g c),
          destFlowCount := (destFlowCount c)(pi_dest pinfo := destFlowCount c (pi_dest pinfo) - 1),
          usedPaths := usedPaths c - {pathToString (pi_path pinfo)}\<rparr>)"

text \<open>The bans of an iteration: the edges of the most frequent path and the first of the removed one.\<close>

definition ban_edges :: "(nat \<Rightarrow> nat \<Rightarrow> nat list) \<Rightarrow> PathWithInfo \<Rightarrow> carousel \<Rightarrow> carousel" where
  "ban_edges perm oldest c =
     (let g = (case GetMostFrequent perm (c_draws c) (pathAccumulator c) of None \<Rightarrow> c_g c | Some pinfo \<Rightarrow> banPathEdges (pi_path pinfo) (c_g c));
          g = (case pi_path oldest of u # v # _ \<Rightarrow> banEdge u v g | _ \<Rightarrow> g)
      in c\<lparr>c_g := g, c_draws := Suc (c_draws c)\<rparr>)"

fun new_path :: "(nat \<Rightarrow> nat \<Rightarrow> nat list) \<Rightarrow> (nat \<Rightarrow> nat \<Rightarrow> nat) \<Rightarrow> FlowOptimizationSolver \<Rightarrow> string \<Rightarrow> nat \<Rightarrow> string list \<Rightarrow> carousel
    \<Rightarrow> carousel" where
  "new_path perm intn d start attempt [] c = c"
| "new_path perm intn d start attempt (end' # ends) c =
     (if destFlowCount c end' \<ge> int (flowsPerDest d) then new_path perm intn d start attempt ends c
      else case findFeasiblePathWithLatency perm intn d (c_g c) start end' (usedPaths c) attempt (c_draws c) of
             (None, n) \<Rightarrow> new_path perm intn d start attempt ends (c\<lparr>c_draws := n\<rparr>)
           | (Some pinfo, n) \<Rightarrow>
               if pathToString (pi_path pinfo) \<in> usedPaths c then new_path perm intn d start attempt ends (c\<lparr>c_draws := n\<rparr>)
               else (accept_path pinfo end' (c\<lparr>c_draws := n\<rparr>))\<lparr>pathAccumulator := AddPath pinfo (pathAccumulator c)\<rparr>)"

definition keep_best :: "carousel \<Rightarrow> carousel" where
  "keep_best c =
     (if allPaths c \<noteq> [] \<and> objective (allPaths c) (c_g c) > bestScore c
      then c\<lparr>bestPaths := allPaths c, bestScore := objective (allPaths c) (c_g c)\<rparr> else c)"

definition iteration :: "(nat \<Rightarrow> nat \<Rightarrow> nat list) \<Rightarrow> (nat \<Rightarrow> nat \<Rightarrow> nat) \<Rightarrow> FlowOptimizationSolver \<Rightarrow> string \<Rightarrow> string list \<Rightarrow> nat \<Rightarrow> carousel
    \<Rightarrow> carousel" where
  "iteration perm intn d start ends i c =
     (let oldest = hd (allPaths c);
          c = ban_edges perm oldest (remove_oldest c);
          shuffledEnds = reorder perm (c_draws c) ends;
          c = new_path perm intn d start (Suc i) shuffledEnds (c\<lparr>c_draws := Suc (c_draws c)\<rparr>)
      in keep_best (c\<lparr>c_g := unbanAllEdges (c_g c)\<rparr>))"

fun iterations :: "(nat \<Rightarrow> nat \<Rightarrow> nat list) \<Rightarrow> (nat \<Rightarrow> nat \<Rightarrow> nat) \<Rightarrow> FlowOptimizationSolver \<Rightarrow> string \<Rightarrow> string list \<Rightarrow> nat list \<Rightarrow> carousel
    \<Rightarrow> carousel" where
  "iterations perm intn d start ends [] c = c"
| "iterations perm intn d start ends (i # is) c =
     (if allPaths c = [] then c else iterations perm intn d start ends is (iteration perm intn d start ends i c))"

definition optimise :: "(nat \<Rightarrow> nat \<Rightarrow> nat list) \<Rightarrow> (nat \<Rightarrow> nat \<Rightarrow> nat) \<Rightarrow> FlowOptimizationSolver \<Rightarrow> string \<Rightarrow> string list \<Rightarrow> carousel
    \<Rightarrow> carousel" where
  "optimise perm intn d start ends c =
     (let c = c\<lparr>pathAccumulator := fold AddPath (allPaths c) NewPathAccumulator, bestPaths := allPaths c,
                bestScore := objective (allPaths c) (c_g c)\<rparr>;
          initialSize = length (allPaths c);
          removeNum = nat \<lfloor>fo_beta d * real initialSize\<rfloor>;
          maxIter = nat \<lfloor>fo_alpha d * real initialSize\<rfloor>
      in iterations perm intn d start ends [0..<maxIter] ((remove_oldest ^^ removeNum) c))"

definition no_destinations :: string where "no_destinations = ''no destinations provided''"

definition start_not_in_graph :: "string \<Rightarrow> string" where
  "start_not_in_graph start = ''start node '' @ start @ '' not found in graph''"

definition no_valid_destinations :: "string \<Rightarrow> string" where
  "no_valid_destinations start = ''no valid destinations found in graph from '' @ start"

definition no_feasible_path :: "string \<Rightarrow> string" where
  "no_feasible_path start = ''no feasible path found from '' @ start @ '' to any destination''"

text \<open>The parameters that depend on the destinations.\<close>

definition set_parameters :: "FlowOptimizationSolver \<Rightarrow> string list \<Rightarrow> FlowOptimizationSolver" where
  "set_parameters d validEnds =
     (let d = d\<lparr>fo_capacity := real (length validEnds * flowsPerDest d)\<rparr> in d\<lparr>Uhot := computePercentile d 90\<rparr>)"

definition new_carousel :: "FlowOptimizationSolver \<Rightarrow> carousel" where
  "new_carousel d = \<lparr>c_g = buildResidualGraphWithCapacity d, allPaths = [], usedPaths = {}, destFlowCount = (\<lambda>_. 0),
     pathAccumulator = NewPathAccumulator, bestPaths = [], bestScore = 0, c_draws = 0\<rparr>"

definition Carousel_ComputingMulti :: "(nat \<Rightarrow> nat \<Rightarrow> nat list) \<Rightarrow> (nat \<Rightarrow> nat \<Rightarrow> nat) \<Rightarrow> FlowOptimizationSolver \<Rightarrow> string \<Rightarrow> string list
    \<Rightarrow> PathInfo list result option" where
  "Carousel_ComputingMulti perm intn d start ends =
     (let validEnds = filter (\<lambda>end'. end' \<in> set (graph_nodes (fo_edges d))) ends
      in if ends = [] then Some (Inl no_destinations)
         else if start \<notin> set (graph_nodes (fo_edges d)) then Some (Inl (start_not_in_graph start))
         else if validEnds = [] then Some (Inl (no_valid_destinations start))
         else case computeThetaLForDestinations start validEnds (set_parameters d validEnds) of
                None \<Rightarrow> None
              | Some d \<Rightarrow>
                  (let c = initial_paths perm intn d start validEnds (new_carousel d)
                   in if allPaths c = [] then Some (Inl (no_feasible_path start))
                      else Some (Inr (map (\<lambda>pinfo. \<lparr>Hops = pi_path pinfo, Rtt = pi_latency pinfo, RawRTT = pi_latency pinfo\<rparr>)
                             (bestPaths (optimise perm intn d start validEnds c))))))"

section \<open>Arcs of the residual network\<close>

definition rows_ok :: "flow_graph \<Rightarrow> bool" where
  "rows_ok g \<longleftrightarrow> (\<forall>u. distinct (map fst (out_edges g u)))"

definition penalty :: "EdgeFlow \<Rightarrow> float64" where
  "penalty ef = (if banned ef then bannedPenalty else 0)"

definition forward_arc :: "FlowOptimizationSolver \<Rightarrow> flow_graph \<Rightarrow> string \<Rightarrow> string \<Rightarrow> float64 \<Rightarrow> bool" where
  "forward_arc d g u v c \<longleftrightarrow> (\<exists>ef. edge_flow g u v = Some ef \<and> 0 < residual ef \<and> c = getEdgeLatency d u v + penalty ef)"

definition backward_arc :: "FlowOptimizationSolver \<Rightarrow> flow_graph \<Rightarrow> string \<Rightarrow> string \<Rightarrow> float64 \<Rightarrow> bool" where
  "backward_arc d g u v c \<longleftrightarrow> v \<in> set (fo_nodes d) \<and> v \<noteq> u \<and> (\<exists>ef. edge_flow g v u = Some ef \<and> 0 < ef_flow ef \<and> c = penalty ef)"

definition res_arc :: "search_env \<Rightarrow> string \<Rightarrow> string \<Rightarrow> float64 \<Rightarrow> bool" where
  "res_arc E u v c \<longleftrightarrow> forward_arc (env_d E) (env_g E) u v c \<or> backward_arc (env_d E) (env_g E) u v c"

definition intn_ok :: "(nat \<Rightarrow> nat \<Rightarrow> nat) \<Rightarrow> bool" where
  "intn_ok intn \<longleftrightarrow> (\<forall>i n. 0 < n \<longrightarrow> intn i n < n)"

definition env_ok :: "search_env \<Rightarrow> bool" where
  "env_ok E \<longleftrightarrow> permutes (env_perm E) \<and> intn_ok (env_intn E) \<and> rows_ok (env_g E)"

lemma set_reorder: "permutes perm \<Longrightarrow> set (reorder perm n xs) = set xs"
  unfolding reorder_def by (rule shuffled_set)

lemma forward_edges_arcs:
  assumes "distinct (map fst (out_edges g u))" "set es = set (out_edges g u)"
  shows "(\<exists>ei \<in> set (forward_edges d u es). ei_to ei = v \<and> ei_cost ei = c) \<longleftrightarrow> forward_arc d g u v c"
proof -
  have e: "(v, ef) \<in> set (out_edges g u) \<longleftrightarrow> edge_flow g u v = Some ef" for ef
    using assms(1) by (simp add: edge_flow_def map_of_eq_Some_iff)
  have "(\<exists>ei \<in> set (forward_edges d u es). ei_to ei = v \<and> ei_cost ei = c) \<longleftrightarrow>
      (\<exists>ef. (v, ef) \<in> set (out_edges g u) \<and> 0 < residual ef \<and> getEdgeLatency d u v + penalty ef = c)"
    unfolding forward_edges_def penalty_def assms(2) [symmetric] by force
  then show ?thesis unfolding e forward_arc_def by auto
qed

definition backward_info :: "flow_graph \<Rightarrow> string \<Rightarrow> string \<Rightarrow> edgeInfo set" where
  "backward_info g u v = (case edge_flow g v u of None \<Rightarrow> {}
     | Some ef \<Rightarrow> if v \<noteq> u \<and> 0 < ef_flow ef then {\<lparr>ei_to = v, ei_cost = penalty ef, isRev = True\<rparr>} else {})"

lemma set_backward_edges: "set (backward_edges g u ns) = (\<Union>v \<in> set ns. backward_info g u v)"
proof -
  have "set (if v \<noteq> u
             then case edge_flow g v u of
                    Some ef \<Rightarrow> if getReverseResidual ef > 0
                               then [\<lparr>ei_to = v, ei_cost = (if banned ef then bannedPenalty else 0), isRev = True\<rparr>] else []
                  | None \<Rightarrow> []
             else []) = backward_info g u v" for v
    unfolding backward_info_def penalty_def getReverseResidual_def
    by (cases "edge_flow g v u"; cases "v = u") (simp_all only: option.case list.set if_True if_False simp_thms if_distrib [of set])
  then show ?thesis unfolding backward_edges_def set_concat set_map image_image by (simp only:)
qed

lemma backward_info_iff:
  "ei \<in> backward_info g u v \<longleftrightarrow> v \<noteq> u \<and> (\<exists>ef. edge_flow g v u = Some ef \<and> 0 < ef_flow ef \<and> ei = \<lparr>ei_to = v, ei_cost = penalty ef, isRev = True\<rparr>)"
  by (cases "edge_flow g v u") (auto simp: backward_info_def)

lemma backward_edges_arcs:
  assumes "set ns = set (fo_nodes d)"
  shows "(\<exists>ei \<in> set (backward_edges g u ns). ei_to ei = v \<and> ei_cost ei = c) \<longleftrightarrow> backward_arc d g u v c"
proof -
  have "(\<exists>ei \<in> set (backward_edges g u ns). ei_to ei = v \<and> ei_cost ei = c) \<longleftrightarrow>
      v \<in> set ns \<and> (\<exists>ei \<in> backward_info g u v. ei_cost ei = c)"
    unfolding set_backward_edges by (auto simp: backward_info_iff intro!: bexI [of _ v])
  then show ?thesis unfolding backward_arc_def assms backward_info_iff Bex_def by auto
qed

lemma set_shuffle_edges:
  assumes "intn_ok intn"
  shows "j \<le> length xs - 1 \<Longrightarrow> shuffle_edges intn n j xs = (ys, n') \<Longrightarrow> set ys = set xs"
proof (induction j arbitrary: n xs)
  case (Suc j)
  let ?k = "intn n (Suc (Suc j))"
  have "?k < Suc (Suc j)" using assms by (simp add: intn_ok_def)
  then have "set (swap xs (Suc j) ?k) = set xs" using Suc.prems(1) by (intro set_swap) auto
  then show ?case using Suc.IH [of "swap xs (Suc j) ?k" "Suc n"] Suc.prems by simp
qed simp

lemma search_edges_arcs:
  assumes "env_ok E" "search_edges E u n = (es, n')"
  shows "(\<exists>ei \<in> set es. ei_to ei = v \<and> ei_cost ei = c) \<longleftrightarrow> res_arc E u v c"
proof -
  let ?es = "getSortedEdges (env_perm E) n (env_d E) (env_g E) u"
  have p: "permutes (env_perm E)" "intn_ok (env_intn E)" "distinct (map fst (out_edges (env_g E) u))"
    using assms(1) by (simp_all add: env_ok_def rows_ok_def)
  have "set es = set ?es"
    using assms(2) set_shuffle_edges [OF p(2), of "length ?es - 1" ?es "n + 2" es n']
    by (simp add: search_edges_def Let_def split: if_splits)
  then show ?thesis
    using forward_edges_arcs [OF p(3) set_reorder [OF p(1)]] backward_edges_arcs [OF set_reorder [OF p(1)]]
    unfolding getSortedEdges_def res_arc_def by (simp add: bex_Un)
qed

section \<open>What a search finds\<close>

text \<open>
  The paths \<open>p\<close> of latency \<open>l\<close> that a search at \<open>u\<close> can complete, with the nodes \<open>hs\<close> on the
  path so far, the latency \<open>cur\<close> spent and room for \<open>k\<close> more nodes.
\<close>

fun feas :: "search_env \<Rightarrow> string list \<Rightarrow> nat \<Rightarrow> string \<Rightarrow> float64 \<Rightarrow> string list \<Rightarrow> float64 \<Rightarrow> bool" where
  "feas E hs 0 u cur p l = False"
| "feas E hs (Suc k) u cur p l =
     (if u = env_t E then cur \<le> env_thetaL E \<and> p = hs @ [u] \<and> l = cur
      else \<exists>v c. res_arc E u v c \<and> v \<notin> set (hs @ [u]) \<and> cur + c \<le> env_thetaL E \<and> feas E (hs @ [u]) k v (cur + c) p l)"

definition fresh_path :: "search_env \<Rightarrow> string list \<Rightarrow> bool" where
  "fresh_path E p \<longleftrightarrow> strings_join arrow p \<notin> env_used E"

definition same_best :: "search_state \<Rightarrow> search_state \<Rightarrow> bool" where
  "same_best st st' \<longleftrightarrow> bestPath st' = bestPath st \<and> bestLatency st' = bestLatency st"

text \<open>
  A search among the paths \<open>F\<close>. When it optimises, it never returns true, and the best path is
  the one from before or a new one of \<open>F\<close>, and no new path of \<open>F\<close> is better. Otherwise it takes
  some path of \<open>F\<close>, and returns false only when there is none.
\<close>

definition outcome :: "search_env \<Rightarrow> (string list \<Rightarrow> float64 \<Rightarrow> bool) \<Rightarrow> bool \<Rightarrow> search_state \<Rightarrow> search_state \<Rightarrow> bool" where
  "outcome E F b st st' \<longleftrightarrow>
     (if env_optimize E
      then \<not> b \<and> bestLatency st' \<le> bestLatency st \<and> (\<forall>p l. F p l \<and> fresh_path E p \<longrightarrow> bestLatency st' \<le> l)
           \<and> (same_best st st' \<or> (\<exists>p. bestPath st' = Some p \<and> F p (bestLatency st') \<and> fresh_path E p))
      else if b then \<exists>p. bestPath st' = Some p \<and> F p (bestLatency st')
      else same_best st st' \<and> (\<nexists>p l. F p l))"

definition either :: "(string list \<Rightarrow> float64 \<Rightarrow> bool) \<Rightarrow> (string list \<Rightarrow> float64 \<Rightarrow> bool) \<Rightarrow> string list \<Rightarrow> float64 \<Rightarrow> bool" where
  "either F F' p l \<longleftrightarrow> F p l \<or> F' p l"

lemma outcome_none: "outcome E (\<lambda>p l. False) False st st"
  by (simp add: outcome_def same_best_def)

lemma outcome_cong: "outcome E F b st st' \<Longrightarrow> same_best s0 st \<Longrightarrow> same_best st' s1 \<Longrightarrow> outcome E F b s0 s1"
  by (auto simp: outcome_def same_best_def split: if_splits)

lemma outcome_skip:
  assumes "outcome E F' b st st'" "\<And>p l. F p l \<Longrightarrow> env_optimize E \<and> bestLatency st \<le> l"
  shows "outcome E (either F F') b st st'"
proof (cases "env_optimize E")
  case True
  then have "bestLatency st' \<le> l" if "F p l" for p l
    using assms(1) assms(2) [OF that] by (auto simp: outcome_def)
  then show ?thesis using assms(1) True by (auto simp: outcome_def either_def)
next
  case False
  then have "\<not> F p l" for p l using assms(2) by blast
  then show ?thesis using assms(1) False by (cases b) (auto simp: outcome_def either_def)
qed

lemma outcome_step:
  assumes "outcome E F False st st1" "outcome E F' b st1 st2"
  shows "outcome E (either F F') b st st2"
proof (cases "env_optimize E")
  case True
  note F = assms(1) [unfolded outcome_def if_P [OF True]] and F' = assms(2) [unfolded outcome_def if_P [OF True]]
  have "bestLatency st2 \<le> bestLatency st" using F F' by linarith
  moreover have "bestLatency st2 \<le> l" if "either F F' p l" "fresh_path E p" for p l
    using that F F' order_trans unfolding either_def by blast
  moreover have "same_best st st2 \<or> (\<exists>p. bestPath st2 = Some p \<and> either F F' p (bestLatency st2) \<and> fresh_path E p)"
    using F F' unfolding either_def same_best_def by metis
  ultimately show ?thesis using F' unfolding outcome_def if_P [OF True] by blast
next
  case False
  then show ?thesis using assms by (cases b) (auto simp: outcome_def either_def same_best_def)
qed

lemma outcome_found: "\<not> env_optimize E \<Longrightarrow> outcome E F True st st1 \<Longrightarrow> outcome E (either F F') True st st1"
  by (auto simp: outcome_def either_def)

lemma outcome_hit:
  assumes "search_hit E u cur st = (b, st')"
  shows "outcome E (\<lambda>p l. cur \<le> env_thetaL E \<and> p = ss_path st @ [u] \<and> l = cur) b st st'"
    and "ss_path st' = ss_path st" "ss_visited st' = ss_visited st"
  using assms by (auto simp: search_hit_def outcome_def same_best_def fresh_path_def split: if_splits)

definition sane :: "search_env \<Rightarrow> bool" where
  "sane E \<longleftrightarrow> env_ok E \<and> (\<forall>u v c. res_arc E u v c \<longrightarrow> 0 \<le> c)"

lemma feas_lower: "sane E \<Longrightarrow> feas E hs k u cur p l \<Longrightarrow> cur \<le> l"
proof (induction E hs k u cur p l rule: feas.induct)
  case (2 E hs k u cur p l)
  show ?case
  proof (cases "u = env_t E")
    case False
    then obtain v c where "res_arc E u v c" "v \<notin> set (hs @ [u])" "cur + c \<le> env_thetaL E" "feas E (hs @ [u]) k v (cur + c) p l"
      using 2(3) by auto
    then have "cur + c \<le> l" "0 \<le> c" using 2(1) [OF False 2(2)] 2(2) by (auto simp: sane_def)
    then show ?thesis by linarith
  qed (use 2(3) in simp)
qed simp

definition try_one :: "search_env \<Rightarrow> string list \<Rightarrow> nat \<Rightarrow> string \<Rightarrow> float64 \<Rightarrow> edgeInfo \<Rightarrow> string list \<Rightarrow> float64 \<Rightarrow> bool" where
  "try_one E hs k u cur ei p l \<longleftrightarrow> ei_to ei \<notin> set (hs @ [u]) \<and> cur + ei_cost ei \<le> env_thetaL E
     \<and> feas E (hs @ [u]) k (ei_to ei) (cur + ei_cost ei) p l"

definition try_all :: "search_env \<Rightarrow> string list \<Rightarrow> nat \<Rightarrow> string \<Rightarrow> float64 \<Rightarrow> edgeInfo list \<Rightarrow> string list \<Rightarrow> float64 \<Rightarrow> bool" where
  "try_all E hs k u cur es p l \<longleftrightarrow> (\<exists>ei \<in> set es. try_one E hs k u cur ei p l)"

lemma try_all_simps:
  "try_all E hs k u cur [] = (\<lambda>p l. False)"
  "try_all E hs k u cur (ei # es) = either (try_one E hs k u cur ei) (try_all E hs k u cur es)"
  by (auto simp: try_all_def either_def fun_eq_iff)

lemma feas_try_all:
  assumes "sane E" "u \<noteq> env_t E" "search_edges E u n = (es, n')"
  shows "feas E hs (Suc k) u cur = try_all E hs k u cur es"
proof (intro ext)
  fix p l
  have "env_ok E" using assms(1) by (simp add: sane_def)
  note arcs = search_edges_arcs [OF this assms(3), symmetric]
  show "feas E hs (Suc k) u cur p l = try_all E hs k u cur es p l"
    using assms(2) unfolding try_all_def try_one_def by (auto simp: arcs)
qed

lemma path_dfs_correct:
  "path_dfs E k u cur st = (b, st') \<Longrightarrow> sane E \<Longrightarrow> ss_visited st = set (ss_path st) \<Longrightarrow> u \<notin> set (ss_path st)
    \<Longrightarrow> outcome E (feas E (ss_path st) k u cur) b st st' \<and> ss_path st' = ss_path st \<and> ss_visited st' = ss_visited st"
  "path_try E k u cur es found st = (b, st') \<Longrightarrow> sane E \<Longrightarrow> \<not> found \<Longrightarrow> ss_path st = hs @ [u] \<Longrightarrow> ss_visited st = set (hs @ [u]) \<Longrightarrow> u \<notin> set hs
    \<Longrightarrow> outcome E (try_all E hs k u cur es) b st st' \<and> ss_path st' = hs \<and> ss_visited st' = set hs"
proof (induction E k u cur st and E k u cur es found st arbitrary: b st' and hs b st' rule: path_dfs_path_try.induct)
  case (1 E u cur st)
  then show ?case using outcome_none by (simp add: fun_eq_iff [symmetric])
next
  case (2 E k u cur st)
  show ?case
  proof (cases "u = env_t E")
    case True
    then show ?thesis using outcome_hit [of E u cur st b st'] 2(2) by (simp add: fun_eq_iff [symmetric])
  next
    case False
    obtain es n where e: "search_edges E u (draws st) = (es, n)" by fastforce
    let ?st = "st\<lparr>ss_visited := insert u (ss_visited st), ss_path := ss_path st @ [u], draws := n\<rparr>"
    have t: "path_try E k u cur es False ?st = (b, st')" using 2(2) False e by simp
    have "outcome E (try_all E (ss_path st) k u cur es) b ?st st' \<and> ss_path st' = ss_path st \<and> ss_visited st' = set (ss_path st)"
      using 2(1) [OF False e [symmetric] t 2(3), of "ss_path st"] 2(4,5) by simp
    moreover have "same_best st ?st" "same_best st' st'" by (simp_all add: same_best_def)
    ultimately show ?thesis using outcome_cong feas_try_all [OF 2(3) False e] 2(4) by metis
  qed
next
  case (3 E k u cur found st)
  have "outcome E (\<lambda>p l. False) False st st'"
    using outcome_cong [OF outcome_none [of E st], of st st'] 3(1) by (auto simp: same_best_def)
  then show ?case using 3 by (auto simp: try_all_simps)
next
  case (4 E k u cur ei es found st)
  let ?c = "cur + ei_cost ei"
  note inv = 4(8-12)
  have skip: ?case if t: "outcome E (try_all E hs k u cur es) b st st' \<and> ss_path st' = hs \<and> ss_visited st' = set hs"
      and none: "\<And>p l. try_one E hs k u cur ei p l \<Longrightarrow> env_optimize E \<and> bestLatency st \<le> l"
    using outcome_skip [OF conjunct1 [OF t] none] conjunct2 [OF t] unfolding try_all_simps by (rule conjI)
  show ?case
  proof (cases "ei_to ei \<in> ss_visited st")
    case True
    then have run: "path_try E k u cur es found st = (b, st')" using 4(7) by simp
    have "\<not> try_one E hs k u cur ei p l" for p l using True inv(4) by (simp add: try_one_def)
    then show ?thesis using skip 4(1) [OF True run inv] by blast
  next
    case new: False
    show ?thesis
    proof (cases "env_optimize E \<and> bestLatency st \<le> ?c \<or> env_thetaL E < ?c")
      case True
      then have run: "path_try E k u cur es found st = (b, st')" using 4(7) new by (auto split: if_splits)
      have "bestLatency st \<le> l \<and> env_optimize E" if "try_one E hs k u cur ei p l" for p l
        using that True feas_lower [OF inv(1), of "hs @ [u]" k "ei_to ei" ?c p l] by (auto simp: try_one_def)
      moreover have "outcome E (try_all E hs k u cur es) b st st' \<and> ss_path st' = hs \<and> ss_visited st' = set hs"
        using 4(2) [OF new _ run inv] 4(3) [OF new _ _ run inv] True by blast
      ultimately show ?thesis using skip by blast
    next
      case go: False
      obtain b1 st1 where r: "path_dfs E k (ei_to ei) ?c st = (b1, st1)" by fastforce
      have one: "try_one E hs k u cur ei = feas E (hs @ [u]) k (ei_to ei) ?c"
        using new go inv(4) by (auto simp: try_one_def fun_eq_iff)
      have d: "outcome E (try_one E hs k u cur ei) b1 st st1 \<and> ss_path st1 = hs @ [u] \<and> ss_visited st1 = set (hs @ [u])"
        using 4(4) [OF new _ _ r inv(1)] go new inv(3,4) unfolding one by simp
      show ?thesis
      proof (cases b1)
        case True
        then have opt: "\<not> env_optimize E" using d by (auto simp: outcome_def)
        then have "b = True" "same_best st1 st'" "ss_path st' = hs" "ss_visited st' = set hs"
          using 4(7) new go r True d inv(5) by (auto simp: same_best_def)
        then show ?thesis using outcome_cong [OF outcome_found [OF opt], of _ st st1 st st' "try_all E hs k u cur es"] d True
          unfolding try_all_simps by (simp add: same_best_def)
      next
        case False
        then have run: "path_try E k u cur es found st1 = (b, st')" using 4(7) new go r by (auto split: if_splits)
        have "outcome E (try_all E hs k u cur es) b st1 st' \<and> ss_path st' = hs \<and> ss_visited st' = set hs"
          using 4(6) [OF new _ _ r [symmetric] _ run inv(1,2)] d go inv(5) False by blast
        moreover have "outcome E (try_one E hs k u cur ei) False st st1" using d False by simp
        ultimately show ?thesis unfolding try_all_simps using outcome_step by blast
      qed
    qed
  qed
qed

text \<open>A walk on the residual network with the sum of the costs of its arcs.\<close>

fun res_walk :: "search_env \<Rightarrow> string list \<Rightarrow> float64 \<Rightarrow> bool" where
  "res_walk E [] l = False"
| "res_walk E [u] l = (l = 0)"
| "res_walk E (u # v # p) l = (\<exists>c. res_arc E u v c \<and> res_walk E (v # p) (l - c))"

definition admissible :: "search_env \<Rightarrow> string \<Rightarrow> string list \<Rightarrow> float64 \<Rightarrow> bool" where
  "admissible E s p l \<longleftrightarrow> res_walk E p l \<and> hd p = s \<and> last p = env_t E \<and> distinct p \<and> length p \<le> maxHops \<and> l \<le> env_thetaL E
     \<and> (env_optimize E \<longrightarrow> fresh_path E p)"

lemma res_walk_nonneg: "sane E \<Longrightarrow> res_walk E p l \<Longrightarrow> 0 \<le> l"
proof (induction E p l rule: res_walk.induct)
  case (3 E u v p l)
  then obtain c where "res_arc E u v c" "res_walk E (v # p) (l - c)" by auto
  then have "0 \<le> c" "0 \<le> l - c" using 3 by (auto simp: sane_def)
  then show ?case by simp
qed auto

lemma feas_walk:
  "feas E hs k u cur p l \<Longrightarrow> u \<notin> set hs \<Longrightarrow>
    \<exists>q. p = hs @ u # q \<and> res_walk E (u # q) (l - cur) \<and> last (u # q) = env_t E \<and> distinct (u # q) \<and> set hs \<inter> set q = {}
      \<and> length q < k \<and> l \<le> env_thetaL E"
proof (induction E hs k u cur p l rule: feas.induct)
  case (2 E hs k u cur p l)
  show ?case
  proof (cases "u = env_t E")
    case True
    then show ?thesis using 2 by auto
  next
    case False
    then obtain v c where v: "res_arc E u v c" "v \<notin> set (hs @ [u])" "feas E (hs @ [u]) k v (cur + c) p l" using 2(2) by auto
    then obtain q where "p = (hs @ [u]) @ v # q" "res_walk E (v # q) (l - (cur + c))" "last (v # q) = env_t E" "distinct (v # q)"
        "set (hs @ [u]) \<inter> set q = {}" "length q < k" "l \<le> env_thetaL E"
      using 2(1) [OF False v(3,2)] by blast
    then show ?thesis using v 2(3) by (intro exI [of _ "v # q"]) (auto simp: algebra_simps)
  qed
qed simp

lemma walk_feas:
  assumes "sane E"
  shows "res_walk E (u # q) (l - cur) \<Longrightarrow> last (u # q) = env_t E \<Longrightarrow> distinct (u # q) \<Longrightarrow> set hs \<inter> set (u # q) = {}
    \<Longrightarrow> length q < k \<Longrightarrow> l \<le> env_thetaL E \<Longrightarrow> feas E hs k u cur (hs @ u # q) l"
proof (induction q arbitrary: hs k u cur)
  case Nil
  then show ?case by (cases k) auto
next
  case (Cons v q)
  obtain k' where k: "k = Suc k'" "length q < k'" using Cons.prems(5) by (cases k) auto
  obtain c where c: "res_arc E u v c" "res_walk E (v # q) (l - (cur + c))" using Cons.prems(1) by (auto simp: algebra_simps)
  have "u \<noteq> env_t E" using Cons.prems(2,3) last_in_set [of "v # q"] by auto
  moreover have "cur + c \<le> env_thetaL E" using res_walk_nonneg [OF assms c(2)] Cons.prems(6) by simp
  moreover have "feas E (hs @ [u]) k' v (cur + c) ((hs @ [u]) @ v # q) l"
    using Cons.IH [OF c(2), of "hs @ [u]" k'] Cons.prems k(2) by auto
  ultimately show ?case using c(1) Cons.prems(3,4) unfolding k(1) by auto
qed

lemma feas_admissible:
  assumes "sane E"
  shows "feas E [] maxHops s 0 p l \<and> (env_optimize E \<longrightarrow> fresh_path E p) \<longleftrightarrow> admissible E s p l"
proof -
  have "feas E [] maxHops s 0 p l \<longleftrightarrow>
      res_walk E p l \<and> hd p = s \<and> last p = env_t E \<and> distinct p \<and> length p \<le> maxHops \<and> l \<le> env_thetaL E"
    using feas_walk [of E "[]" maxHops s 0 p l] walk_feas [OF assms, of s "tl p" l 0 "[]" maxHops]
    by (cases p) (auto simp: Suc_le_eq)
  then show ?thesis by (auto simp: admissible_def)
qed

lemma dfsPathSearch_admissible:
  assumes "sane E"
  shows "case fst (dfsPathSearch E s n) of
      None \<Rightarrow> \<nexists>p l. admissible E s p l
    | Some (p, l) \<Rightarrow> admissible E s p l \<and> (env_optimize E \<longrightarrow> (\<forall>p' l'. admissible E s p' l' \<longrightarrow> l \<le> l'))"
proof -
  let ?st = "\<lparr>ss_visited = {}, ss_path = [], bestPath = None, bestLatency = env_thetaL E + 1, draws = n\<rparr>"
  obtain b st where r: "path_dfs E maxHops s 0 ?st = (b, st)" by fastforce
  have out: "outcome E (feas E [] maxHops s 0) b ?st st"
    using path_dfs_correct(1) [OF r assms] by simp
  have res: "fst (dfsPathSearch E s n) = map_option (\<lambda>p. (p, bestLatency st)) (bestPath st)"
    using r by (simp add: dfsPathSearch_def)
  note adm = feas_admissible [OF assms, of s, symmetric]
  have le: "l \<le> env_thetaL E" if "admissible E s p l" for p l using that by (simp add: admissible_def)
  show ?thesis
  proof (cases "env_optimize E")
    case True
    then have min: "bestLatency st \<le> l" if "admissible E s p l" for p l
      using out that unfolding adm outcome_def by auto
    have "bestPath st = None \<and> bestLatency st = env_thetaL E + 1
        \<or> (\<exists>p. bestPath st = Some p \<and> admissible E s p (bestLatency st))"
      using out True unfolding adm outcome_def same_best_def by auto
    then show ?thesis using min le unfolding res by fastforce
  next
    case False
    then show ?thesis using out unfolding res outcome_def same_best_def adm by (cases b) auto
  qed
qed

end
