(* ===== verification/Carousel_Opt.thy ===== *)
theory Carousel_Opt
  imports Carousel
begin

text \<open>
  Correctness of the iterated greedy search of carousel-greed.go (the definitions are in
  \<open>Carousel\<close>): the flow that the residual network holds is the flow of the paths of the
  current solution, through all allocations, releases, bans and iterations, and every solution
  that is kept has only paths to the requested destinations within the limits.
\<close>

section \<open>Flows of the network\<close>

lemma edge_flow_upd_edge [simp]:
  "edge_flow (upd_edge f u v g) a b = (if a = u \<and> b = v then map_option f (edge_flow g u v) else edge_flow g a b)"
  by (cases "map_of g u") (auto simp: edge_flow_def upd_edge_def out_edges_def map_get_def AList.map_of_map_entry
      split: option.splits)

lemma rows_ok_upd_edge: "rows_ok g \<Longrightarrow> rows_ok (upd_edge f u v g)"
  unfolding rows_ok_def out_edges_def map_get_def upd_edge_def
  by (auto simp: AList.map_of_map_entry AList.distinct_map_entry split: option.splits)

text \<open>The network over the links \<open>L\<close> with the flow \<open>N\<close> on every link.\<close>

definition holds_flow :: "(string \<times> string) set \<Rightarrow> string \<times> string \<Rightarrow> nat \<Rightarrow> EdgeFlow option \<Rightarrow> bool" where
  "holds_flow L s n o1 = (case o1 of None \<Rightarrow> s \<notin> L
     | Some ef \<Rightarrow> s \<in> L \<and> ef_flow ef = real n \<and> residual ef = effCap ef - ef_flow ef)"

definition carries :: "(string \<times> string) set \<Rightarrow> (string \<times> string \<Rightarrow> nat) \<Rightarrow> flow_graph \<Rightarrow> bool" where
  "carries L N g \<longleftrightarrow> rows_ok g \<and> (\<forall>u v. holds_flow L (u, v) (N (u, v)) (edge_flow g u v))"

lemma holds_flow_map:
  assumes "holds_flow L s m o1" "\<And>ef. ef_flow ef = real m \<Longrightarrow> residual ef = effCap ef - ef_flow ef
      \<Longrightarrow> ef_flow (f ef) = real n \<and> residual (f ef) = effCap (f ef) - ef_flow (f ef)"
  shows "holds_flow L s n (map_option f o1)"
  using assms by (cases o1) (auto simp: holds_flow_def)

lemma carries_upd:
  assumes "carries L N g" "\<And>ef. ef_flow ef = real (N s) \<Longrightarrow> residual ef = effCap ef - ef_flow ef
      \<Longrightarrow> ef_flow (f ef) = real n \<and> residual (f ef) = effCap (f ef) - ef_flow (f ef)"
  shows "carries L (N(s := n)) (upd_edge f (fst s) (snd s) g)"
proof -
  have "holds_flow L s (N s) (edge_flow g (fst s) (snd s))"
    using assms(1) by (metis carries_def prod.collapse)
  then have s: "holds_flow L s n (map_option f (edge_flow g (fst s) (snd s)))" using holds_flow_map assms(2) by blast
  have "holds_flow L (a, b) ((N(s := n)) (a, b)) (edge_flow (upd_edge f (fst s) (snd s) g) a b)" for a b
  proof (cases "(a, b) = s")
    case True
    then show ?thesis using s by auto
  next
    case False
    then have "\<not> (a = fst s \<and> b = snd s)" by auto
    then show ?thesis using assms(1) False by (auto simp: carries_def)
  qed
  then show ?thesis using assms(1) unfolding carries_def by (simp add: rows_ok_upd_edge)
qed

lemma carries_alloc:
  assumes "carries L N g"
  shows "carries L (\<lambda>x. N x + count_list (steps path) x) (allocateFlow 1 path g)"
proof -
  have "carries L N g \<Longrightarrow> carries L (\<lambda>x. N x + count_list ss x) (fold (\<lambda>s. upd_edge (add_flow 1) (fst s) (snd s)) ss g)" for ss
  proof (induction ss arbitrary: N g)
    case (Cons s ss)
    have c: "carries L (N(s := Suc (N s))) (upd_edge (add_flow 1) (fst s) (snd s) g)"
      by (rule carries_upd [OF Cons.prems]) (simp add: updateResidual_def add_flow_def)
    have "(\<lambda>x. (N(s := Suc (N s))) x + count_list ss x) = (\<lambda>x. N x + count_list (s # ss) x)" by auto
    with Cons.IH [OF c] show ?case by (simp only: fold_simps)
  qed simp
  then show ?thesis using assms by (simp add: allocateFlow_def)
qed

lemma carries_release:
  assumes "carries L N g" "\<And>x. count_list (steps path) x \<le> N x"
  shows "carries L (\<lambda>x. N x - count_list (steps path) x) (releaseFlow 1 path g)"
proof -
  have "carries L N g \<Longrightarrow> (\<And>x. count_list ss x \<le> N x)
      \<Longrightarrow> carries L (\<lambda>x. N x - count_list ss x) (fold (\<lambda>s. upd_edge (sub_flow 1) (fst s) (snd s)) ss g)" for ss
  proof (induction ss arbitrary: N g)
    case (Cons s ss)
    have s: "0 < N s" using Cons.prems(2) [of s] by simp
    have c: "carries L (N(s := N s - 1)) (upd_edge (sub_flow 1) (fst s) (snd s) g)"
      by (rule carries_upd [OF Cons.prems(1)]) (use s in \<open>auto simp: updateResidual_def sub_flow_def\<close>)
    have le: "count_list ss x \<le> (N(s := N s - 1)) x" for x
      using Cons.prems(2) [of x] Cons.prems(2) [of s] by (auto split: if_splits)
    have "(\<lambda>x. (N(s := N s - 1)) x - count_list ss x) = (\<lambda>x. N x - count_list (s # ss) x)" by auto
    with Cons.IH [OF c le] show ?case by (simp only: fold_simps)
  qed simp
  then show ?thesis using assms by (simp add: releaseFlow_def)
qed

lemma carries_ban: "carries L N g \<Longrightarrow> carries L N (banEdge u v g)"
  using carries_upd [of L N g "(u, v)" "\<lambda>ef. ef\<lparr>banned := True\<rparr>" "N (u, v)"] by (simp add: banEdge_def)

lemma carries_ban_path: "carries L N g \<Longrightarrow> carries L N (banPathEdges path g)"
proof -
  have "carries L N g \<Longrightarrow> carries L N (fold (\<lambda>s. banEdge (fst s) (snd s)) ss g)" for ss
    by (induction ss arbitrary: g) (auto simp: carries_ban)
  then show "carries L N g \<Longrightarrow> carries L N (banPathEdges path g)" by (simp add: banPathEdges_def)
qed

lemma out_edges_unban: "out_edges (unbanAllEdges g) u = map (\<lambda>(v, ef). (v, ef\<lparr>banned := False\<rparr>)) (out_edges g u)"
  by (induction g) (auto simp: unbanAllEdges_def out_edges_def map_get_def split: option.splits)

lemma carries_unban:
  assumes "carries L N g"
  shows "carries L N (unbanAllEdges g)"
proof -
  have "edge_flow (unbanAllEdges g) u v = map_option (\<lambda>ef. ef\<lparr>banned := False\<rparr>) (edge_flow g u v)" for u v
    unfolding edge_flow_def out_edges_unban by (simp add: map_of_map)
  moreover have "holds_flow L (u, v) (N (u, v)) (map_option (\<lambda>ef. ef\<lparr>banned := False\<rparr>) (edge_flow g u v))" for u v
    by (rule holds_flow_map) (use assms in \<open>auto simp: carries_def\<close>)
  ultimately show ?thesis using assms unfolding carries_def rows_ok_def out_edges_unban by (simp add: comp_def case_prod_beta')
qed

section \<open>The first network and the costs\<close>

definition links :: "Edge list \<Rightarrow> (string \<times> string) set" where
  "links es = (\<lambda>e. (SourceIp e, DestinationIp e)) ` set es"

lemma edge_flow_put_flow:
  "edge_flow (put_flow d e g) u v = (if (u, v) = (SourceIp e, DestinationIp e) then Some (new_flow d e) else edge_flow g u v)"
  by (simp add: edge_flow_def put_flow_def out_edges_def update_conv' map_get_def)

lemma rows_ok_put_flow: "rows_ok g \<Longrightarrow> rows_ok (put_flow d e g)"
  by (auto simp: rows_ok_def put_flow_def out_edges_def update_conv' map_get_def AList.distinct_update split: option.splits)

lemma holds_flow_insert: "s \<noteq> x \<Longrightarrow> holds_flow (insert x L) s n o1 = holds_flow L s n o1"
  by (simp add: holds_flow_def split: option.split)

lemma carries_build: "carries (links (fo_edges d)) (\<lambda>x. 0) (buildResidualGraphWithCapacity d)"
proof -
  have "carries L (\<lambda>x. 0) g \<Longrightarrow> carries (L \<union> links es) (\<lambda>x. 0) (fold (put_flow d) es g)" for L es g
  proof (induction es arbitrary: L g)
    case (Cons e es)
    let ?x = "(SourceIp e, DestinationIp e)"
    have "holds_flow (insert ?x L) (u, v) 0 (edge_flow (put_flow d e g) u v)" for u v
    proof (cases "(u, v) = ?x")
      case True
      then show ?thesis by (simp add: edge_flow_put_flow holds_flow_def new_flow_def Let_def)
    next
      case False
      then have "holds_flow (insert ?x L) (u, v) 0 (edge_flow g u v)"
        using Cons.prems by (simp add: carries_def holds_flow_insert)
      then show ?thesis using False unfolding edge_flow_put_flow by (simp only: if_False)
    qed
    then have "carries (insert ?x L) (\<lambda>x. 0) (put_flow d e g)"
      using Cons.prems by (simp add: carries_def rows_ok_put_flow)
    from Cons.IH [OF this] show ?case by (simp add: links_def)
  qed (simp add: links_def)
  from this [of "{}" "[]" "fo_edges d"] show ?thesis
    by (simp add: buildResidualGraphWithCapacity_def carries_def rows_ok_def holds_flow_def edge_flow_def out_edges_def)
qed

text \<open>The solver as it is constructed, with any capacity, threshold and limits.\<close>

definition solver_ok :: "Edge list \<Rightarrow> FlowOptimizationSolver \<Rightarrow> bool" where
  "solver_ok es d \<longleftrightarrow> fo_edges d = es \<and> latencyMap d = latency_map es \<and> list_all (\<lambda>e. 0 \<le> Latency e) es"

lemma getEdgeLatency_nonneg:
  assumes "solver_ok es d"
  shows "0 \<le> getEdgeLatency d u v"
proof (cases "latencyMap d (edge_line u v)")
  case (Some l)
  then have "l \<in> Latency ` set es"
    using assms by (auto simp: solver_ok_def latency_map_def dest!: map_of_SomeD)
  then show ?thesis using assms Some by (auto simp: getEdgeLatency_def solver_ok_def list_all_iff)
qed (simp add: getEdgeLatency_def MaxFloat64_def)

lemma arcs_nonneg:
  assumes "solver_ok es (env_d E)" "res_arc E u v c"
  shows "0 \<le> c"
  using assms getEdgeLatency_nonneg [OF assms(1), of u v]
  by (auto simp: res_arc_def forward_arc_def backward_arc_def penalty_def bannedPenalty_def)

section \<open>Paths of a solution\<close>

definition limit :: "FlowOptimizationSolver \<Rightarrow> string \<Rightarrow> float64" where
  "limit d t = (case thetaLMap d t of Some l \<Rightarrow> l | None \<Rightarrow> 100)"

text \<open>
  A simple path of at most \<open>maxHops\<close> nodes within the latency limit of its destination, whose
  steps follow a link or go against one.
\<close>

definition good_path :: "FlowOptimizationSolver \<Rightarrow> string \<Rightarrow> string \<Rightarrow> string list \<Rightarrow> float64 \<Rightarrow> bool" where
  "good_path d s t p l \<longleftrightarrow> p \<noteq> [] \<and> hd p = s \<and> last p = t \<and> distinct p \<and> length p \<le> maxHops \<and> 0 \<le> l \<and> l \<le> limit d t
     \<and> set (steps p) \<subseteq> links (fo_edges d) \<union> (links (fo_edges d))\<inverse>"

lemma carries_link:
  assumes "carries L N g"
  shows "edge_flow g u v = Some ef \<Longrightarrow> (u, v) \<in> L"
proof -
  have "holds_flow L (u, v) (N (u, v)) (edge_flow g u v)" using assms by (simp add: carries_def)
  then show "edge_flow g u v = Some ef \<Longrightarrow> (u, v) \<in> L" by (simp add: holds_flow_def)
qed

lemma res_arc_link:
  assumes "carries L N (env_g E)" "res_arc E u v c"
  shows "(u, v) \<in> L \<union> L\<inverse>"
  using assms(2) carries_link [OF assms(1)] by (auto simp: res_arc_def forward_arc_def backward_arc_def)

lemma res_walk_steps:
  assumes "carries L N (env_g E)"
  shows "res_walk E p l \<Longrightarrow> p \<noteq> [] \<and> set (steps p) \<subseteq> L \<union> L\<inverse>"
proof (induction p arbitrary: l)
  case (Cons u p)
  then show ?case using res_arc_link [OF assms] by (cases p) fastforce+
qed simp

lemma findFeasiblePathWithLatency_good:
  assumes "permutes perm" "intn_ok intn" "solver_ok es d" "carries (links es) N g"
    and r: "findFeasiblePathWithLatency perm intn d g s t used attempt n = (Some pinfo, n')"
  shows "pi_dest pinfo = t \<and> good_path d s t (pi_path pinfo) (pi_latency pinfo)"
proof -
  define E where "E = \<lparr>env_perm = perm, env_intn = intn, env_d = d, env_g = g, env_t = t, env_thetaL = limit d t, env_used = used,
                    env_optimize = (attempt \<le> 1), env_randomize = (\<not> attempt \<le> 1)\<rparr>"
  have "sane E" using assms(1-4) arcs_nonneg [of es E] by (auto simp: sane_def env_ok_def E_def carries_def)
  moreover obtain p l where p: "fst (dfsPathSearch E s n) = Some (p, l)"
      and i: "pinfo = \<lparr>pi_path = p, pi_pathStr = strings_join ''|'' p, pi_dest = t, pi_latency = l\<rparr>"
    using r unfolding findFeasiblePathWithLatency_def limit_def [symmetric] E_def
    by (auto simp: Let_def split: if_splits prod.splits option.splits)
  ultimately have "admissible E s p l" using dfsPathSearch_admissible [of E s n] by simp
  moreover have "carries (links es) N (env_g E)" using assms(4) by (simp add: E_def)
  moreover have "0 \<le> l" using res_walk_nonneg \<open>sane E\<close> \<open>admissible E s p l\<close> by (auto simp: admissible_def)
  moreover have "res_walk E p l" using \<open>admissible E s p l\<close> by (simp add: admissible_def)
  ultimately show ?thesis using res_walk_steps [of "links es" N E p l] i assms(3)
    by (simp add: admissible_def good_path_def E_def solver_ok_def)
qed

section \<open>The invariant of the iterations\<close>

abbreviation to_dest :: "string \<Rightarrow> PathWithInfo list \<Rightarrow> PathWithInfo list" where
  "to_dest t ps \<equiv> filter (\<lambda>p. pi_dest p = t) ps"

definition path_key :: "PathWithInfo \<Rightarrow> string" where
  "path_key p = pathToString (pi_path p)"

definition solution_ok :: "FlowOptimizationSolver \<Rightarrow> string \<Rightarrow> string list \<Rightarrow> PathWithInfo list \<Rightarrow> bool" where
  "solution_ok d s ends ps \<longleftrightarrow>
     list_all (\<lambda>p. pi_dest p \<in> set ends \<and> good_path d s (pi_dest p) (pi_path p) (pi_latency p)) ps
     \<and> distinct (map path_key ps) \<and> (\<forall>t. length (to_dest t ps) \<le> flowsPerDest d)"

text \<open>How often the paths of a solution take a step.\<close>

definition usage :: "PathWithInfo list \<Rightarrow> string \<times> string \<Rightarrow> nat" where
  "usage ps x = sum_list (map (\<lambda>p. count_list (steps (pi_path p)) x) ps)"

definition carousel_ok :: "FlowOptimizationSolver \<Rightarrow> string \<Rightarrow> string list \<Rightarrow> carousel \<Rightarrow> bool" where
  "carousel_ok d s ends c \<longleftrightarrow> carries (links (fo_edges d)) (usage (allPaths c)) (c_g c)
     \<and> usedPaths c = path_key ` set (allPaths c) \<and> (\<forall>t. destFlowCount c t = int (length (to_dest t (allPaths c))))
     \<and> solution_ok d s ends (allPaths c)"

lemma carousel_ok_draws [simp]: "carousel_ok d s ends (c\<lparr>c_draws := n\<rparr>) = carousel_ok d s ends c"
  by (simp add: carousel_ok_def)

lemma carousel_ok_acc [simp]: "carousel_ok d s ends (c\<lparr>pathAccumulator := pa\<rparr>) = carousel_ok d s ends c"
  by (simp add: carousel_ok_def)

lemma carousel_ok_best [simp]: "carousel_ok d s ends (c\<lparr>bestPaths := ps, bestScore := x\<rparr>) = carousel_ok d s ends c"
  by (simp add: carousel_ok_def)

lemma carousel_ok_graph:
  "carousel_ok d s ends c \<Longrightarrow> (\<And>N. carries (links (fo_edges d)) N (c_g c) \<Longrightarrow> carries (links (fo_edges d)) N g)
    \<Longrightarrow> carousel_ok d s ends (c\<lparr>c_g := g\<rparr>)"
  by (simp add: carousel_ok_def)

lemma accept_path_ok:
  assumes "carousel_ok d s ends c" "t \<in> set ends" "pi_dest pinfo = t" "good_path d s t (pi_path pinfo) (pi_latency pinfo)"
    and "pathToString (pi_path pinfo) \<notin> usedPaths c" "destFlowCount c t < int (flowsPerDest d)"
  shows "carousel_ok d s ends (accept_path pinfo t c)"
proof -
  have "(\<lambda>x. usage (allPaths c) x + count_list (steps (pi_path pinfo)) x) = usage (allPaths c @ [pinfo])"
    by (auto simp: usage_def)
  then have "carries (links (fo_edges d)) (usage (allPaths c @ [pinfo])) (allocateFlow 1 (pi_path pinfo) (c_g c))"
    using carries_alloc [of "links (fo_edges d)" "usage (allPaths c)" "c_g c" "pi_path pinfo"] assms(1)
    by (simp add: carousel_ok_def)
  moreover have "solution_ok d s ends (allPaths c @ [pinfo])"
    using assms by (auto simp: carousel_ok_def solution_ok_def path_key_def)
  ultimately show ?thesis using assms(1,3) by (auto simp: carousel_ok_def accept_path_def path_key_def)
qed

lemma remove_oldest_ok:
  assumes "carousel_ok d s ends c"
  shows "carousel_ok d s ends (remove_oldest c)"
proof (cases "allPaths c")
  case (Cons pinfo ps)
  have "(\<lambda>x. usage (allPaths c) x - count_list (steps (pi_path pinfo)) x) = usage ps"
    using Cons by (auto simp: usage_def)
  then have "carries (links (fo_edges d)) (usage ps) (releaseFlow 1 (pi_path pinfo) (c_g c))"
    using carries_release [of "links (fo_edges d)" "usage (allPaths c)" "c_g c" "pi_path pinfo"] assms Cons
    by (simp add: carousel_ok_def usage_def)
  moreover have sol: "solution_ok d s ends (pinfo # ps)" using assms Cons by (simp add: carousel_ok_def)
  then have "solution_ok d s ends ps" unfolding solution_ok_def by (auto split: if_splits dest: Suc_leD)
  moreover have "path_key ` set (pinfo # ps) - {path_key pinfo} = path_key ` set ps"
    using sol by (auto simp: solution_ok_def)
  ultimately show ?thesis using assms Cons by (auto simp: carousel_ok_def remove_oldest_def path_key_def)
qed (use assms in \<open>simp add: remove_oldest_def\<close>)

definition run_ok :: "(nat \<Rightarrow> nat \<Rightarrow> nat list) \<Rightarrow> (nat \<Rightarrow> nat \<Rightarrow> nat) \<Rightarrow> FlowOptimizationSolver \<Rightarrow> bool" where
  "run_ok perm intn d \<longleftrightarrow> permutes perm \<and> intn_ok intn \<and> solver_ok (fo_edges d) d"

lemma found_good:
  assumes "run_ok perm intn d" "carousel_ok d s ends c"
    and "findFeasiblePathWithLatency perm intn d (c_g c) s t (usedPaths c) attempt n = (Some pinfo, n')"
  shows "pi_dest pinfo = t" "good_path d s t (pi_path pinfo) (pi_latency pinfo)"
  using findFeasiblePathWithLatency_good [of perm intn "fo_edges d" d "usage (allPaths c)" "c_g c"] assms
  by (auto simp: run_ok_def carousel_ok_def)

lemma accept_found:
  assumes "run_ok perm intn d" "carousel_ok d s ends c" "t \<in> set ends" "destFlowCount c t < int (flowsPerDest d)"
    and "findFeasiblePathWithLatency perm intn d (c_g c) s t (usedPaths c) attempt (c_draws c) = (Some pinfo, n)"
    and "pathToString (pi_path pinfo) \<notin> usedPaths c"
  shows "carousel_ok d s ends (accept_path pinfo t (c\<lparr>c_draws := n\<rparr>))"
  using accept_path_ok [of d s ends "c\<lparr>c_draws := n\<rparr>" t pinfo] found_good [OF assms(1,2,5)] assms by simp

lemma initial_dest_ok:
  assumes "run_ok perm intn d" "t \<in> set ends"
  shows "carousel_ok d s ends c \<Longrightarrow> destFlowCount c t = int i \<Longrightarrow> c' = initial_dest perm intn d s t left i c
    \<Longrightarrow> carousel_ok d s ends c' \<and> (\<forall>t'. t' \<noteq> t \<longrightarrow> destFlowCount c' t' = destFlowCount c t')"
proof (induction left arbitrary: i c)
  case (Suc left)
  obtain r n where r: "findFeasiblePathWithLatency perm intn d (c_g c) s t (usedPaths c) (flowsPerDest d * 10 - left) (c_draws c) = (r, n)"
    by fastforce
  show ?case
  proof (cases "i < flowsPerDest d")
    case False
    then show ?thesis using Suc.prems by simp
  next
    case i: True
    show ?thesis
    proof (cases r)
      case None
      then show ?thesis using Suc.prems r i by simp
    next
      case (Some pinfo)
      show ?thesis
      proof (cases "pathToString (pi_path pinfo) \<in> usedPaths c")
        case True
        then show ?thesis using Suc.IH [of "c\<lparr>c_draws := n\<rparr>" i] Suc.prems r i Some by simp
      next
        case False
        let ?c = "accept_path pinfo t (c\<lparr>c_draws := n\<rparr>)"
        have "carousel_ok d s ends ?c"
          using accept_found [OF assms(1) Suc.prems(1) assms(2) _ r [unfolded Some] False] Suc.prems(2) i by simp
        moreover have "destFlowCount ?c t = int (Suc i)" "t' \<noteq> t \<Longrightarrow> destFlowCount ?c t' = destFlowCount c t'" for t'
          using Suc.prems(2) by (simp_all add: accept_path_def)
        ultimately show ?thesis using Suc.IH [of ?c "Suc i"] Suc.prems(3) r i Some False by simp
      qed
    qed
  qed
qed simp

lemma initial_paths_ok:
  assumes "run_ok perm intn d"
  shows "carousel_ok d s ends c \<Longrightarrow> set ts \<subseteq> set ends \<Longrightarrow> distinct ts \<Longrightarrow> (\<forall>t \<in> set ts. destFlowCount c t = 0)
    \<Longrightarrow> carousel_ok d s ends (initial_paths perm intn d s ts c)"
proof (induction ts arbitrary: c)
  case (Cons t ts)
  let ?c = "initial_dest perm intn d s t (flowsPerDest d * 10) 0 c"
  have "carousel_ok d s ends ?c \<and> (\<forall>t'. t' \<noteq> t \<longrightarrow> destFlowCount ?c t' = destFlowCount c t')"
    using initial_dest_ok [OF assms, of t ends s c 0] Cons.prems by simp
  moreover from this have "\<forall>t' \<in> set ts. destFlowCount ?c t' = 0" using Cons.prems by auto
  ultimately show ?case using Cons.IH [of ?c] Cons.prems by (simp add: initial_paths_def)
qed (simp add: initial_paths_def)

lemma ban_edges_ok:
  assumes "carousel_ok d s ends c"
  shows "carousel_ok d s ends (ban_edges perm oldest c)"
proof -
  let ?g = "case GetMostFrequent perm (c_draws c) (pathAccumulator c) of None \<Rightarrow> c_g c | Some pinfo \<Rightarrow> banPathEdges (pi_path pinfo) (c_g c)"
  let ?h = "case pi_path oldest of u # v # _ \<Rightarrow> banEdge u v ?g | _ \<Rightarrow> ?g"
  have "carries L N (c_g c) \<Longrightarrow> carries L N ?g" for L N by (simp add: carries_ban_path split: option.split)
  then have "carries L N (c_g c) \<Longrightarrow> carries L N ?h" for L N by (simp add: carries_ban split: list.split)
  from carousel_ok_graph [OF assms this] have "carousel_ok d s ends (c\<lparr>c_g := ?h\<rparr>)" .
  then show ?thesis by (simp add: ban_edges_def Let_def carousel_ok_def)
qed

lemma new_path_ok:
  assumes "run_ok perm intn d"
  shows "carousel_ok d s ends c \<Longrightarrow> set ts \<subseteq> set ends \<Longrightarrow> carousel_ok d s ends (new_path perm intn d s attempt ts c)"
proof (induction ts arbitrary: c)
  case (Cons t ts)
  obtain r n where r: "findFeasiblePathWithLatency perm intn d (c_g c) s t (usedPaths c) attempt (c_draws c) = (r, n)" by fastforce
  note IH = Cons.IH [OF Cons.prems(1)] Cons.IH [of "c\<lparr>c_draws := n\<rparr>"]
  show ?case
  proof (cases r)
    case None
    then show ?thesis using IH Cons.prems r by simp
  next
    case (Some pinfo)
    then show ?thesis using IH Cons.prems accept_found [OF assms Cons.prems(1) _ _ r [unfolded Some]] r by simp
  qed
qed simp

definition best_ok :: "FlowOptimizationSolver \<Rightarrow> string \<Rightarrow> string list \<Rightarrow> carousel \<Rightarrow> bool" where
  "best_ok d s ends c \<longleftrightarrow> bestPaths c \<noteq> [] \<and> solution_ok d s ends (bestPaths c)"

lemma bestPaths_frame [simp]:
  "bestPaths (remove_oldest c) = bestPaths c" "bestPaths (ban_edges perm oldest c) = bestPaths c"
  "bestPaths (accept_path pinfo t c) = bestPaths c"
  by (simp_all add: remove_oldest_def ban_edges_def accept_path_def Let_def split: list.split)

lemma bestPaths_new_path [simp]: "bestPaths (new_path perm intn d s attempt ts c) = bestPaths c"
  by (induction ts arbitrary: c) (auto split: prod.splits option.splits)

lemma keep_best_ok:
  assumes "carousel_ok d s ends c" "best_ok d s ends c"
  shows "carousel_ok d s ends (keep_best c)" "best_ok d s ends (keep_best c)"
  using assms by (auto simp: keep_best_def best_ok_def carousel_ok_def)

lemma iteration_ok:
  assumes "run_ok perm intn d" "carousel_ok d s ends c" "best_ok d s ends c"
  shows "carousel_ok d s ends (iteration perm intn d s ends i c) \<and> best_ok d s ends (iteration perm intn d s ends i c)"
proof -
  let ?b = "ban_edges perm (hd (allPaths c)) (remove_oldest c)"
  let ?n = "new_path perm intn d s (Suc i) (reorder perm (c_draws ?b) ends) (?b\<lparr>c_draws := Suc (c_draws ?b)\<rparr>)"
  have "set (reorder perm (c_draws ?b) ends) = set ends" using assms(1) by (simp add: run_ok_def set_reorder)
  then have "carousel_ok d s ends ?n"
    using new_path_ok [OF assms(1)] ban_edges_ok [OF remove_oldest_ok [OF assms(2)]] by simp
  from carousel_ok_graph [OF this carries_unban] have "carousel_ok d s ends (?n\<lparr>c_g := unbanAllEdges (c_g ?n)\<rparr>)" .
  moreover have "best_ok d s ends (?n\<lparr>c_g := unbanAllEdges (c_g ?n)\<rparr>)" using assms(3) by (simp add: best_ok_def)
  ultimately show ?thesis unfolding iteration_def Let_def using keep_best_ok by blast
qed

lemma iterations_ok:
  assumes "run_ok perm intn d"
  shows "carousel_ok d s ends c \<Longrightarrow> best_ok d s ends c \<Longrightarrow> carousel_ok d s ends (iterations perm intn d s ends is c)
    \<and> best_ok d s ends (iterations perm intn d s ends is c)"
  by (induction "is" arbitrary: c) (simp_all add: iteration_ok [OF assms])

lemma optimise_ok:
  assumes "run_ok perm intn d" "carousel_ok d s ends c" "allPaths c \<noteq> []"
  shows "carousel_ok d s ends (optimise perm intn d s ends c)" "best_ok d s ends (optimise perm intn d s ends c)"
proof -
  define c1 where "c1 = c\<lparr>pathAccumulator := fold AddPath (allPaths c) NewPathAccumulator, bestPaths := allPaths c,
                bestScore := objective (allPaths c) (c_g c)\<rparr>"
  have c1: "carousel_ok d s ends c1" "best_ok d s ends c1"
    using assms(2,3) by (simp_all add: c1_def best_ok_def carousel_ok_def)
  have "carousel_ok d s ends ((remove_oldest ^^ n) c1) \<and> best_ok d s ends ((remove_oldest ^^ n) c1)" for n
    by (induction n) (use c1 in \<open>simp_all add: remove_oldest_ok best_ok_def\<close>)
  then show "carousel_ok d s ends (optimise perm intn d s ends c)" "best_ok d s ends (optimise perm intn d s ends c)"
    unfolding optimise_def Let_def c1_def [symmetric] using iterations_ok [OF assms(1)] by blast+
qed

lemma optimise_keeps:
  assumes "run_ok perm intn d" "carousel_ok d s ends c"
  shows "carousel_ok d s ends (optimise perm intn d s ends c)"
proof (cases "allPaths c = []")
  case True
  then show ?thesis using assms(2) by (simp add: optimise_def Let_def carousel_ok_def)
qed (rule optimise_ok(1) [OF assms])

section \<open>The solver\<close>

lemma Computing_total:
  assumes "good_edges (edge_cost ks) (ks_edges ks)" "0 < ks_k ks"
  shows "\<exists>r. Computing ks s t = Some r"
  using yens_edges [OF assms, of s t] by (auto simp: Computing_def)

lemma new_carousel_ok: "carousel_ok d s ends (new_carousel d)"
proof -
  have "usage [] = (\<lambda>x. 0)" by (simp add: usage_def fun_eq_iff)
  then show ?thesis using carries_build [of d] by (simp add: carousel_ok_def new_carousel_def solution_ok_def)
qed

lemma computeThetaL_total:
  assumes "good_edges Latency (fo_edges d)" "0 < kspK d"
  shows "\<exists>m. computeThetaLForDestinations s ts d = Some (d\<lparr>thetaLMap := m\<rparr>)"
  using assms
proof (induction ts arbitrary: d)
  case (Nil d)
  have "d = d\<lparr>thetaLMap := thetaLMap d\<rparr>" by simp
  then show ?case by (metis computeThetaLForDestinations.simps(1))
next
  case (Cons t ts)
  let ?ks = "NewKShortestSolverWithLatency (fo_edges d) (kspK d) True"
  have "edge_cost ?ks = Latency" by (simp add: edge_cost_def NewKShortestSolverWithLatency_def fun_eq_iff)
  then obtain r where r: "Computing ?ks s t = Some r"
    using Computing_total [of ?ks s t] Cons.prems by (auto simp: NewKShortestSolverWithLatency_def)
  define x where "x = (case r of Inl err \<Rightarrow> 100
                         | Inr paths \<Rightarrow> if paths = [] then 100
                                       else sum_list (map Rtt paths) / real (length paths) * (3 / 2))"
  obtain m where "computeThetaLForDestinations s ts (d\<lparr>thetaLMap := (thetaLMap d)(t \<mapsto> x)\<rparr>) =
      Some (d\<lparr>thetaLMap := (thetaLMap d)(t \<mapsto> x), thetaLMap := m\<rparr>)"
    using Cons.IH [of "d\<lparr>thetaLMap := (thetaLMap d)(t \<mapsto> x)\<rparr>"] Cons.prems by auto
  then show ?case using r unfolding x_def by (auto simp: Let_def)
qed

lemma initial_ok:
  assumes "run_ok perm intn d" "distinct ends"
  shows "carousel_ok d s ends (initial_paths perm intn d s ends (new_carousel d))"
  using initial_paths_ok [OF assms(1) new_carousel_ok subset_refl assms(2)] by (simp add: new_carousel_def)

lemma solution_infos:
  assumes "solution_ok d s ends ps"
    and "infos = map (\<lambda>pinfo. \<lparr>Hops = pi_path pinfo, Rtt = pi_latency pinfo, RawRTT = pi_latency pinfo\<rparr>) ps"
  shows "distinct (map Hops infos)"
    and "list_all (\<lambda>p. last (Hops p) \<in> set ends \<and> good_path d s (last (Hops p)) (Hops p) (Rtt p)) infos"
    and "length (filter (\<lambda>p. last (Hops p) = t) infos) \<le> flowsPerDest d"
proof -
  have last: "last (pi_path p) = pi_dest p" if "p \<in> set ps" for p
    using assms(1) that by (auto simp: solution_ok_def good_path_def list_all_iff)
  have "distinct (map pathToString (map pi_path ps))"
    using assms(1) unfolding solution_ok_def path_key_def [abs_def] by (simp add: comp_def)
  then have "distinct (map pi_path ps)" by (simp only: distinct_map)
  then show "distinct (map Hops infos)" by (simp add: assms(2) comp_def)
  show "list_all (\<lambda>p. last (Hops p) \<in> set ends \<and> good_path d s (last (Hops p)) (Hops p) (Rtt p)) infos"
    using assms last by (auto simp: solution_ok_def list_all_iff)
  have "length (filter (\<lambda>p. last (Hops p) = t) infos) = length (to_dest t ps)"
    using last unfolding assms(2) by (induction ps) auto
  then show "length (filter (\<lambda>p. last (Hops p) = t) infos) \<le> flowsPerDest d" using assms(1) by (simp add: solution_ok_def)
qed

text \<open>C12. For different destinations and whatever the random numbers, the flow-based solver ends, and
  what it returns are different simple paths, at most two per destination: from the source to a
  requested destination, with at most 30 nodes and a latency within the limit that is computed
  for the destination, where every step follows a link of the network or goes against one.\<close>

theorem Carousel_sound:
  assumes "permutes perm" "intn_ok intn" "good_edges Latency es" "distinct ends"
    and d: "d = NewFlowOptimizationSolver es" and v: "valid = filter (\<lambda>t. t \<in> set (graph_nodes es)) ends"
  shows "\<exists>r. Carousel_ComputingMulti perm intn d s ends = Some r \<and> (case r of
      Inl msg \<Rightarrow> msg \<in> {no_destinations, start_not_in_graph s, no_valid_destinations s, no_feasible_path s}
    | Inr ps \<Rightarrow> ps \<noteq> [] \<and> distinct (map Hops ps) \<and> (\<forall>t. length (filter (\<lambda>p. last (Hops p) = t) ps) \<le> 2)
        \<and> (\<exists>d'. computeThetaLForDestinations s valid (set_parameters d valid) = Some d'
             \<and> list_all (\<lambda>p. last (Hops p) \<in> set valid \<and> good_path d' s (last (Hops p)) (Hops p) (Rtt p)) ps))"
proof (cases "ends = [] \<or> s \<notin> set (graph_nodes es) \<or> valid = []")
  case True
  then show ?thesis by (auto simp: Carousel_ComputingMulti_def d v NewFlowOptimizationSolver_def Let_def)
next
  case False
  let ?d = "set_parameters d valid"
  have f: "fo_edges ?d = es" "kspK ?d = 3" "latencyMap ?d = latency_map es" "flowsPerDest ?d = 2"
    by (simp_all add: set_parameters_def d NewFlowOptimizationSolver_def Let_def)
  obtain m where m: "computeThetaLForDestinations s valid ?d = Some (?d\<lparr>thetaLMap := m\<rparr>)"
    using computeThetaL_total [of ?d s valid] assms(3) f by auto
  let ?e = "?d\<lparr>thetaLMap := m\<rparr>"
  have run: "run_ok perm intn ?e"
    using assms(1-3) f by (simp add: run_ok_def solver_ok_def good_edges_def list_all_iff)
  let ?c = "initial_paths perm intn ?e s valid (new_carousel ?e)"
  have c: "carousel_ok ?e s valid ?c" using initial_ok [OF run] assms(4) v by simp
  have unf: "Carousel_ComputingMulti perm intn d s ends = (if allPaths ?c = [] then Some (Inl (no_feasible_path s))
      else Some (Inr (map (\<lambda>pinfo. \<lparr>Hops = pi_path pinfo, Rtt = pi_latency pinfo, RawRTT = pi_latency pinfo\<rparr>)
             (bestPaths (optimise perm intn ?e s valid ?c)))))"
    using False m v by (simp add: Carousel_ComputingMulti_def d NewFlowOptimizationSolver_def Let_def)
  show ?thesis
  proof (cases "allPaths ?c = []")
    case True
    then show ?thesis using unf by simp
  next
    case False
    then have b: "best_ok ?e s valid (optimise perm intn ?e s valid ?c)" using optimise_ok(2) [OF run c] by simp
    then have sol: "solution_ok ?e s valid (bestPaths (optimise perm intn ?e s valid ?c))" by (simp add: best_ok_def)
    show ?thesis using unf False b solution_infos [OF sol refl] m f(4) by (auto simp: best_ok_def)
  qed
qed

text \<open>Two routes of equal latency that share no inner link, and a link between them.\<close>

definition detour_edges :: "Edge list" where
  "detour_edges = [link ''s'' ''v'' 1, link ''v'' ''u'' 1, link ''u'' ''t'' 1, link ''s'' ''u'' 2, link ''v'' ''t'' 2]"

definition no_shuffle :: "nat \<Rightarrow> nat \<Rightarrow> nat" where
  "no_shuffle i n = (if even i then 0 else n - 1)"

lemma detour_ok:
  "permutes (\<lambda>i n. [0..<n])" "intn_ok no_shuffle" "good_edges Latency detour_edges"
  by (auto simp: permutes_def intn_ok_def no_shuffle_def good_edges_def detour_edges_def link_def name_ok_def)

theorem Carousel_sound_witness:
  "\<exists>d valid r. permutes (\<lambda>i n. [0..<n]) \<and> intn_ok no_shuffle \<and> good_edges Latency detour_edges \<and> distinct [''t'', ''x'']
    \<and> d = NewFlowOptimizationSolver detour_edges \<and> valid = filter (\<lambda>t. t \<in> set (graph_nodes detour_edges)) [''t'', ''x'']
    \<and> Carousel_ComputingMulti (\<lambda>i n. [0..<n]) no_shuffle d ''s'' [''t'', ''x''] = Some r \<and> (case r of
      Inl msg \<Rightarrow> msg \<in> {no_destinations, start_not_in_graph ''s'', no_valid_destinations ''s'', no_feasible_path ''s''}
    | Inr ps \<Rightarrow> ps \<noteq> [] \<and> distinct (map Hops ps) \<and> (\<forall>t. length (filter (\<lambda>p. last (Hops p) = t) ps) \<le> 2)
        \<and> (\<exists>d'. computeThetaLForDestinations ''s'' valid (set_parameters d valid) = Some d'
             \<and> list_all (\<lambda>p. last (Hops p) \<in> set valid \<and> good_path d' ''s'' (last (Hops p)) (Hops p) (Rtt p)) ps))"
proof -
  have "distinct [''t'', ''x'']" by simp
  from Carousel_sound [OF detour_ok this refl refl, of "''s''"] show ?thesis using detour_ok \<open>distinct [''t'', ''x'']\<close> by blast
qed

text \<open>A step against a link is taken as a step of the path: the solver returns the path
  \<open>s, u, v, t\<close> although there is no link from \<open>u\<close> to \<open>v\<close>, only one from \<open>v\<close> to \<open>u\<close>, and it counts
  nothing for its latency.\<close>

lemma Carousel_invents_link:
  "map_option (map_sum id (map (\<lambda>p. (Hops p, Rtt p))))
     (Carousel_ComputingMulti (\<lambda>i n. [0..<n]) no_shuffle (NewFlowOptimizationSolver detour_edges) ''s'' [''t'']) =
   Some (Inr [([''s'', ''v'', ''u'', ''t''], 3), ([''s'', ''u'', ''v'', ''t''], 4)])
   \<and> (''u'', ''v'') \<notin> links detour_edges"
  by code_simp

text \<open>C14. The search for a feasible path is exact. In the exploring mode it finds a path of the residual
  network within the latency limit and the hop limit whenever there is one; in the optimising
  mode it finds one of least latency among those that are not in use, whatever the orders in which
  the maps are iterated. It reports that there is none only when there is none.\<close>

theorem dfsPathSearch_correct:
  assumes "env_ok E" "solver_ok es (env_d E)"
  shows "case fst (dfsPathSearch E s n) of
      None \<Rightarrow> \<nexists>p l. admissible E s p l
    | Some (p, l) \<Rightarrow> admissible E s p l \<and> (env_optimize E \<longrightarrow> (\<forall>p' l'. admissible E s p' l' \<longrightarrow> l \<le> l'))"
  using dfsPathSearch_admissible [of E s n] arcs_nonneg [OF assms(2)] assms(1) by (auto simp: sane_def)

definition detour_env :: search_env where
  "detour_env = (let d = (NewFlowOptimizationSolver detour_edges)\<lparr>fo_capacity := 2\<rparr>
     in \<lparr>env_perm = (\<lambda>i n. [0..<n]), env_intn = no_shuffle, env_d = d, env_g = buildResidualGraphWithCapacity d, env_t = ''t'',
         env_thetaL = 5, env_used = {}, env_optimize = True, env_randomize = False\<rparr>)"

lemma detour_env_ok: "env_ok detour_env" "solver_ok detour_edges (env_d detour_env)" "env_optimize detour_env"
proof -
  have "rows_ok (buildResidualGraphWithCapacity d)" for d using carries_build [of d] by (simp add: carries_def)
  then show "env_ok detour_env" using detour_ok by (simp add: env_ok_def detour_env_def Let_def)
  show "solver_ok detour_edges (env_d detour_env)"
    by (simp add: solver_ok_def detour_env_def NewFlowOptimizationSolver_def detour_edges_def link_def Let_def)
  show "env_optimize detour_env" by (simp add: detour_env_def Let_def)
qed

theorem dfsPathSearch_correct_witness:
  "env_ok detour_env \<and> solver_ok detour_edges (env_d detour_env) \<and> env_optimize detour_env
   \<and> fst (dfsPathSearch detour_env ''s'' 0) = Some ([''s'', ''v'', ''u'', ''t''], 3)
   \<and> admissible detour_env ''s'' [''s'', ''v'', ''u'', ''t''] 3 \<and> (\<nexists>p l. admissible detour_env ''s'' p l \<and> l < 3)"
proof -
  have r: "fst (dfsPathSearch detour_env ''s'' 0) = Some ([''s'', ''v'', ''u'', ''t''], 3)" by code_simp
  show ?thesis using dfsPathSearch_correct [OF detour_env_ok(1,2), of "''s''" 0] r detour_env_ok by fastforce
qed

text \<open>C13. Flow is neither lost nor invented: after the whole search every link of the residual network
  carries as much flow as there are steps over it in the paths of the current solution, its
  residual capacity is what is left of the effective one, and the counter of a destination is the
  number of paths to it.\<close>

theorem flows_accounted:
  assumes "run_ok perm intn d" "distinct ends"
    and c: "c = optimise perm intn d s ends (initial_paths perm intn d s ends (new_carousel d))"
  shows "(case edge_flow (c_g c) u v of None \<Rightarrow> (u, v) \<notin> links (fo_edges d)
      | Some ef \<Rightarrow> (u, v) \<in> links (fo_edges d) \<and> ef_flow ef = real (usage (allPaths c) (u, v)) \<and> residual ef = effCap ef - ef_flow ef)
    \<and> destFlowCount c t = int (length (to_dest t (allPaths c)))"
proof -
  let ?c = "initial_paths perm intn d s ends (new_carousel d)"
  have i: "carousel_ok d s ends ?c" by (rule initial_ok [OF assms(1,2)])
  have "carousel_ok d s ends c" unfolding c by (rule optimise_keeps [OF assms(1) i])
  then show ?thesis by (auto simp: carousel_ok_def carries_def holds_flow_def)
qed

theorem flows_accounted_witness:
  "\<exists>d c. d = (NewFlowOptimizationSolver detour_edges)\<lparr>fo_capacity := 2\<rparr> \<and> run_ok (\<lambda>i n. [0..<n]) no_shuffle d \<and> distinct [''t'']
    \<and> c = optimise (\<lambda>i n. [0..<n]) no_shuffle d ''s'' [''t''] (initial_paths (\<lambda>i n. [0..<n]) no_shuffle d ''s'' [''t''] (new_carousel d))
    \<and> (case edge_flow (c_g c) ''s'' ''v'' of None \<Rightarrow> (''s'', ''v'') \<notin> links (fo_edges d)
      | Some ef \<Rightarrow> (''s'', ''v'') \<in> links (fo_edges d) \<and> ef_flow ef = real (usage (allPaths c) (''s'', ''v'')) \<and> residual ef = effCap ef - ef_flow ef)
    \<and> destFlowCount c ''t'' = int (length (to_dest ''t'' (allPaths c)))"
proof -
  let ?d = "(NewFlowOptimizationSolver detour_edges)\<lparr>fo_capacity := 2\<rparr>"
  have h: "run_ok (\<lambda>i n. [0..<n]) no_shuffle ?d" "distinct [''t'']"
    using detour_ok by (simp_all add: run_ok_def solver_ok_def NewFlowOptimizationSolver_def detour_edges_def link_def)
  note acc = flows_accounted [OF h refl, where s = "''s''" and u = "''s''" and v = "''v''" and t = "''t''"]
  show ?thesis by (intro exI conjI) (rule refl, rule h(1), rule h(2), rule refl, rule conjunct1 [OF acc], rule conjunct2 [OF acc])
qed

end
