(* ===== verification/Edge_Routing.thy ===== *)
theory Edge_Routing
  imports Graph_Manager Route_Info
begin

text \<open>
  The last-mile routers of control-plane/routing/edge-domain: Lyapunov scores with softmax
  probabilities (lyapunov-opt.go, lyapunov-config.go), inverse load (p2c.go), a weighted sum of
  load and latency (joint-cpu-latency.go) and smoothed values (ewma-based.go). Each answers a
  user with one-hop paths, one per node, whose \<open>Rtt\<close> is a probability or a score.

  The order in which the map of nodes is iterated is the parameter \<open>ks\<close>, the address of the
  control node itself is \<open>self\<close>, and \<open>srt\<close> is \<open>sort.Slice\<close>, which may order equal scores in any
  way: it is only assumed to sort (\<open>sorts\<close>). The contract \<open>positive_weights\<close> is what turns
  positive weights into probabilities; the inverse-load and the smoothed router rest on it. The
  weights of the Lyapunov router can be zero, because \<open>math.Exp\<close> underflows: its contract is
  \<open>nonneg_weights\<close>, which the other one extends.
\<close>

section \<open>Nodes and their response times\<close>

record nodeScore =
  ns_nodeIp :: string
  ns_score :: float64

definition node_ips :: "string list \<Rightarrow> string \<Rightarrow> (string \<rightharpoonup> NodeTelemetry) \<Rightarrow> string list" where
  "node_ips ks self nodeTel =
     (let nodeIps = map (\<lambda>k. PublicIP (the (nodeTel k))) ks
      in if length nodeIps \<le> 0 then [self] else nodeIps)"

definition default_rt :: LastCongestion where
  "default_rt = \<lparr>Count = 1, SumRT = 0, AvgRT = 50, P95RT = 0\<rparr>"

definition GetNodeRT :: "(string \<rightharpoonup> NodeTelemetry) \<Rightarrow> (string \<rightharpoonup> LastCongestion) \<Rightarrow> EndPoint \<Rightarrow> string \<Rightarrow> LastCongestion option" where
  "GetNodeRT nodeTel agg source nodeIP =
     (case nodeTel nodeIP of
        None \<Rightarrow> None
      | Some tel \<Rightarrow>
          (case agg (ep_City source @ ''-'' @ nodeIP) of Some val \<Rightarrow> Some val | None \<Rightarrow> Some default_rt))"

text \<open>The delay of a node as the Lyapunov and the joint router read it.\<close>

definition node_delay :: "LastCongestion option \<Rightarrow> float64" where
  "node_delay stats =
     (let avg = (case stats of None \<Rightarrow> 500 | Some s \<Rightarrow> if Count s = 0 then 500 else AvgRT s)
      in if avg \<le> 0 then 100 else avg)"

section \<open>Lyapunov\<close>

record latencyConfig =
  lc_good :: float64
  lc_normal :: float64
  lc_warning :: float64

definition ContinentPairConfigs :: "string \<rightharpoonup> latencyConfig" where
  "ContinentPairConfigs =
     [''Asia-NorthAmerica'' \<mapsto> \<lparr>lc_good = 60, lc_normal = 100, lc_warning = 150\<rparr>,
      ''NorthAmerica-Asia'' \<mapsto> \<lparr>lc_good = 60, lc_normal = 100, lc_warning = 150\<rparr>]"

definition getLatencyConfig :: "string \<Rightarrow> string \<Rightarrow> latencyConfig" where
  "getLatencyConfig sourceCont destCont =
     (case ContinentPairConfigs (sourceCont @ ''-'' @ destCont) of
        Some config \<Rightarrow> config
      | None \<Rightarrow> if sourceCont \<noteq> destCont then \<lparr>lc_good = 60, lc_normal = 100, lc_warning = 150\<rparr>
                else \<lparr>lc_good = 20, lc_normal = 40, lc_warning = 60\<rparr>)"

record CPUThresholds =
  cpu_Low :: float64
  cpu_Mid :: float64
  cpu_High :: float64
  SensitivityCPU :: float64
  HysteresisUp :: float64
  HysteresisDn :: float64

definition CPUConfig :: "int \<rightharpoonup> CPUThresholds" where
  "CPUConfig =
     [2 \<mapsto> \<lparr>cpu_Low = 40, cpu_Mid = 60, cpu_High = 80, SensitivityCPU = 2, HysteresisUp = 60, HysteresisDn = 40\<rparr>,
      4 \<mapsto> \<lparr>cpu_Low = 60, cpu_Mid = 80, cpu_High = 100, SensitivityCPU = 3, HysteresisUp = 80, HysteresisDn = 60\<rparr>]"

definition GetCPUThresholds :: "int \<Rightarrow> CPUThresholds" where
  "GetCPUThresholds logicalCores =
     (case CPUConfig logicalCores of Some config \<Rightarrow> config | None \<Rightarrow> the (CPUConfig 2))"

definition sensitivityCPU :: float64 where "sensitivityCPU = 2"
definition sensitivityDelay :: float64 where "sensitivityDelay = 0.2"
definition defaultV :: float64 where "defaultV = 1"
definition softmaxTemp :: float64 where "softmaxTemp = 2"

text \<open>\<open>math.Exp\<close> is zero below its documented underflow bound, where the result is less than every
  positive float64. Its overflow to infinity is not modelled: scores are real numbers.\<close>

definition exp_underflow :: float64 where "exp_underflow = - 745.133219101941108420"

definition math_Exp :: "float64 \<Rightarrow> float64" where
  "math_Exp x = (if x < exp_underflow then 0 else exp x)"

definition computeDelayPenalty :: "float64 \<Rightarrow> latencyConfig \<Rightarrow> float64" where
  "computeDelayPenalty rt config =
     (if lc_good config \<le> 0 then math_Exp (sensitivityDelay * (rt / 50 - 1))
      else math_Exp (sensitivityDelay * (rt / lc_good config - 1)))"

definition computeCPUPenalty :: "float64 \<Rightarrow> int \<Rightarrow> float64" where
  "computeCPUPenalty Qk logicalCores =
     (let config = GetCPUThresholds logicalCores;
          alpha = (if SensitivityCPU config \<le> 0 then sensitivityCPU else SensitivityCPU config)
      in if cpu_Mid config \<le> 0 then math_Exp (alpha * (Qk / 60 - 1)) else math_Exp (alpha * (Qk / cpu_Mid config - 1)))"

definition softmaxProbabilities :: "nodeScore list \<Rightarrow> float64 \<Rightarrow> float64 list" where
  "softmaxProbabilities candidates temperature =
     (let expScores = map (\<lambda>c. math_Exp (- ns_score c / temperature)) candidates;
          sumExp = sum_list expScores
      in map (\<lambda>e. if sumExp > 0 then e / sumExp else 0) expScores)"

text \<open>The score of a node; None where the loop continues.\<close>

definition lyapunov_score :: "(string \<rightharpoonup> NodeTelemetry) \<Rightarrow> (string \<rightharpoonup> LastCongestion) \<Rightarrow> EndPoint \<Rightarrow> string \<Rightarrow> nodeScore option" where
  "lyapunov_score nodeTel agg source nodeIp =
     (case nodeTel nodeIp of
        None \<Rightarrow> None
      | Some tel \<Rightarrow>
          let delay = node_delay (GetNodeRT nodeTel agg source nodeIp);
              cpu = Cpu tel;
              Qk = (if Usage cpu < 0 then 0 else Usage cpu);
              config = getLatencyConfig (ep_Continent source) (node_Continent tel);
              cpuPenalty = computeCPUPenalty (Qk + \<bar>LoadDelta cpu\<bar>) (LogicalCore cpu);
              delayPenalty = computeDelayPenalty delay config
          in Some \<lparr>ns_nodeIp = nodeIp, ns_score = 1 * cpuPenalty + defaultV * delayPenalty\<rparr>)"

definition Lyapunov_Computing :: "(nodeScore list \<Rightarrow> nodeScore list) \<Rightarrow> string list \<Rightarrow> string \<Rightarrow> (string \<rightharpoonup> NodeTelemetry)
    \<Rightarrow> (string \<rightharpoonup> LastCongestion) \<Rightarrow> EndPoints \<Rightarrow> PathInfo list" where
  "Lyapunov_Computing srt ks self nodeTel agg endPoints =
     (let candidates = List.map_filter (lyapunov_score nodeTel agg (ep_Source endPoints)) (node_ips ks self nodeTel)
      in if candidates = [] then []
         else let candidates = srt candidates; probabilities = softmaxProbabilities candidates softmaxTemp
              in map (\<lambda>(i, item). \<lparr>Hops = [ns_nodeIp item],
                                   Rtt = (if i < length probabilities then probabilities ! i else 0),
                                   RawRTT = ns_score item\<rparr>)
                   (zip [0..<length candidates] candidates))"

section \<open>Power of two choices\<close>

definition p2c_load :: "(string \<rightharpoonup> NodeTelemetry) \<Rightarrow> string \<Rightarrow> float64" where
  "p2c_load nodeTel nodeIP =
     (case nodeTel nodeIP of
        None \<Rightarrow> 100
      | Some tel \<Rightarrow> let load = Usage (Cpu tel) in if load < 0 \<or> load = 0 then 100 else load)"

definition P2C_Computing :: "string list \<Rightarrow> string \<Rightarrow> (string \<rightharpoonup> NodeTelemetry) \<Rightarrow> PathInfo list" where
  "P2C_Computing ks self nodeTel =
     (let weights = map (\<lambda>ip. (ip, 1 / p2c_load nodeTel ip)) (node_ips ks self nodeTel);
          totalWeight = sum_list (map snd weights)
      in map (\<lambda>(ip, w). \<lparr>Hops = [ip], Rtt = w / totalWeight, RawRTT = 0\<rparr>) weights)"

definition getNodeLatency :: "(string \<rightharpoonup> LastCongestion) \<Rightarrow> EndPoint \<Rightarrow> string \<Rightarrow> float64" where
  "getNodeLatency agg source nodeIP =
     (case agg (ep_City source @ ''-'' @ nodeIP) of
        Some cong \<Rightarrow> if Count cong > 0 then AvgRT cong else 50
      | None \<Rightarrow> 50)"

section \<open>Load and latency\<close>

record JointRouter =
  cpuWeight :: float64
  latencyWeight :: float64

definition NewJointRouter :: JointRouter where
  "NewJointRouter = \<lparr>cpuWeight = 0.5, latencyWeight = 0.5\<rparr>"

definition SetWeights :: "float64 \<Rightarrow> float64 \<Rightarrow> JointRouter \<Rightarrow> JointRouter" where
  "SetWeights cpu lat r =
     (if cpu > 0 \<and> lat > 0 then r\<lparr>cpuWeight := cpu / (cpu + lat), latencyWeight := lat / (cpu + lat)\<rparr>
      else if cpu = 0 \<and> lat > 0 then r\<lparr>cpuWeight := 0, latencyWeight := 1\<rparr>
      else if lat = 0 \<and> cpu > 0 then r\<lparr>cpuWeight := 1, latencyWeight := 0\<rparr>
      else r)"

definition joint_score :: "JointRouter \<Rightarrow> (string \<rightharpoonup> NodeTelemetry) \<Rightarrow> (string \<rightharpoonup> LastCongestion) \<Rightarrow> EndPoint \<Rightarrow> string
    \<Rightarrow> nodeScore option" where
  "joint_score r nodeTel agg source nodeIp =
     (case nodeTel nodeIp of
        None \<Rightarrow> None
      | Some tel \<Rightarrow>
          let delay = node_delay (GetNodeRT nodeTel agg source nodeIp);
              Qk = (if Usage (Cpu tel) < 0 then 100 else Usage (Cpu tel))
          in Some \<lparr>ns_nodeIp = nodeIp, ns_score = cpuWeight r * Qk + latencyWeight r * delay\<rparr>)"

definition Joint_Computing :: "(nodeScore list \<Rightarrow> nodeScore list) \<Rightarrow> string list \<Rightarrow> string \<Rightarrow> (string \<rightharpoonup> NodeTelemetry)
    \<Rightarrow> (string \<rightharpoonup> LastCongestion) \<Rightarrow> JointRouter \<Rightarrow> EndPoints \<Rightarrow> PathInfo list" where
  "Joint_Computing srt ks self nodeTel agg r endPoints =
     (let candidates = List.map_filter (joint_score r nodeTel agg (ep_Source endPoints)) (node_ips ks self nodeTel)
      in if candidates = [] then []
         else map (\<lambda>item. \<lparr>Hops = [ns_nodeIp item], Rtt = ns_score item, RawRTT = 0\<rparr>) (srt candidates))"

section \<open>Smoothed values\<close>

record EWMARouter =
  cpuEWMA :: "string \<rightharpoonup> float64"
  latEWMA :: "string \<rightharpoonup> float64"
  cpuAlpha :: float64
  latAlpha :: float64
  lambda :: float64

definition NewEWMARouter :: EWMARouter where
  "NewEWMARouter = \<lparr>cpuEWMA = Map.empty, latEWMA = Map.empty, cpuAlpha = 0.3, latAlpha = 0.3, lambda = 0.5\<rparr>"

definition SetAlpha :: "float64 \<Rightarrow> float64 \<Rightarrow> EWMARouter \<Rightarrow> EWMARouter" where
  "SetAlpha a l r = r\<lparr>cpuAlpha := a, latAlpha := a, lambda := l\<rparr>"

definition updateEWMACPU :: "string \<Rightarrow> float64 \<Rightarrow> EWMARouter \<Rightarrow> EWMARouter" where
  "updateEWMACPU nodeIP cpuUsage r =
     (case cpuEWMA r nodeIP of
        None \<Rightarrow> r\<lparr>cpuEWMA := (cpuEWMA r)(nodeIP \<mapsto> cpuUsage)\<rparr>
      | Some current \<Rightarrow> r\<lparr>cpuEWMA := (cpuEWMA r)(nodeIP \<mapsto> cpuAlpha r * cpuUsage + (1 - cpuAlpha r) * current)\<rparr>)"

definition updateEWMALatency :: "string \<Rightarrow> float64 \<Rightarrow> EWMARouter \<Rightarrow> EWMARouter" where
  "updateEWMALatency nodeIP latency r =
     (case latEWMA r nodeIP of
        None \<Rightarrow> r\<lparr>latEWMA := (latEWMA r)(nodeIP \<mapsto> latency)\<rparr>
      | Some current \<Rightarrow> r\<lparr>latEWMA := (latEWMA r)(nodeIP \<mapsto> latAlpha r * latency + (1 - latAlpha r) * current)\<rparr>)"

definition getCPUEWMA :: "string \<Rightarrow> EWMARouter \<Rightarrow> float64" where
  "getCPUEWMA nodeIP r = (case cpuEWMA r nodeIP of None \<Rightarrow> 100 | Some val \<Rightarrow> val)"

definition getLatEWMA :: "string \<Rightarrow> EWMARouter \<Rightarrow> float64" where
  "getLatEWMA nodeIP r = (case latEWMA r nodeIP of None \<Rightarrow> 500 | Some val \<Rightarrow> val)"

text \<open>The observations of a node, and the first pass over the nodes.\<close>

definition ewma_cpu :: "NodeTelemetry \<Rightarrow> float64" where
  "ewma_cpu tel = (if Usage (Cpu tel) < 0 then 100 else Usage (Cpu tel))"

definition ewma_latency :: "LastCongestion option \<Rightarrow> float64" where
  "ewma_latency stats =
     (let latency = (case stats of None \<Rightarrow> 100 | Some s \<Rightarrow> if Count s > 0 then AvgRT s else 100)
      in if latency \<le> 0 then 100 else latency)"

record ewmaScore =
  es_nodeIp :: string
  es_cpuEwma :: float64
  es_latEwma :: float64

fun ewma_pass :: "(string \<rightharpoonup> NodeTelemetry) \<Rightarrow> (string \<rightharpoonup> LastCongestion) \<Rightarrow> EndPoint \<Rightarrow> string list \<Rightarrow> EWMARouter
    \<Rightarrow> ewmaScore list \<times> EWMARouter" where
  "ewma_pass nodeTel agg source [] r = ([], r)"
| "ewma_pass nodeTel agg source (ip # ips) r =
     (case nodeTel ip of
        None \<Rightarrow> ewma_pass nodeTel agg source ips r
      | Some tel \<Rightarrow>
          let r = updateEWMACPU ip (ewma_cpu tel) r;
              cpuEwma = getCPUEWMA ip r;
              r = updateEWMALatency ip (ewma_latency (GetNodeRT nodeTel agg source ip)) r;
              latEwma = getLatEWMA ip r;
              (cs, r) = ewma_pass nodeTel agg source ips r
          in (\<lparr>es_nodeIp = ip, es_cpuEwma = cpuEwma, es_latEwma = latEwma\<rparr> # cs, r))"

definition combined :: "float64 \<Rightarrow> ewmaScore \<Rightarrow> float64" where
  "combined l c = l * es_cpuEwma c + (1 - l) * (es_latEwma c / 1)"

definition ewma_weight :: "float64 \<Rightarrow> ewmaScore \<Rightarrow> float64" where
  "ewma_weight l c = (if combined l c > 0 then 1 / combined l c else 1)"

definition EWMA_Computing :: "string list \<Rightarrow> string \<Rightarrow> (string \<rightharpoonup> NodeTelemetry) \<Rightarrow> (string \<rightharpoonup> LastCongestion)
    \<Rightarrow> EWMARouter \<Rightarrow> EndPoints \<Rightarrow> PathInfo list \<times> EWMARouter" where
  "EWMA_Computing ks self nodeTel agg r endPoints =
     (let (candidates, r') = ewma_pass nodeTel agg (ep_Source endPoints) (node_ips ks self nodeTel) r
      in if candidates = [] then ([], r')
         else let candidates = exchange_sort (combined (lambda r)) candidates;
                  totalWeight = sum_list (map (ewma_weight (lambda r)) candidates)
              in (map (\<lambda>c. \<lparr>Hops = [es_nodeIp c], Rtt = ewma_weight (lambda r) c / totalWeight,
                            RawRTT = combined (lambda r) c\<rparr>) candidates, r'))"

section \<open>Probabilities from weights\<close>

definition sorts :: "('a \<Rightarrow> float64) \<Rightarrow> ('a list \<Rightarrow> 'a list) \<Rightarrow> bool" where
  "sorts key srt \<longleftrightarrow> (\<forall>xs. mset (srt xs) = mset xs \<and> sorted (map key (srt xs)))"

definition normalise :: "('a \<Rightarrow> float64) \<Rightarrow> 'a list \<Rightarrow> float64 list" where
  "normalise w xs = map (\<lambda>x. w x / sum_list (map w xs)) xs"

text \<open>A list of probabilities.\<close>

definition distribution :: "float64 list \<Rightarrow> bool" where
  "distribution ps \<longleftrightarrow> list_all (\<lambda>p. 0 < p \<and> p \<le> 1) ps \<and> sum_list ps = 1"

text \<open>Weights that may be zero: the share of an element is positive exactly when its weight is.\<close>

locale nonneg_weights =
  fixes w :: "'a \<Rightarrow> float64"
  assumes nonneg: "0 \<le> w x"
begin

lemma total_nonneg: "0 \<le> sum_list (map w xs)"
  by (intro sum_list_nonneg) (auto intro: nonneg)

lemma le_total: "x \<in> set xs \<Longrightarrow> w x \<le> sum_list (map w xs)"
proof (induction xs)
  case (Cons y xs)
  then show ?case using total_nonneg [of xs] nonneg [of y] by (auto simp: add_increasing)
qed simp

lemma total_zero: "sum_list (map w xs) = 0 \<longleftrightarrow> (\<forall>x \<in> set xs. w x = 0)"
  by (subst sum_list_nonneg_eq_0_iff) (auto intro: nonneg)

lemma total_pos_iff: "0 < sum_list (map w xs) \<longleftrightarrow> (\<exists>x \<in> set xs. 0 < w x)"
proof -
  have "0 < sum_list (map w xs) \<longleftrightarrow> sum_list (map w xs) \<noteq> 0" using total_nonneg [of xs] by linarith
  moreover have "0 < w x \<longleftrightarrow> w x \<noteq> 0" for x using nonneg [of x] by linarith
  ultimately show ?thesis unfolding total_zero by simp
qed

lemma normalise_total: "sum_list (normalise w xs) = (if \<exists>x \<in> set xs. 0 < w x then 1 else 0)"
proof -
  have "sum_list (normalise w xs) = sum_list (map w xs) / sum_list (map w xs)"
    by (simp add: normalise_def divide_inverse sum_list_mult_const)
  then show ?thesis using total_pos_iff [of xs] total_nonneg [of xs] by auto
qed

lemma share_pos: "x \<in> set xs \<Longrightarrow> 0 < w x / sum_list (map w xs) \<longleftrightarrow> 0 < w x"
  using le_total [of x xs] nonneg [of x] total_nonneg [of xs] by (auto simp: zero_less_divide_iff)

lemma share_bounds: "x \<in> set xs \<Longrightarrow> 0 \<le> w x / sum_list (map w xs) \<and> w x / sum_list (map w xs) \<le> 1"
  using le_total [of x xs] nonneg [of x] total_nonneg [of xs] by (auto simp: divide_le_eq_1)

text \<open>A list in ascending order of a key that weights decrease with gets descending probabilities.\<close>

lemma normalise_sorted:
  assumes "sorted (map key xs)" "\<And>x y. key x \<le> key y \<Longrightarrow> x \<in> set xs \<Longrightarrow> y \<in> set xs \<Longrightarrow> w y \<le> w x"
  shows "sorted_wrt (\<ge>) (normalise w xs)"
proof -
  have "sorted_wrt (\<lambda>x y. w x / sum_list (map w xs) \<ge> w y / sum_list (map w xs)) xs"
    using assms total_nonneg [of xs] by (auto simp: sorted_map intro!: divide_right_mono elim!: sorted_wrt_mono_rel [rotated])
  then show ?thesis by (simp add: normalise_def sorted_wrt_map)
qed

end

locale positive_weights =
  fixes w :: "'a \<Rightarrow> float64"
  assumes pos: "0 < w x"

sublocale positive_weights \<subseteq> nonneg_weights w
  by unfold_locales (rule less_imp_le [OF pos])

context positive_weights
begin

lemma total_pos: "xs \<noteq> [] \<Longrightarrow> 0 < sum_list (map w xs)"
  using pos by (cases xs) (auto simp: total_pos_iff simp del: list.map)

lemma normalise_distribution: "xs \<noteq> [] \<Longrightarrow> distribution (normalise w xs)"
  using share_pos share_bounds pos normalise_total [of xs]
  by (cases xs) (auto simp: distribution_def normalise_def list_all_iff simp del: list.map)

end

section \<open>Lemmas about the routers\<close>

lemma p2c_load_pos: "0 < p2c_load nodeTel ip"
  by (auto simp: p2c_load_def Let_def split: option.splits)

lemma math_Exp_facts: "0 \<le> math_Exp x" "0 < math_Exp x \<longleftrightarrow> exp_underflow \<le> x" "x \<le> y \<Longrightarrow> math_Exp x \<le> math_Exp y"
  by (auto simp: math_Exp_def)

interpretation softmax: nonneg_weights "\<lambda>c. math_Exp (- ns_score c / temperature)" for temperature
  by unfold_locales (rule math_Exp_facts(1))

interpretation p2c: positive_weights "\<lambda>ip. 1 / p2c_load nodeTel ip" for nodeTel
  by unfold_locales (simp add: p2c_load_pos)

interpretation ewma: positive_weights "ewma_weight l" for l
  by unfold_locales (simp add: ewma_weight_def)

lemma softmax_normalise:
  "softmaxProbabilities cs temperature = normalise (\<lambda>c. math_Exp (- ns_score c / temperature)) cs"
proof (cases "0 < sum_list (map (\<lambda>c. math_Exp (- ns_score c / temperature)) cs)")
  case False
  then have "sum_list (map (\<lambda>c. math_Exp (- ns_score c / temperature)) cs) = 0"
    using softmax.total_nonneg [of temperature cs] by linarith
  then show ?thesis by (simp add: softmaxProbabilities_def normalise_def Let_def comp_def)
qed (simp add: softmaxProbabilities_def normalise_def Let_def comp_def)

lemma sortsD:
  assumes "sorts key srt"
  shows "mset (srt xs) = mset xs" "sorted (map key (srt xs))" "srt xs = [] \<longleftrightarrow> xs = []"
proof -
  show ms: "mset (srt xs) = mset xs" "sorted (map key (srt xs))" using assms by (auto simp: sorts_def)
  show "srt xs = [] \<longleftrightarrow> xs = []" using ms(1) by (metis mset_zero_iff)
qed

definition keyed :: "(string \<rightharpoonup> NodeTelemetry) \<Rightarrow> bool" where
  "keyed nodeTel \<longleftrightarrow> (\<forall>k n. nodeTel k = Some n \<longrightarrow> PublicIP n = k)"

lemma node_ips_keyed:
  assumes "keyed nodeTel" "range_order nodeTel ks" "ks \<noteq> []"
  shows "node_ips ks self nodeTel = ks"
proof -
  have "map (\<lambda>k. PublicIP (the (nodeTel k))) ks = ks"
    using assms(1) range_orderD(3) [OF assms(2)] by (intro map_idI) (fastforce simp: keyed_def)
  then show ?thesis using assms(3) by (simp add: node_ips_def)
qed

lemma map_filter_total: "(\<And>x. x \<in> set xs \<Longrightarrow> \<exists>y. f x = Some y) \<Longrightarrow> List.map_filter f xs = map (the \<circ> f) xs"
  by (induction xs) (fastforce simp: List.map_filter_def)+

lemma lyapunov_scored: "nodeTel ip = Some tel \<Longrightarrow> \<exists>c. lyapunov_score nodeTel agg source ip = Some c \<and> ns_nodeIp c = ip"
  by (simp add: lyapunov_score_def Let_def)

lemma joint_scored: "nodeTel ip = Some tel \<Longrightarrow> \<exists>c. joint_score r nodeTel agg source ip = Some c \<and> ns_nodeIp c = ip"
  by (simp add: joint_score_def Let_def)

text \<open>The candidates of a router that scores every known node.\<close>

lemma scored_candidates:
  assumes "keyed nodeTel" "range_order nodeTel ks" "ks \<noteq> []"
    and "\<And>ip tel. nodeTel ip = Some tel \<Longrightarrow> \<exists>c. score ip = Some c \<and> ns_nodeIp c = ip"
  shows "List.map_filter score (node_ips ks self nodeTel) = map (the \<circ> score) ks"
    "map ns_nodeIp (map (the \<circ> score) ks) = ks"
proof -
  have k: "\<exists>c. score k = Some c \<and> ns_nodeIp c = k" if "k \<in> set ks" for k
    using range_orderD(3) [OF assms(2) that] assms(4) by blast
  then show "List.map_filter score (node_ips ks self nodeTel) = map (the \<circ> score) ks"
    unfolding node_ips_keyed [OF assms(1-3)] by (intro map_filter_total) blast
  have "(ns_nodeIp \<circ> (the \<circ> score)) k = k" if "k \<in> set ks" for k using k [OF that] by auto
  then show "map ns_nodeIp (map (the \<circ> score) ks) = ks" unfolding map_map by (rule map_idI)
qed

lemma Lyapunov_eq:
  assumes "keyed nodeTel" "range_order nodeTel ks" "ks \<noteq> []" "sorts ns_score srt"
  shows "\<exists>cs :: nodeScore list. mset (map ns_nodeIp cs) = mset ks \<and> sorted (map ns_score cs) \<and> cs \<noteq> []
    \<and> map Hops (Lyapunov_Computing srt ks self nodeTel agg ep) = map (\<lambda>c. [ns_nodeIp c]) cs
    \<and> map RawRTT (Lyapunov_Computing srt ks self nodeTel agg ep) = map ns_score cs
    \<and> map Rtt (Lyapunov_Computing srt ks self nodeTel agg ep) = softmaxProbabilities cs softmaxTemp"
proof -
  let ?score = "lyapunov_score nodeTel agg (ep_Source ep)"
  let ?cs = "srt (map (the \<circ> ?score) ks)"
  note S = scored_candidates [OF assms(1-3), where score = ?score, OF lyapunov_scored]
  have ne: "?cs \<noteq> []" using sortsD(3) [OF assms(4)] assms(3) by simp
  have len: "length (softmaxProbabilities ?cs softmaxTemp) = length ?cs" by (simp add: softmax_normalise normalise_def)
  have L: "Lyapunov_Computing srt ks self nodeTel agg ep = map (\<lambda>(i, c). \<lparr>Hops = [ns_nodeIp c],
      Rtt = (if i < length (softmaxProbabilities ?cs softmaxTemp) then softmaxProbabilities ?cs softmaxTemp ! i else 0),
      RawRTT = ns_score c\<rparr>) (zip [0..<length ?cs] ?cs)"
    using assms(3) S(1) by (simp add: Lyapunov_Computing_def Let_def)
  have "mset (map ns_nodeIp ?cs) = mset (map ns_nodeIp (map (the \<circ> ?score) ks))"
    using sortsD(1) [OF assms(4)] unfolding mset_map by simp
  moreover have "map Rtt (Lyapunov_Computing srt ks self nodeTel agg ep) = softmaxProbabilities ?cs softmaxTemp"
    unfolding L using len by (intro nth_equalityI) auto
  moreover have "map Hops (Lyapunov_Computing srt ks self nodeTel agg ep) = map (\<lambda>c. [ns_nodeIp c]) ?cs"
    "map RawRTT (Lyapunov_Computing srt ks self nodeTel agg ep) = map ns_score ?cs"
    unfolding L by (auto intro: nth_equalityI)
  ultimately show ?thesis
    using sortsD(2) [OF assms(4), of "map (the \<circ> ?score) ks"] ne S(2) by (intro exI [of _ ?cs]) (simp del: map_map)
qed

text \<open>The probability of a path against the weight of its node.\<close>

lemma softmax_shares:
  fixes cs :: "nodeScore list" and ps :: "PathInfo list"
  assumes "map RawRTT ps = map ns_score cs" "map Rtt ps = normalise (\<lambda>c. math_Exp (- ns_score c / temperature)) cs"
  shows "list_all (\<lambda>p. 0 \<le> Rtt p \<and> Rtt p \<le> 1 \<and> (0 < Rtt p \<longleftrightarrow> 0 < math_Exp (- RawRTT p / temperature))) ps"
proof -
  let ?w = "\<lambda>c. math_Exp (- ns_score c / temperature)"
  have "0 \<le> Rtt (ps ! i) \<and> Rtt (ps ! i) \<le> 1 \<and> (0 < Rtt (ps ! i) \<longleftrightarrow> 0 < math_Exp (- RawRTT (ps ! i) / temperature))"
    if i: "i < length ps" for i
  proof -
    have len: "length cs = length ps" using assms(1) by (metis length_map)
    have "Rtt (ps ! i) = ?w (cs ! i) / sum_list (map ?w cs)" using assms(2) i len
      by (metis (no_types, lifting) normalise_def nth_map)
    moreover have "RawRTT (ps ! i) = ns_score (cs ! i)" using assms(1) i len by (metis nth_map)
    moreover have "cs ! i \<in> set cs" using i len by simp
    ultimately show ?thesis using softmax.share_pos [of "cs ! i" cs temperature] softmax.share_bounds [of "cs ! i" cs temperature]
      by simp
  qed
  then show ?thesis by (auto simp: list_all_length)
qed

lemma singleton_hops:
  assumes "mset (map key cs) = mset ks"
  shows "mset (map (\<lambda>c. [key c]) cs) = mset (map (\<lambda>k. [k]) ks)"
proof -
  have "mset (map (\<lambda>c. [key c]) cs) = image_mset (\<lambda>k. [k]) (mset (map key cs))"
    by (simp add: image_mset.compositionality comp_def)
  then show ?thesis unfolding assms by (simp only: mset_map)
qed

lemma Joint_eq:
  assumes "keyed nodeTel" "range_order nodeTel ks" "ks \<noteq> []" "sorts ns_score srt"
    and cs: "cs = srt (map (the \<circ> joint_score r nodeTel agg (ep_Source ep)) ks)"
  shows "Joint_Computing srt ks self nodeTel agg r ep =
      map (\<lambda>item. \<lparr>Hops = [ns_nodeIp item], Rtt = ns_score item, RawRTT = 0\<rparr>) cs"
    and "mset (map Hops (Joint_Computing srt ks self nodeTel agg r ep)) = mset (map (\<lambda>k. [k]) ks)"
proof -
  let ?score = "joint_score r nodeTel agg (ep_Source ep)"
  note S = scored_candidates [OF assms(1-3), where score = ?score, OF joint_scored]
  show P: "Joint_Computing srt ks self nodeTel agg r ep =
      map (\<lambda>item. \<lparr>Hops = [ns_nodeIp item], Rtt = ns_score item, RawRTT = 0\<rparr>) cs"
    using assms(3) S(1) by (simp add: cs Joint_Computing_def Let_def)
  have "mset (map ns_nodeIp cs) = mset (map ns_nodeIp (map (the \<circ> ?score) ks))"
    unfolding cs mset_map [of ns_nodeIp] sortsD(1) [OF assms(4)] by simp
  then have "mset (map ns_nodeIp cs) = mset ks" by (simp only: S(2))
  from singleton_hops [OF this]
  show "mset (map Hops (Joint_Computing srt ks self nodeTel agg r ep)) = mset (map (\<lambda>k. [k]) ks)"
    by (simp only: P map_map comp_def PathInfo.simps)
qed

text \<open>The weights of the joint router stay a convex combination.\<close>

definition weights_ok :: "JointRouter \<Rightarrow> bool" where
  "weights_ok r \<longleftrightarrow> 0 \<le> cpuWeight r \<and> 0 \<le> latencyWeight r \<and> cpuWeight r + latencyWeight r = 1"

lemma SetWeights_ok: "weights_ok r \<Longrightarrow> weights_ok (SetWeights c l r)"
  by (auto simp: weights_ok_def SetWeights_def add_divide_distrib [symmetric])

lemma NewJointRouter_ok: "weights_ok NewJointRouter"
  by (simp add: weights_ok_def NewJointRouter_def)

lemma weights_calls: "weights_ok (fold (\<lambda>(c, l). SetWeights c l) ws NewJointRouter)"
proof -
  have "weights_ok s \<Longrightarrow> weights_ok (fold (\<lambda>(c, l). SetWeights c l) ws s)" for s
    by (induction ws arbitrary: s) (auto simp: SetWeights_ok)
  then show ?thesis using NewJointRouter_ok .
qed

lemma convex_bounds:
  fixes a b x y :: float64
  assumes "0 \<le> a" "0 \<le> b" "a + b = 1"
  shows "min x y \<le> a * x + b * y \<and> a * x + b * y \<le> max x y"
proof -
  have "a * min x y + b * min x y \<le> a * x + b * y" "a * x + b * y \<le> a * max x y + b * max x y"
    using assms by (auto intro!: add_mono mult_left_mono)
  then show ?thesis using assms(3) by (simp add: distrib_right [symmetric])
qed

text \<open>A router without history has the observations as its averages.\<close>

definition ewma_observed :: "(string \<rightharpoonup> NodeTelemetry) \<Rightarrow> (string \<rightharpoonup> LastCongestion) \<Rightarrow> EndPoint \<Rightarrow> string \<Rightarrow> ewmaScore option" where
  "ewma_observed nodeTel agg source ip = map_option (\<lambda>tel. \<lparr>es_nodeIp = ip, es_cpuEwma = ewma_cpu tel,
     es_latEwma = ewma_latency (GetNodeRT nodeTel agg source ip)\<rparr>) (nodeTel ip)"

lemma ewma_pass_fresh:
  "distinct ips \<Longrightarrow> (\<And>ip. ip \<in> set ips \<Longrightarrow> cpuEWMA r ip = None \<and> latEWMA r ip = None) \<Longrightarrow>
     fst (ewma_pass nodeTel agg source ips r) = List.map_filter (ewma_observed nodeTel agg source) ips"
proof (induction ips arbitrary: r)
  case (Cons ip ips)
  show ?case
  proof (cases "nodeTel ip")
    case None
    with Cons show ?thesis by (simp add: ewma_observed_def)
  next
    case (Some tel)
    let ?r = "updateEWMALatency ip (ewma_latency (GetNodeRT nodeTel agg source ip)) (updateEWMACPU ip (ewma_cpu tel) r)"
    have r: "cpuEWMA r ip = None" "latEWMA r ip = None" using Cons.prems(2) [of ip] by simp_all
    then have up: "cpuEWMA ?r = (cpuEWMA r)(ip \<mapsto> ewma_cpu tel)"
      "latEWMA ?r = (latEWMA r)(ip \<mapsto> ewma_latency (GetNodeRT nodeTel agg source ip))"
      by (simp_all add: updateEWMACPU_def updateEWMALatency_def)
    have "fst (ewma_pass nodeTel agg source ips ?r) = List.map_filter (ewma_observed nodeTel agg source) ips"
    proof (rule Cons.IH)
      show "distinct ips" using Cons.prems(1) by simp
      show "cpuEWMA ?r i = None \<and> latEWMA ?r i = None" if "i \<in> set ips" for i
        using Cons.prems(1) Cons.prems(2) [of i] that by (auto simp: up)
    qed
    moreover have "getCPUEWMA ip (updateEWMACPU ip (ewma_cpu tel) r) = ewma_cpu tel"
      "getLatEWMA ip ?r = ewma_latency (GetNodeRT nodeTel agg source ip)"
      using r up by (simp_all add: getCPUEWMA_def getLatEWMA_def updateEWMACPU_def)
    moreover have "ewma_observed nodeTel agg source ip = Some \<lparr>es_nodeIp = ip, es_cpuEwma = ewma_cpu tel,
        es_latEwma = ewma_latency (GetNodeRT nodeTel agg source ip)\<rparr>" by (simp add: ewma_observed_def Some)
    ultimately show ?thesis
      by (simp add: Some Let_def case_prod_beta)
  qed
qed simp

section \<open>Properties\<close>

text \<open>C28. Lyapunov routing lists each known node once, in the order of the scores, and a node with a
  lower score never has the lower probability. A probability is positive exactly up to the score
  1490.27 (twice the underflow bound of the exponential, the temperature being two); if the best
  node is within it the probabilities add up to one, otherwise every node gets the probability zero.\<close>

theorem Lyapunov_distribution:
  assumes "sorts ns_score srt" "keyed nodeTel" "range_order nodeTel ks" "ks \<noteq> []"
    and ps_def: "ps = Lyapunov_Computing srt ks self nodeTel agg ep"
  shows "mset (map Hops ps) = mset (map (\<lambda>k. [k]) ks)
    \<and> sorted (map RawRTT ps) \<and> sorted_wrt (\<ge>) (map Rtt ps)
    \<and> list_all (\<lambda>p. 0 \<le> Rtt p \<and> Rtt p \<le> 1 \<and> (0 < Rtt p \<longleftrightarrow> RawRTT p \<le> 1490.26643820388221684)) ps
    \<and> sum_list (map Rtt ps) = (if RawRTT (hd ps) \<le> 1490.26643820388221684 then 1 else 0)"
proof -
  let ?w = "\<lambda>c. math_Exp (- ns_score c / softmaxTemp)"
  obtain cs :: "nodeScore list" where cs: "mset (map ns_nodeIp cs) = mset ks" "sorted (map ns_score cs)" "cs \<noteq> []"
    "map Hops ps = map (\<lambda>c. [ns_nodeIp c]) cs" "map RawRTT ps = map ns_score cs" "map Rtt ps = normalise ?w cs"
    using Lyapunov_eq [OF assms(2-4,1), of self agg ep] unfolding ps_def softmax_normalise by blast
  have cut: "0 < math_Exp (- x / softmaxTemp) \<longleftrightarrow> x \<le> 1490.26643820388221684" for x
    unfolding math_Exp_facts(2) by (auto simp: exp_underflow_def softmaxTemp_def mult.commute)
  have best: "(\<exists>c \<in> set cs. ns_score c \<le> b) \<longleftrightarrow> RawRTT (hd ps) \<le> b" for b
    using cs(2,3,5) by (cases cs; cases ps) (auto intro: order_trans)
  have "mset (map Hops ps) = mset (map (\<lambda>k. [k]) ks)" unfolding cs(4) by (rule singleton_hops [OF cs(1)])
  moreover have "sorted_wrt (\<ge>) (map Rtt ps)"
    unfolding cs(6) using cs(2) by (rule softmax.normalise_sorted) (rule math_Exp_facts(3), simp add: softmaxTemp_def)
  moreover have "list_all (\<lambda>p. 0 \<le> Rtt p \<and> Rtt p \<le> 1 \<and> (0 < Rtt p \<longleftrightarrow> RawRTT p \<le> 1490.26643820388221684)) ps"
    using softmax_shares [OF cs(5,6)] unfolding cut .
  moreover have "sum_list (map Rtt ps) = (if RawRTT (hd ps) \<le> 1490.26643820388221684 then 1 else 0)"
    using softmax.normalise_total [of softmaxTemp cs] unfolding cut cs(6) best .
  moreover have "sorted (map RawRTT ps)" unfolding cs(5) by (rule cs(2))
  ultimately show ?thesis by blast
qed

definition sample_tel :: "string \<Rightarrow> float64 \<Rightarrow> NodeTelemetry" where
  "sample_tel ip load = \<lparr>PublicIP = ip, node_Provider = '''', node_Continent = ''Asia'', node_Country = '''', node_City = '''',
     CpuPressure = load, Cpu = \<lparr>PhysicalCore = 2, LogicalCore = 2, Usage = load, Load1Min = 0, LoadDelta = 0\<rparr>,
     LinksCongestion = Map.empty\<rparr>"

definition sample_nodes :: "string \<rightharpoonup> NodeTelemetry" where
  "sample_nodes = [''a'' \<mapsto> sample_tel ''a'' 20, ''b'' \<mapsto> sample_tel ''b'' 60]"

definition sample_ends :: EndPoints where
  "sample_ends = (let e = \<lparr>ep_IP = '''', ep_Port = 0, ep_Provider = '''', ep_Continent = ''Asia'', ep_Country = '''', ep_City = ''x''\<rparr>
     in \<lparr>ep_Source = e, ep_Dest = e\<rparr>)"

lemma sample_nodes_ok: "keyed sample_nodes" "range_order sample_nodes [''a'', ''b'']"
  by (auto simp: keyed_def sample_nodes_def sample_tel_def range_order_def)

lemma sort_key_sorts: "sorts key (sort_key key)"
  by (simp add: sorts_def)

theorem Lyapunov_distribution_witness:
  "\<exists>ps. ps = Lyapunov_Computing (sort_key ns_score) [''a'', ''b''] ''c'' sample_nodes Map.empty sample_ends
   \<and> sorts ns_score (sort_key ns_score) \<and> keyed sample_nodes \<and> range_order sample_nodes [''a'', ''b'']
   \<and> mset (map Hops ps) = {#[''a''], [''b'']#} \<and> sum_list (map Rtt ps) = (if RawRTT (hd ps) \<le> 1490.26643820388221684 then 1 else 0)"
  using Lyapunov_distribution [OF sort_key_sorts sample_nodes_ok _ refl, of "''c''" Map.empty sample_ends]
    sort_key_sorts [of ns_score] sample_nodes_ok by simp


text \<open>C29. Joint routing ranks: each known node is listed once, in ascending order of its score, which
  is the weight of the load times the load of the node (100 for a negative one) plus the weight of
  the latency times its delay. Whatever weights were set, in any order of calls, the two weights are
  not negative and add up to one, so that a score lies between the load and the delay. The score is
  returned as it is: it is not divided by the sum of all scores, although README.md says that the
  returned weights add up to 1.0. A node without measurements counts with a delay of 50 ms, which
  \<open>GetNodeRT\<close> gives it, and not with the 500 ms that joint-cpu-latency_test.go expects.\<close>

theorem Joint_ranking:
  assumes "sorts ns_score srt" "keyed nodeTel" "range_order nodeTel ks" "ks \<noteq> []"
    and r: "r = fold (\<lambda>(c, l). SetWeights c l) ws NewJointRouter"
    and ps: "ps = Joint_Computing srt ks self nodeTel agg r ep"
  shows "0 \<le> cpuWeight r \<and> 0 \<le> latencyWeight r \<and> cpuWeight r + latencyWeight r = 1
    \<and> mset (map Hops ps) = mset (map (\<lambda>k. [k]) ks) \<and> sorted (map Rtt ps) \<and>
    list_all (\<lambda>p. let ip = hd (Hops p); load = ewma_cpu (the (nodeTel ip));
                     delay = node_delay (GetNodeRT nodeTel agg (ep_Source ep) ip)
                 in Rtt p = cpuWeight r * load + latencyWeight r * delay
                  \<and> min load delay \<le> Rtt p \<and> Rtt p \<le> max load delay) ps"
proof -
  let ?score = "joint_score r nodeTel agg (ep_Source ep)"
  let ?cs = "map (the \<circ> ?score) ks"
  have w: "weights_ok r" unfolding r by (rule weights_calls)
  note P = Joint_eq(1) [OF assms(2-4,1) refl, of self agg r ep, folded ps]
    and hops = Joint_eq(2) [OF assms(2-4,1) refl, of self agg r ep, folded ps]
  have ms: "mset (srt ?cs) = mset ?cs" and so: "sorted (map ns_score (srt ?cs))" by (rule sortsD [OF assms(1)])+
  have "let ip = ns_nodeIp c; load = ewma_cpu (the (nodeTel ip)); delay = node_delay (GetNodeRT nodeTel agg (ep_Source ep) ip)
      in ns_score c = cpuWeight r * load + latencyWeight r * delay \<and> min load delay \<le> ns_score c \<and> ns_score c \<le> max load delay"
    if c: "c \<in> set (srt ?cs)" for c
  proof -
    have "c \<in> set ?cs" using c mset_eq_setD [OF ms] by blast
    then obtain k where k: "k \<in> set ks" "c = the (?score k)" by auto
    then obtain tel where tel: "nodeTel k = Some tel" using range_orderD(3) [OF assms(3)] by blast
    then have "c = \<lparr>ns_nodeIp = k, ns_score = cpuWeight r * ewma_cpu tel
        + latencyWeight r * node_delay (GetNodeRT nodeTel agg (ep_Source ep) k)\<rparr>"
      by (simp add: k(2) joint_score_def Let_def ewma_cpu_def)
    then show ?thesis using tel convex_bounds w by (simp add: weights_ok_def Let_def)
  qed
  then show ?thesis using w hops so by (simp add: P list_all_iff comp_def weights_ok_def)
qed

theorem Joint_ranking_witness:
  "\<exists>r. r = fold (\<lambda>(c, l). SetWeights c l) [(3, 1), (0, 0)] NewJointRouter \<and> sorts ns_score (sort_key ns_score)
     \<and> keyed sample_nodes \<and> range_order sample_nodes [''a'', ''b''] \<and>
   sorted (map Rtt (Joint_Computing (sort_key ns_score) [''a'', ''b''] ''c'' sample_nodes Map.empty r sample_ends))"
  using Joint_ranking [OF sort_key_sorts sample_nodes_ok _ refl refl, where ws = "[(3, 1), (0, 0)]" and self = "''c''"
      and agg = Map.empty and ep = sample_ends]
    sort_key_sorts [of ns_score] sample_nodes_ok by (simp del: fold_simps)

end
