(* ===== verification/Routing.thy ===== *)
theory Routing
  imports Live_Style Carousel_Opt Edge_Routing
begin

text \<open>
  The front end of the routing algorithms: control-plane/routing/routing.go, which constructs a
  solver by the name of the algorithm and calls it, and the request handlers of
  control-plane/api/routing.go.

  A solver interface is an option, None its nil value. The outer option of a result is the fuel
  of the searches (None is running out), the sum inside it a panic. \<open>ks\<close> is the order in which
  the edges (or nodes) of the graph are iterated, \<open>srt\<close> the library's sort, \<open>perm\<close>, \<open>intn\<close> and
  \<open>flt\<close> the random source. Parsing the request body, the lookup of the location of an address
  and parsing floats are parameters.
\<close>

section \<open>Algorithms\<close>

definition KShortest :: string where "KShortest = ''k_shortest''"
definition CarouselGreedy :: string where "CarouselGreedy = ''carousel_greed''"
definition LiveStyle :: string where "LiveStyle = ''live_style''"
definition ONEWANMulti :: string where "ONEWANMulti = ''onewan_multi''"
definition CarouselGreedyMulti :: string where "CarouselGreedyMulti = ''carousel-greedy''"
definition Lyapunov :: string where "Lyapunov = ''lyapunov''"
definition LatencyOnly :: string where "LatencyOnly = ''latency_only''"
definition CPUOnly :: string where "CPUOnly = ''cpu_only''"
definition JointCpuLatency :: string where "JointCpuLatency = ''joint_cpu_latency''"
definition P2C :: string where "P2C = ''p2c''"
definition EWMABased :: string where "EWMABased = ''ewma_based''"

section \<open>One destination\<close>

type_synonym middle_operate = "string \<Rightarrow> string \<Rightarrow> PathInfo list result go option"

definition InitMiddleInterface :: "string list \<Rightarrow> GraphManager \<Rightarrow> string \<Rightarrow> middle_operate option" where
  "InitMiddleInterface ks g algorithm =
     (let es = GetEdges ks g
      in if algorithm = KShortest then Some (KShortest_solve es)
         else if algorithm = LiveStyle then Some (LiveStyle_solve es)
         else None)"

definition MiddleRouting :: "string list \<Rightarrow> GraphManager \<Rightarrow> EndPoints \<Rightarrow> string \<Rightarrow> RoutingInfo go option" where
  "MiddleRouting ks g endPoints algorithm =
     (case InitMiddleInterface ks g algorithm of
        None \<Rightarrow> Some (Inl NilDereference)
      | Some computing \<Rightarrow>
          map_option (map_sum id (\<lambda>r. case r of Inl err \<Rightarrow> \<lparr>Routing = []\<rparr> | Inr paths \<Rightarrow> \<lparr>Routing = paths\<rparr>))
            (computing (ep_IP (ep_Source endPoints)) (ep_IP (ep_Dest endPoints))))"

section \<open>The last hop\<close>

definition GetAggMap :: "GlobalStats \<Rightarrow> (string \<rightharpoonup> LastCongestion)" where
  "GetAggMap g = edgeAgg g"

record P2CRouter =
  p2c_nodeTel :: "string \<rightharpoonup> NodeTelemetry"
  p2c_edgeAgg :: "string \<rightharpoonup> LastCongestion"

definition NewP2CRouter :: "(string \<rightharpoonup> NodeTelemetry) \<Rightarrow> (string \<rightharpoonup> LastCongestion) \<Rightarrow> P2CRouter" where
  "NewP2CRouter nodeTel agg = \<lparr>p2c_nodeTel = nodeTel, p2c_edgeAgg = agg\<rparr>"

definition InitLastInterface :: "(nodeScore list \<Rightarrow> nodeScore list) \<Rightarrow> string list \<Rightarrow> string \<Rightarrow> GraphManager \<Rightarrow> GlobalStats \<Rightarrow> string
    \<Rightarrow> float64 \<Rightarrow> float64 \<Rightarrow> (EndPoints \<Rightarrow> PathInfo list) option" where
  "InitLastInterface srt ks self g a algorithm cw lw =
     (let ns = GetNodes g; agg = GetAggMap a
      in if algorithm = Lyapunov then Some (Lyapunov_Computing srt ks self ns agg)
         else if algorithm = LatencyOnly then Some (Joint_Computing srt ks self ns agg (SetWeights 0 1 NewJointRouter))
         else if algorithm = CPUOnly then Some (Joint_Computing srt ks self ns agg (SetWeights 1 0 NewJointRouter))
         else if algorithm = JointCpuLatency
           then Some (Joint_Computing srt ks self ns agg (if cw \<ge> 0 \<and> lw \<ge> 0 then SetWeights cw lw NewJointRouter else NewJointRouter))
         else if algorithm = P2C then Some (\<lambda>ep. P2C_Computing ks self (p2c_nodeTel (NewP2CRouter ns agg)))
         else if algorithm = EWMABased
           then Some (\<lambda>ep. fst (EWMA_Computing ks self ns agg (if cw \<ge> 0 \<and> lw \<ge> 0 then SetAlpha cw lw NewEWMARouter else NewEWMARouter) ep))
         else None)"

record IPInfoResult =
  info_IP :: string
  info_Country :: string
  info_Continent :: string
  info_Province :: string
  info_City :: string
  info_ISP :: string

text \<open>\<open>url.QueryEscape\<close>: letters, digits and four marks stand for themselves, a space becomes a plus
  sign, and every other byte its two upper-case hexadecimal digits.\<close>

definition unreserved :: "char \<Rightarrow> bool" where
  "unreserved c \<longleftrightarrow> (let n = (of_char c :: nat) in
     (48 \<le> n \<and> n \<le> 57) \<or> (65 \<le> n \<and> n \<le> 90) \<or> (97 \<le> n \<and> n \<le> 122)) \<or> c \<in> set ''-_.~''"

definition hex_digit :: "nat \<Rightarrow> char" where
  "hex_digit n = ''0123456789ABCDEF'' ! n"

definition QueryEscape :: "string \<Rightarrow> string" where
  "QueryEscape s = concat (map (\<lambda>c. if unreserved c then [c] else if c = CHR '' '' then ''+''
     else let n = (of_char c :: nat) in [CHR ''%'', hex_digit (n div 16), hex_digit (n mod 16)]) s)"

text \<open>\<open>get\<close> is the request to the location service with the decoding of its answer.\<close>

definition GetIPInfo :: "(string \<Rightarrow> IPInfoResult result) \<Rightarrow> string \<Rightarrow> string \<Rightarrow> IPInfoResult result" where
  "GetIPInfo get ipLib ip =
     (if ip = '''' then Inl ''ip is empty'' else get (ipLib @ ''/ip/info?ip='' @ QueryEscape ip))"

definition locate :: "IPInfoResult \<Rightarrow> EndPoints \<Rightarrow> EndPoints" where
  "locate r ep = ep\<lparr>ep_Source := (ep_Source ep)\<lparr>ep_Country := info_Country r, ep_City := info_City r, ep_Continent := info_Continent r\<rparr>\<rparr>"

definition LastRouting :: "(string \<Rightarrow> IPInfoResult result) \<Rightarrow> string \<Rightarrow> (nodeScore list \<Rightarrow> nodeScore list) \<Rightarrow> string list \<Rightarrow> string \<Rightarrow> GraphManager
    \<Rightarrow> GlobalStats \<Rightarrow> EndPoints \<Rightarrow> string \<Rightarrow> float64 \<Rightarrow> float64 \<Rightarrow> RoutingInfo go" where
  "LastRouting get ipLib srt ks self g a endPoints algorithm cw lw =
     (case GetIPInfo get ipLib (ep_IP (ep_Source endPoints)) of
        Inl err \<Rightarrow> Inr \<lparr>Routing = []\<rparr>
      | Inr info \<Rightarrow>
          (case InitLastInterface srt ks self g a algorithm cw lw of
             None \<Rightarrow> Inl NilDereference
           | Some computing \<Rightarrow> Inr \<lparr>Routing = computing (locate info endPoints)\<rparr>))"

section \<open>Several destinations\<close>

definition InitMiddleMultiInterface :: "(nat \<Rightarrow> nat \<Rightarrow> nat list) \<Rightarrow> (nat \<Rightarrow> nat \<Rightarrow> nat) \<Rightarrow> (nat \<Rightarrow> float64) \<Rightarrow> string list \<Rightarrow> GraphManager \<Rightarrow> string
    \<Rightarrow> (string \<Rightarrow> string list \<Rightarrow> PathInfo list result option) option" where
  "InitMiddleMultiInterface perm intn flt ks g algorithm =
     (let es = GetEdges ks g
      in if algorithm = ONEWANMulti then Some (\<lambda>start ends. Some (ONEWAN_ComputingMulti perm flt (NewONEWANSolver es 10) start ends))
         else if algorithm = CarouselGreedyMulti then Some (Carousel_ComputingMulti perm intn (NewFlowOptimizationSolver es))
         else None)"

definition MiddleRoutingMulti :: "(nat \<Rightarrow> nat \<Rightarrow> nat list) \<Rightarrow> (nat \<Rightarrow> nat \<Rightarrow> nat) \<Rightarrow> (nat \<Rightarrow> float64) \<Rightarrow> string list \<Rightarrow> GraphManager \<Rightarrow> string
    \<Rightarrow> string list \<Rightarrow> string \<Rightarrow> RoutingInfo option" where
  "MiddleRoutingMulti perm intn flt ks g start ends algorithm =
     (case InitMiddleMultiInterface perm intn flt ks g algorithm of
        None \<Rightarrow> Some \<lparr>Routing = []\<rparr>
      | Some computing \<Rightarrow> map_option (\<lambda>r. case r of Inl err \<Rightarrow> \<lparr>Routing = []\<rparr> | Inr paths \<Rightarrow> \<lparr>Routing = paths\<rparr>) (computing start ends))"

section \<open>The request handlers\<close>

text \<open>\<open>Data\<close> is an interface; None is nil, and its type depends on the handler.\<close>

record 'd ApiResponse =
  Code :: int
  Msg :: string
  Data :: "'d option"

record SourceTarget =
  ServerPort :: int
  st_Provider :: string
  st_IP :: string
  st_Port :: int
  st_Region :: string
  st_ID :: string

definition bad_request :: "string \<Rightarrow> 'd ApiResponse" where
  "bad_request err = \<lparr>Code = 400, Msg = ''Request body parsing failed: '' @ err, Data = None\<rparr>"

definition default_to :: "string \<Rightarrow> string \<Rightarrow> string" where
  "default_to d algorithm = (if algorithm = '''' then d else algorithm)"

definition origin_of :: "SourceTarget \<Rightarrow> string" where
  "origin_of source = st_IP source @ '':'' @ itoa_int (st_Port source)"

definition GetMiddleRoute :: "string list \<Rightarrow> (int \<rightharpoonup> SourceTarget) \<Rightarrow> GraphManager \<Rightarrow> EndPoints result \<Rightarrow> string \<Rightarrow> RoutingInfo ApiResponse go option" where
  "GetMiddleRoute ks sourceTargetMap g body algorithm =
     (case body of
        Inl err \<Rightarrow> Some (Inr (bad_request err))
      | Inr req \<Rightarrow>
          (case sourceTargetMap (ep_Port (ep_Dest req)) of
             None \<Rightarrow> Some (Inr (bad_request ''No corresponding port found''))
           | Some source \<Rightarrow>
               map_option (map_sum id (\<lambda>paths. \<lparr>Code = 200, Msg = ''Successfully obtained path'', Data = Some paths\<rparr>))
                 (MiddleRouting ks g (req\<lparr>ep_Dest := (ep_Dest req)\<lparr>ep_IP := origin_of source\<rparr>\<rparr>) (default_to KShortest algorithm))))"

definition query_weights :: "(string \<Rightarrow> float64 result) \<Rightarrow> string \<Rightarrow> string \<Rightarrow> string \<Rightarrow> float64 \<times> float64" where
  "query_weights parseFloat algorithm cpuStr latStr =
     (if algorithm = JointCpuLatency \<and> cpuStr \<noteq> '''' \<and> latStr \<noteq> ''''
      then case (parseFloat cpuStr, parseFloat latStr) of
             (Inr cpuVal, Inr latVal) \<Rightarrow> if cpuVal \<ge> 0 \<and> latVal \<ge> 0 then (cpuVal, latVal) else (1 / 2, 1 / 2)
           | _ \<Rightarrow> (1 / 2, 1 / 2)
      else (1 / 2, 1 / 2))"

definition GetLastRoute :: "(string \<Rightarrow> IPInfoResult result) \<Rightarrow> string \<Rightarrow> (string \<Rightarrow> float64 result) \<Rightarrow> (nodeScore list \<Rightarrow> nodeScore list) \<Rightarrow> string list
    \<Rightarrow> string \<Rightarrow> GraphManager \<Rightarrow> GlobalStats \<Rightarrow> EndPoints result \<Rightarrow> string \<Rightarrow> string \<Rightarrow> string \<Rightarrow> RoutingInfo ApiResponse go" where
  "GetLastRoute get ipLib parseFloat srt ks self g a body algorithm cpuStr latStr =
     (case body of
        Inl err \<Rightarrow> Inr (bad_request err)
      | Inr req \<Rightarrow>
          (let algorithm = default_to Lyapunov algorithm;
               (cw, lw) = query_weights parseFloat algorithm cpuStr latStr
           in map_sum id (\<lambda>paths. \<lparr>Code = 200, Msg = ''Successfully obtained path'', Data = Some paths\<rparr>)
                (LastRouting get ipLib srt ks self g a req algorithm cw lw)))"

record MultiDestRequest =
  md_Source :: EndPoint
  md_Dests :: "EndPoint list"

definition GetMiddleRouteMulti :: "(nat \<Rightarrow> nat \<Rightarrow> nat list) \<Rightarrow> (nat \<Rightarrow> nat \<Rightarrow> nat) \<Rightarrow> (nat \<Rightarrow> float64) \<Rightarrow> string list \<Rightarrow> GraphManager
    \<Rightarrow> MultiDestRequest result \<Rightarrow> string \<Rightarrow> RoutingInfo ApiResponse option" where
  "GetMiddleRouteMulti perm intn flt ks g body algorithm =
     (case body of
        Inl err \<Rightarrow> Some (bad_request err)
      | Inr req \<Rightarrow>
          map_option (\<lambda>paths. \<lparr>Code = 200, Msg = ''Successfully obtained paths'', Data = Some paths\<rparr>)
            (MiddleRoutingMulti perm intn flt ks g (ep_IP (md_Source req)) (map ep_IP (md_Dests req)) (default_to ONEWANMulti algorithm)))"

section \<open>Routes of the graph\<close>

definition follows_graph :: "GraphManager \<Rightarrow> string \<Rightarrow> string \<Rightarrow> PathInfo \<Rightarrow> bool" where
  "follows_graph g s t p \<longleftrightarrow> Hops p \<noteq> [] \<and> hd (Hops p) = s \<and> last (Hops p) = t \<and> distinct (Hops p)
     \<and> (\<forall>i. Suc i < length (Hops p) \<longrightarrow> GetEdge (edge_line (Hops p ! i) (Hops p ! Suc i)) g \<noteq> None)"

definition answer :: "PathInfo list result \<Rightarrow> PathInfo list" where
  "answer r = (case r of Inl err \<Rightarrow> [] | Inr paths \<Rightarrow> paths)"

lemma route_ok_ends: "live_route_ok E s t p \<Longrightarrow> Hops p \<noteq> [] \<and> hd (Hops p) = s \<and> last (Hops p) = t \<and> distinct (Hops p)"
  by (auto simp: live_route_ok_def simple_route_def walk_build [symmetric] last_walk_hops) (simp_all add: walk_hops_def)

lemma graph_good_edges:
  assumes "graph_ok g" "range_order (edges g) ks" "edge_names_ok (GetEdges ks g)"
  shows "good_edges EdgeWeight (GetEdges ks g)"
proof -
  have "0 \<le> EdgeWeight e" if "e \<in> set (GetEdges ks g)" for e
    using that assms(1) range_orderD(3) [OF assms(2)] by (fastforce simp: GetEdges_def graph_ok_def edge_ok_def)
  then show ?thesis using assms(3) by (auto simp: good_edges_def edge_names_ok_def list_all_iff)
qed

lemma walk_end_nodes: "edge_walk E s es t \<Longrightarrow> es \<noteq> [] \<Longrightarrow> s \<in> set (graph_nodes E) \<and> t \<in> set (graph_nodes E)"
proof (induction es arbitrary: s)
  case (Cons e es)
  then show ?case by (cases "es = []") (auto simp: graph_nodes_def)
qed simp

context middle_solver
begin

text \<open>A solver answers a request on a sound graph with routes of the graph, and fails to find one
  only where there is none.\<close>

lemma solve_graph:
  assumes "graph_ok g" "range_order (edges g) ks" "edge_names_ok (GetEdges ks g)"
  shows "\<exists>r. solve (GetEdges ks g) s t = Some (Inr r) \<and> length (answer r) \<le> most \<and> distinct (map Hops (answer r))
    \<and> list_all (follows_graph g s t) (answer r)
    \<and> (\<forall>err es. r = Inl err \<longrightarrow> es \<noteq> [] \<longrightarrow> \<not> edge_walk (GetEdges ks g) s es t)"
proof -
  note good = graph_good_edges [OF assms]
  from total [OF good, of s t] obtain r where r: "solve (GetEdges ks g) s t = Some (Inr r)" by blast
  show ?thesis
  proof (cases r)
    case (Inl err)
    then have "\<not> edge_walk (GetEdges ks g) s es t" if "es \<noteq> []" for es
      using r found [OF good, of s t err es] walk_end_nodes [OF _ that] by blast
    then show ?thesis using r Inl by (simp add: answer_def)
  next
    case (Inr ps)
    then have sol: "solve (GetEdges ks g) s t = Some (Inr (Inr ps))" using r by simp
    have "follows_graph g s t p" if "p \<in> set ps" for p
      using route_ok_ends [of "GetEdges ks g" s t p] route_in_graph [OF assms sol that] routes [OF good sol] that
      by (auto simp: follows_graph_def list_all_iff)
    then show ?thesis using r Inr routes [OF good sol] by (auto simp: answer_def list_all_iff)
  qed
qed

end

text \<open>The k-shortest solver never answers with an empty list.\<close>

lemma KShortest_nonempty:
  assumes "good_edges EdgeWeight E" "KShortest_solve E s t = Some (Inr (Inr ps))"
  shows "ps \<noteq> []"
proof -
  obtain A where A: "s \<in> set (graph_nodes E)" "yensAlgorithm (NewKShortestSolver E 3) s t (build_graph E) = Some (Inr A)"
    "ps = map (\<lambda>p. \<lparr>Hops = path_hops p, Rtt = path_cost p, RawRTT = 0\<rparr>) A"
    using assms(2) by (auto simp: KShortest_solve_eq split: if_splits option.splits sum.splits)
  show ?thesis using yens_Inr [OF assms(1) _ A(1,2)] A(3) by simp
qed

lemmas algorithm_names = KShortest_def LiveStyle_def CarouselGreedy_def

lemma GetMiddleRoute_known:
  assumes "sourceTargetMap (ep_Port (ep_Dest req)) = Some source"
  shows "GetMiddleRoute ks sourceTargetMap g (Inr req) algorithm =
    (if algorithm \<in> {'''', KShortest, LiveStyle}
     then map_option (map_sum id (\<lambda>r. \<lparr>Code = 200, Msg = ''Successfully obtained path'', Data = Some \<lparr>Routing = answer r\<rparr>\<rparr>))
            ((if algorithm = LiveStyle then LiveStyle_solve else KShortest_solve) (GetEdges ks g) (ep_IP (ep_Source req)) (origin_of source))
     else Some (Inl NilDereference))"
proof -
  have [simp]: "(case r of Inl err \<Rightarrow> \<lparr>Routing = []\<rparr> | Inr paths \<Rightarrow> \<lparr>Routing = paths\<rparr>) = \<lparr>Routing = answer r\<rparr>" for r
    by (simp add: answer_def split: sum.split)
  show ?thesis
    by (auto simp: GetMiddleRoute_def MiddleRouting_def InitMiddleInterface_def default_to_def assms algorithm_names
        option.map_comp comp_def sum.map_comp id_def)
qed

text \<open>The answer of the handler on a sound graph.\<close>

lemma GetMiddleRoute_answer:
  assumes ok: "graph_ok g"
    and ks: "range_order (edges g) ks" "edge_names_ok (GetEdges ks g)"
    and port: "sourceTargetMap (ep_Port (ep_Dest req)) = Some source"
    and alg: "algorithm \<in> {'''', KShortest, LiveStyle}"
  shows "\<exists>paths. GetMiddleRoute ks sourceTargetMap g (Inr req) algorithm =
        Some (Inr \<lparr>Code = 200, Msg = ''Successfully obtained path'', Data = Some \<lparr>Routing = paths\<rparr>\<rparr>)
    \<and> length paths \<le> 3 \<and> distinct (map Hops paths)
    \<and> list_all (follows_graph g (ep_IP (ep_Source req)) (origin_of source)) paths
    \<and> (algorithm \<noteq> LiveStyle \<and> paths = [] \<longrightarrow>
         (\<nexists>w. w \<noteq> [] \<and> edge_walk (GetEdges ks g) (ep_IP (ep_Source req)) w (origin_of source)))"
proof -
  let ?s = "ep_IP (ep_Source req)" and ?t = "origin_of source"
  note known = GetMiddleRoute_known [where sourceTargetMap = sourceTargetMap, OF port]
  show ?thesis
  proof (cases "algorithm = LiveStyle")
    case True
    from live.solve_graph [OF ok ks, of ?s ?t] obtain r where
      "LiveStyle_solve (GetEdges ks g) ?s ?t = Some (Inr r)" "length (answer r) \<le> 2" "distinct (map Hops (answer r))"
        "list_all (follows_graph g ?s ?t) (answer r)" by blast
    then show ?thesis using True by (simp add: known)
  next
    case False
    from ksp.solve_graph [OF ok ks, of ?s ?t] obtain r where
      r: "KShortest_solve (GetEdges ks g) ?s ?t = Some (Inr r)" "length (answer r) \<le> 3" "distinct (map Hops (answer r))"
        "list_all (follows_graph g ?s ?t) (answer r)"
        "\<forall>err w. r = Inl err \<longrightarrow> w \<noteq> [] \<longrightarrow> \<not> edge_walk (GetEdges ks g) ?s w ?t" by blast
    have "\<nexists>w. w \<noteq> [] \<and> edge_walk (GetEdges ks g) ?s w ?t" if "answer r = []"
      using that r(1,5) KShortest_nonempty [OF graph_good_edges [OF ok ks], of ?s ?t]
      by (cases r) (auto simp: answer_def)
    then show ?thesis using r False alg by (simp add: known)
  qed
qed

section \<open>The last hop covers the nodes\<close>

text \<open>The contract of a router for the last hop: each known node is an answer exactly once.\<close>

locale last_router =
  fixes route :: "(nodeScore list \<Rightarrow> nodeScore list) \<Rightarrow> string list \<Rightarrow> (string \<rightharpoonup> NodeTelemetry) \<Rightarrow> (string \<rightharpoonup> LastCongestion)
    \<Rightarrow> EndPoints \<Rightarrow> PathInfo list"
  assumes covers: "sorts ns_score srt \<Longrightarrow> keyed ns \<Longrightarrow> range_order ns ks \<Longrightarrow> ks \<noteq> [] \<Longrightarrow>
    mset (map Hops (route srt ks ns agg ep)) = mset (map (\<lambda>k. [k]) ks)"

interpretation lyapunov: last_router "\<lambda>srt ks ns agg. Lyapunov_Computing srt ks self ns agg" for self
proof
  fix srt :: "nodeScore list \<Rightarrow> nodeScore list" and ks ns agg ep
  assume "sorts ns_score srt" "keyed ns" "range_order ns ks" "ks \<noteq> []"
  from Lyapunov_eq [OF this(2-4,1), of self agg ep] obtain cs :: "nodeScore list" where
    cs: "mset (map ns_nodeIp cs) = mset ks" "map Hops (Lyapunov_Computing srt ks self ns agg ep) = map (\<lambda>c. [ns_nodeIp c]) cs"
    by blast
  show "mset (map Hops (Lyapunov_Computing srt ks self ns agg ep)) = mset (map (\<lambda>k. [k]) ks)"
    unfolding cs(2) by (rule singleton_hops [OF cs(1)])
qed

interpretation joint: last_router "\<lambda>srt ks ns agg. Joint_Computing srt ks self ns agg r" for self r
  by unfold_locales (rule Joint_eq(2) [OF _ _ _ _ refl])

interpretation power: last_router "\<lambda>srt ks ns agg ep. P2C_Computing ks self ns" for self
  by unfold_locales (simp add: P2C_Computing_def Let_def comp_def node_ips_keyed)

text \<open>The EWMA router is created for each request, without history.\<close>

lemma EWMA_hops:
  assumes "keyed ns" "range_order ns ks" "ks \<noteq> []" "cpuEWMA r = Map.empty" "latEWMA r = Map.empty"
  shows "mset (map Hops (fst (EWMA_Computing ks self ns agg r ep))) = mset (map (\<lambda>k. [k]) ks)"
proof -
  let ?obs = "ewma_observed ns agg (ep_Source ep)"
  have k: "\<exists>c. ?obs k = Some c \<and> es_nodeIp c = k" if "k \<in> set ks" for k
    using range_orderD(3) [OF assms(2) that] by (auto simp: ewma_observed_def)
  have "fst (ewma_pass ns agg (ep_Source ep) ks r) = List.map_filter ?obs ks"
    using assms(4,5) range_orderD(1) [OF assms(2)] by (intro ewma_pass_fresh) auto
  also have "\<dots> = map (the \<circ> ?obs) ks" by (rule map_filter_total) (use k in blast)
  finally obtain r' where r': "ewma_pass ns agg (ep_Source ep) ks r = (map (the \<circ> ?obs) ks, r')" by (metis prod.collapse)
  let ?cs = "exchange_sort (combined (lambda r)) (map (the \<circ> ?obs) ks)"
  have hops: "map Hops (fst (EWMA_Computing ks self ns agg r ep)) = map (\<lambda>c. [es_nodeIp c]) ?cs"
    using assms(3) by (simp add: EWMA_Computing_def node_ips_keyed [OF assms(1-3)] r' Let_def)
  have "map es_nodeIp (map (the \<circ> ?obs) ks) = ks" unfolding map_map by (rule map_idI) (use k in fastforce)
  then have "mset (map es_nodeIp ?cs) = mset ks" by (metis exchange_sort_correct(1) mset_map)
  from singleton_hops [OF this] show ?thesis unfolding hops .
qed

definition EWMA_fresh :: "float64 \<Rightarrow> float64 \<Rightarrow> EWMARouter" where
  "EWMA_fresh cw lw = (if cw \<ge> 0 \<and> lw \<ge> 0 then SetAlpha cw lw NewEWMARouter else NewEWMARouter)"

interpretation average: last_router "\<lambda>srt ks ns agg ep. fst (EWMA_Computing ks self ns agg (EWMA_fresh cw lw) ep)" for self cw lw
  by unfold_locales (rule EWMA_hops, simp_all add: EWMA_fresh_def SetAlpha_def NewEWMARouter_def)

definition last_algorithms :: "string list" where
  "last_algorithms = [Lyapunov, LatencyOnly, CPUOnly, JointCpuLatency, P2C, EWMABased]"

lemma InitLast_unknown: "InitLastInterface srt ks self g a algorithm cw lw = None \<longleftrightarrow> algorithm \<notin> set last_algorithms"
  by (simp add: InitLastInterface_def last_algorithms_def Let_def)

lemma InitLast_covers:
  assumes "InitLastInterface srt ks self g a algorithm cw lw = Some computing"
    and "sorts ns_score srt" "keyed (nodes g)" "range_order (nodes g) ks" "ks \<noteq> []"
  shows "mset (map Hops (computing ep)) = mset (map (\<lambda>k. [k]) ks)"
  using assms(1) lyapunov.covers [OF assms(2-5)] joint.covers [OF assms(2-5)] power.covers [OF assms(2-5)]
    average.covers [OF assms(2-5), where cw = cw and lw = lw]
  by (auto simp: InitLastInterface_def Let_def GetNodes_def EWMA_fresh_def NewP2CRouter_def split: if_splits)

section \<open>Nodes under their own address\<close>

lemma keyed_upd: "keyed m \<Longrightarrow> keyed (m(PublicIP n \<mapsto> n))"
  by (simp add: keyed_def)

interpretation named: state_machine graph_step "\<lambda>e. True" "\<lambda>g. graph_ok g \<and> keyed (nodes g)"
proof
  fix e g assume g: "graph_ok g \<and> keyed (nodes g)"
  show "\<exists>g'. graph_step e g = Inr g' \<and> graph_ok g' \<and> keyed (nodes g')"
  proof (cases e)
    case (AddE node ks)
    then show ?thesis using g AddNode_ok AddNode_nodes keyed_upd by simp
  next
    case (RemoveE i)
    then show ?thesis using g RemoveNode_ok by (auto simp: keyed_def RemoveNode_def)
  qed
qed

lemma graph_run_ok:
  assumes "go_run graph_step es NewGraphManager = Inr g"
  shows "graph_ok g" "keyed (nodes g)"
  using named.run_inv [of NewGraphManager es] graph_ok_init assms
  by (auto simp: keyed_def NewGraphManager_def list_all_iff)

section \<open>Properties\<close>

text \<open>C15. A request for a route through the core, on a graph built by any sequence of telemetry
  updates, whose port is configured and whose algorithm is one of the two that exist, is answered
  with code 200 and at most three different paths. Each runs from the source of the request to
  the configured origin server, visits no node twice and follows edges of the graph. With the
  default algorithm the answer is empty only when no route exists.\<close>

theorem GetMiddleRoute_routes:
  assumes run: "go_run graph_step es NewGraphManager = Inr g"
    and ks: "range_order (edges g) ks" "edge_names_ok (GetEdges ks g)"
    and port: "sourceTargetMap (ep_Port (ep_Dest req)) = Some source"
    and alg: "algorithm \<in> {'''', KShortest, LiveStyle}"
  shows "\<exists>paths. GetMiddleRoute ks sourceTargetMap g (Inr req) algorithm =
        Some (Inr \<lparr>Code = 200, Msg = ''Successfully obtained path'', Data = Some \<lparr>Routing = paths\<rparr>\<rparr>)
    \<and> length paths \<le> 3 \<and> distinct (map Hops paths)
    \<and> list_all (follows_graph g (ep_IP (ep_Source req)) (origin_of source)) paths
    \<and> (algorithm \<noteq> LiveStyle \<and> paths = [] \<longrightarrow>
         (\<nexists>w. w \<noteq> [] \<and> edge_walk (GetEdges ks g) (ep_IP (ep_Source req)) w (origin_of source)))"
  using graph_run_ok(1) [OF run] ks port alg by (rule GetMiddleRoute_answer)

text \<open>One node that has measured one origin server.\<close>

definition origin_link :: LinkCongestion where
  "origin_link = (sample_link 10)\<lparr>Target := (Target (sample_link 10))\<lparr>TargetType := ''source'', task_IP := ''o'', task_TargetPort := 80\<rparr>\<rparr>"

definition sample_events :: "graph_event list" where
  "sample_events = [AddE (sample_node ''a'' [''o'' \<mapsto> origin_link]) [''o'']]"

definition sample_source :: SourceTarget where
  "sample_source = \<lparr>ServerPort = 8080, st_Provider = '''', st_IP = ''o'', st_Port = 80, st_Region = '''', st_ID = ''''\<rparr>"

definition sample_route_request :: EndPoints where
  "sample_route_request = \<lparr>ep_Source = (ep_Source sample_ends)\<lparr>ep_IP := ''a''\<rparr>, ep_Dest = (ep_Dest sample_ends)\<lparr>ep_Port := 8080\<rparr>\<rparr>"

lemma port_80: "itoa_int 80 = ''80''"
  by code_simp

lemma sample_run:
  "\<exists>g e. go_run graph_step sample_events NewGraphManager = Inr g \<and> nodes g = [''a'' \<mapsto> sample_node ''a'' [''o'' \<mapsto> origin_link]]
     \<and> edges g = [''a->o:80'' \<mapsto> e] \<and> SourceIp e = ''a'' \<and> DestinationIp e = ''o:80''"
  by (simp add: sample_events_def AddNode_def add_link_def link_edge_def edge_line_def NewGraphManager_def
      sample_node_def origin_link_def sample_link_def port_80 Let_def) (intro exI conjI, rule refl, simp_all)

theorem GetMiddleRoute_routes_witness:
  "\<exists>g paths. go_run graph_step sample_events NewGraphManager = Inr g \<and> range_order (edges g) [''a->o:80'']
     \<and> GetMiddleRoute [''a->o:80''] [8080 \<mapsto> sample_source] g (Inr sample_route_request) '''' =
         Some (Inr \<lparr>Code = 200, Msg = ''Successfully obtained path'', Data = Some \<lparr>Routing = paths\<rparr>\<rparr>)
     \<and> paths \<noteq> [] \<and> list_all (follows_graph g ''a'' ''o:80'') paths"
proof -
  obtain g e where g: "go_run graph_step sample_events NewGraphManager = Inr g" "edges g = [''a->o:80'' \<mapsto> e]"
    "SourceIp e = ''a''" "DestinationIp e = ''o:80''" using sample_run by blast
  have E: "GetEdges [''a->o:80''] g = [e]" using g(2) by (simp add: GetEdges_def)
  have ks: "range_order (edges g) [''a->o:80'']" "edge_names_ok (GetEdges [''a->o:80''] g)"
    using g by (auto simp: range_order_def E edge_names_ok_def name_ok_def)
  have r: "ep_IP (ep_Source sample_route_request) = ''a''" "origin_of sample_source = ''o:80''" "([8080 \<mapsto> sample_source] :: int \<rightharpoonup> SourceTarget) (ep_Port (ep_Dest sample_route_request)) = Some sample_source"
    by (simp_all add: sample_route_request_def origin_of_def sample_source_def port_80)
  have "\<exists>w. w \<noteq> [] \<and> edge_walk [e] ''a'' w ''o:80''" using g by (intro exI [of _ "[e]"]) simp
  then show ?thesis
    using GetMiddleRoute_routes [where sourceTargetMap = "[8080 \<mapsto> sample_source]", OF g(1) ks r(3), of "''''"] g(1) ks(1)
    unfolding r E by (simp only: LiveStyle_def) blast
qed

text \<open>C16. A request for the last hop, on a graph built by any sequence of telemetry updates that
  knows at least one node, lists each known node exactly once, whichever of the six algorithms
  is asked for. With any other name the handler dereferences nil; \<open>ewma\<close>, which README.md lists among
  the names, is such a name, because the code knows the algorithm as \<open>ewma_based\<close>. The location of
  the client comes from a service, which is taken to have answered.\<close>

theorem GetLastRoute_covers:
  assumes run: "go_run graph_step es NewGraphManager = Inr g"
    and ks: "range_order (nodes g) ks" "ks \<noteq> []"
    and srt: "sorts ns_score srt"
    and info: "GetIPInfo get ipLib (ep_IP (ep_Source req)) = Inr info"
  shows "if default_to Lyapunov algorithm \<in> set last_algorithms
     then \<exists>paths. GetLastRoute get ipLib parseFloat srt ks self g a (Inr req) algorithm cpuStr latStr =
              Inr \<lparr>Code = 200, Msg = ''Successfully obtained path'', Data = Some \<lparr>Routing = paths\<rparr>\<rparr>
            \<and> mset (map Hops paths) = mset (map (\<lambda>k. [k]) ks)
     else GetLastRoute get ipLib parseFloat srt ks self g a (Inr req) algorithm cpuStr latStr = Inl NilDereference"
proof -
  let ?alg = "default_to Lyapunov algorithm"
  obtain cw lw where w: "query_weights parseFloat ?alg cpuStr latStr = (cw, lw)" by fastforce
  have R: "GetLastRoute get ipLib parseFloat srt ks self g a (Inr req) algorithm cpuStr latStr =
      (case InitLastInterface srt ks self g a ?alg cw lw of None \<Rightarrow> Inl NilDereference
       | Some computing \<Rightarrow> Inr \<lparr>Code = 200, Msg = ''Successfully obtained path'',
           Data = Some \<lparr>Routing = computing (locate info req)\<rparr>\<rparr>)"
    by (simp add: GetLastRoute_def LastRouting_def w info split: option.split)
  show ?thesis
  proof (cases "InitLastInterface srt ks self g a ?alg cw lw")
    case None
    then show ?thesis using InitLast_unknown [of srt ks self g a ?alg cw lw] by (simp add: R)
  next
    case (Some computing)
    then have "?alg \<in> set last_algorithms" using InitLast_unknown [of srt ks self g a ?alg cw lw] by simp
    moreover note InitLast_covers [OF Some srt graph_run_ok(2) [OF run] ks, of "locate info req"]
    ultimately show ?thesis using Some by (simp add: R)
  qed
qed

lemma documented_names:
  "''ewma'' \<notin> set last_algorithms" "set [''p2c'', ''lyapunov'', ''joint_cpu_latency''] \<subseteq> set last_algorithms"
  by (simp_all add: last_algorithms_def Lyapunov_def LatencyOnly_def CPUOnly_def JointCpuLatency_def P2C_def EWMABased_def)

theorem GetLastRoute_covers_witness:
  "\<exists>g paths get. go_run graph_step sample_events NewGraphManager = Inr g \<and> range_order (nodes g) [''a'']
     \<and> sorts ns_score (sort_key ns_score)
     \<and> GetIPInfo get ''lib'' (ep_IP (ep_Source sample_route_request)) =
         Inr \<lparr>info_IP = ''a'', info_Country = '''', info_Continent = ''Asia'', info_Province = '''', info_City = ''x'', info_ISP = ''''\<rparr>
     \<and> GetLastRoute get ''lib'' (\<lambda>s. Inl ''invalid'') (sort_key ns_score) [''a''] ''c'' g NewGlobalStats (Inr sample_route_request) ''p2c'' '''' '''' =
         Inr \<lparr>Code = 200, Msg = ''Successfully obtained path'', Data = Some \<lparr>Routing = paths\<rparr>\<rparr>
     \<and> mset (map Hops paths) = {#[''a'']#}"
proof -
  obtain g where g: "go_run graph_step sample_events NewGraphManager = Inr g" "dom (nodes g) = {''a''}" using sample_run by fastforce
  let ?info = "\<lparr>info_IP = ''a'', info_Country = '''', info_Continent = ''Asia'', info_Province = '''', info_City = ''x'', info_ISP = ''''\<rparr>"
  let ?get = "\<lambda>url :: string. Inr ?info :: IPInfoResult result"
  have ks: "range_order (nodes g) [''a'']" using g(2) by (simp add: range_order_def)
  have info: "GetIPInfo ?get ''lib'' (ep_IP (ep_Source sample_route_request)) = Inr ?info" by (simp add: GetIPInfo_def sample_route_request_def)
  have alg: "default_to Lyapunov ''p2c'' \<in> set last_algorithms" by (simp add: default_to_def last_algorithms_def P2C_def)
  note C = GetLastRoute_covers [where get = ?get, OF g(1) ks _ sort_key_sorts info, where algorithm = "''p2c''" and parseFloat = "\<lambda>s. Inl ''invalid''"
      and self = "''c''" and a = NewGlobalStats and cpuStr = "''''" and latStr = "''''", unfolded if_P [OF alg]]
  then obtain paths where "GetLastRoute ?get ''lib'' (\<lambda>s. Inl ''invalid'') (sort_key ns_score) [''a''] ''c'' g NewGlobalStats (Inr sample_route_request) ''p2c'' '''' '''' =
         Inr \<lparr>Code = 200, Msg = ''Successfully obtained path'', Data = Some \<lparr>Routing = paths\<rparr>\<rparr>" "mset (map Hops paths) = mset (map (\<lambda>k. [k]) [''a''])"
    by blast
  then have "mset (map Hops paths) = {#[''a'']#}" by simp
  show ?thesis
    by (intro exI conjI) (rule g(1) ks sort_key_sorts info | fact)+
qed

end
