(* ===== verification/Control_Plane.thy ===== *)
theory Control_Plane
  imports Routing "HOL-Library.Word"
begin

text \<open>
  The control plane around the graph and the aggregates: the handlers that receive reports
  (control-plane/api/node.go, edge.go), the probe tasks (api/probing.go), the etcd client
  (sync/etcd_client) with its watch events, their handlers and the initial load (main.go), and
  the locked map of util/safe-map.go.

  etcd is a record of functions over a client state of any type, an event has the fields that its
  client library delivers, and JSON encoding and decoding are parameters. A goroutine that a
  handler starts is a value of its result, or a pending task of the state.
\<close>

section \<open>Reports of a machine\<close>

record MemoryInfo =
  mem_Total :: "64 word"
  mem_Used :: "64 word"
  mem_Free :: "64 word"
  mem_Usage :: float64

record DiskInfo =
  disk_Total :: "64 word"
  disk_Used :: "64 word"
  disk_Free :: "64 word"
  disk_Usage :: float64
  disk_Path :: string

record NetworkInfo =
  net_PublicIP :: string
  net_PrivateIP :: string
  net_PortCount :: int
  net_TrafficIn :: "64 word"
  net_TrafficOut :: "64 word"

record OSInfo =
  OSName :: string
  KernelVer :: string
  Hostname :: string
  BootTime :: int

record ProcessDetail =
  PID :: int
  proc_Name :: string
  proc_Usage :: float64

record ProcessInfo =
  ActiveCount :: int
  TopCPU :: "ProcessDetail list"
  TopMem :: "ProcessDetail list"

text \<open>The whole report; None is the zero time.\<close>

record vm_report = VMReport +
  VMID :: string
  CollectTime :: "int option"
  ReportID :: string
  report_Memory :: MemoryInfo
  report_Disk :: DiskInfo
  report_Network :: NetworkInfo
  report_OS :: OSInfo
  report_Process :: ProcessInfo

section \<open>The etcd client\<close>

record 'e etcd =
  Grant :: "int \<Rightarrow> 'e \<Rightarrow> int result \<times> 'e"
  Put :: "string \<Rightarrow> string \<Rightarrow> int option \<Rightarrow> 'e \<Rightarrow> unit result \<times> 'e"
  Get_prefix :: "string \<Rightarrow> 'e \<Rightarrow> (string \<times> string) list result"

definition PutKey :: "'e etcd \<Rightarrow> string \<Rightarrow> string \<Rightarrow> 'e \<Rightarrow> 'e" where
  "PutKey cli key value e = snd (Put cli key value None e)"

definition PutKeyWithLease :: "'e etcd \<Rightarrow> string \<Rightarrow> string \<Rightarrow> int \<Rightarrow> 'e \<Rightarrow> unit result \<times> 'e" where
  "PutKeyWithLease cli key value ttlSeconds e =
     (case Grant cli ttlSeconds e of
        (Inl err, e) \<Rightarrow> (Inl err, e)
      | (Inr lease, e) \<Rightarrow> Put cli key value (Some lease) e)"

definition GetPrefixAll :: "'e etcd \<Rightarrow> string \<Rightarrow> 'e \<Rightarrow> (string \<rightharpoonup> string) result" where
  "GetPrefixAll cli pfx e =
     (case Get_prefix cli pfx e of
        Inl err \<Rightarrow> Inl err
      | Inr kvs \<Rightarrow> Inr (fold (\<lambda>(key, value) m. m(key \<mapsto> value)) kvs Map.empty))"

datatype EventType = EventTypePut | EventTypeDelete

record etcd_event =
  ev_Type :: EventType
  ev_IsCreate :: bool
  ev_IsModify :: bool
  ev_Key :: string
  ev_Value :: string

text \<open>The name of an event and the arguments of the callback.\<close>

definition watch_type :: "etcd_event \<Rightarrow> string" where
  "watch_type ev =
     (case ev_Type ev of
        EventTypePut \<Rightarrow> if ev_IsCreate ev then ''CREATE'' else if ev_IsModify ev then ''UPDATE'' else ''''
      | EventTypeDelete \<Rightarrow> ''DELETE'')"

definition WatchPrefix :: "(string \<Rightarrow> string \<Rightarrow> string \<Rightarrow> 's \<Rightarrow> 's) \<Rightarrow> etcd_event list \<Rightarrow> 's \<Rightarrow> 's" where
  "WatchPrefix callback evs s = fold (\<lambda>ev. callback (watch_type ev) (ev_Key ev) (ev_Value ev)) evs s"

section \<open>Receiving reports\<close>

definition validate :: "vm_report \<Rightarrow> string list" where
  "validate r =
     (if VMID r = '''' then [''VMID cannot be empty''] else []) @
     (if PhysicalCore (report_CPU r) < 0 then [''CPU physical core count cannot be negative''] else []) @
     (if LogicalCore (report_CPU r) < 0 then [''CPU logical core count cannot be negative''] else []) @
     (if net_PublicIP (report_Network r) = ''''
      then [''Public IP (public_ip) cannot be empty, use '' @ [CHR 0x22] @ ''no-public-ip'' @ [CHR 0x22] @ '' if none''] else []) @
     (if mem_Total (report_Memory r) = 0 then [''Total memory (total) cannot be 0''] else [])"

definition with_defaults :: "int \<Rightarrow> string \<Rightarrow> vm_report \<Rightarrow> vm_report" where
  "with_defaults now uuid r =
     (let r = (if CollectTime r = None then r\<lparr>CollectTime := Some now\<rparr> else r);
          r = (if ReportID r = '''' then r\<lparr>ReportID := uuid\<rparr> else r)
      in if net_PortCount (report_Network r) < 0 then r\<lparr>report_Network := (report_Network r)\<lparr>net_PortCount := 0\<rparr>\<rparr> else r)"

text \<open>\<open>body\<close> is the data field of the decoded request. The second result is the report that the
  goroutine is started with.\<close>

definition PostVMReceive :: "('d \<Rightarrow> string result) \<Rightarrow> (string \<Rightarrow> vm_report result) \<Rightarrow> int \<Rightarrow> string \<Rightarrow> 'd result
    \<Rightarrow> (string \<times> int option) ApiResponse \<times> vm_report option" where
  "PostVMReceive marshal unmarshal now uuid body =
     (case body of
        Inl err \<Rightarrow> (\<lparr>Code = 400, Msg = ''Request format error: Not a valid ApiResponse structure - '' @ err, Data = None\<rparr>, None)
      | Inr d \<Rightarrow>
          (case marshal d of
             Inl err \<Rightarrow> (\<lparr>Code = 400, Msg = ''Request Data field format error: Cannot serialize to JSON - '' @ err, Data = None\<rparr>, None)
           | Inr bytes \<Rightarrow>
               (case unmarshal bytes of
                  Inl err \<Rightarrow> (\<lparr>Code = 400, Msg = ''Data field parsing failed: Not a valid VMReport structure - '' @ err, Data = None\<rparr>, None)
                | Inr report \<Rightarrow>
                    if validate report \<noteq> []
                    then (\<lparr>Code = 400, Msg = ''VMReport parameter validation failed: '' @ strings_join ''; '' (validate report), Data = None\<rparr>, None)
                    else let report = with_defaults now uuid report
                         in (\<lparr>Code = 200, Msg = ''VM information reported successfully'',
                              Data = Some (ReportID report, CollectTime report)\<rparr>, Some report))))"

definition expireTime :: int where "expireTime = 1"

text \<open>\<open>DoClusterWeightedAvg\<close> with its write to etcd.\<close>

definition push_telemetry :: "(NodeTelemetry \<Rightarrow> string result) \<Rightarrow> 'e etcd \<Rightarrow> NodeTelemetry \<Rightarrow> vm_report \<Rightarrow> 'e \<Rightarrow> 'e" where
  "push_telemetry marshal cli self report e =
     (case marshal (DoClusterWeightedAvg self (VMReport.truncate report)) of
        Inl err \<Rightarrow> e
      | Inr jsonData \<Rightarrow> snd (PutKeyWithLease cli (''/routing-middle/'' @ PublicIP self) jsonData (60 * expireTime) e))"

definition lastExpireTime :: int where "lastExpireTime = 1"

definition PostLastReceive :: "('d \<Rightarrow> string result) \<Rightarrow> (string \<Rightarrow> LastTelemetry result) \<Rightarrow> 'e etcd \<Rightarrow> string \<Rightarrow> 'd result \<Rightarrow> 'e
    \<Rightarrow> nat ApiResponse \<times> 'e" where
  "PostLastReceive marshal unmarshal cli ip body e =
     (case body of
        Inl err \<Rightarrow> (\<lparr>Code = 400, Msg = ''Request format error: '' @ err, Data = None\<rparr>, e)
      | Inr d \<Rightarrow>
          (case marshal d of
             Inl err \<Rightarrow> (\<lparr>Code = 400, Msg = ''Request Data field format error: '' @ err, Data = None\<rparr>, e)
           | Inr reqDataBytes \<Rightarrow>
               (case unmarshal reqDataBytes of
                  Inl err \<Rightarrow> (\<lparr>Code = 400, Msg = ''Data field parsing failed: '' @ err, Data = None\<rparr>, e)
                | Inr lastStats \<Rightarrow>
                    (\<lparr>Code = 200, Msg = ''LastStats reported successfully'', Data = Some (card (dom (LastsCongestion lastStats)))\<rparr>,
                     snd (PutKeyWithLease cli (''/routing-last/'' @ ip) reqDataBytes (60 * lastExpireTime) e)))))"

section \<open>Probe tasks\<close>

definition source_target_map :: "SourceTarget list \<Rightarrow> (int \<rightharpoonup> SourceTarget)" where
  "source_target_map targets = fold (\<lambda>v m. m(ServerPort v \<mapsto> v)) targets Map.empty"

text \<open>\<open>exePath\<close> is the path of the program, \<open>target\<close> the path of the file beside it, \<open>readFile\<close> the
  file system.\<close>

definition LoadSourceTargetsFromExeDir :: "(string \<Rightarrow> string) \<Rightarrow> (string \<Rightarrow> string result) \<Rightarrow> (string \<Rightarrow> SourceTarget list result)
    \<Rightarrow> string result \<Rightarrow> (int \<rightharpoonup> SourceTarget) result" where
  "LoadSourceTargetsFromExeDir target readFile unmarshal exePath =
     (case exePath of
        Inl err \<Rightarrow> Inl (''get executable path failed: '' @ err)
      | Inr p \<Rightarrow>
          (case readFile (target p) of
             Inl err \<Rightarrow> Inl (''read cloud storage targets file failed ('' @ target p @ ''): '' @ err)
           | Inr data \<Rightarrow>
               (case unmarshal data of
                  Inl err \<Rightarrow> Inl (''unmarshal cloud storage targets failed: '' @ err)
                | Inr targets \<Rightarrow> Inr (source_target_map targets))))"

definition node_task :: "(string \<Rightarrow> NodeTelemetry result) \<Rightarrow> string \<Rightarrow> string \<Rightarrow> ProbeTask option" where
  "node_task unmarshal self nodeJson =
     (case unmarshal nodeJson of
        Inl err \<Rightarrow> None
      | Inr telemetry \<Rightarrow>
          if PublicIP telemetry = self then None
          else Some \<lparr>TargetType = ''node'', task_Provider = node_Provider telemetry, task_IP = PublicIP telemetry,
                     task_TargetPort = 7083, task_Region = node_Continent telemetry, task_ID = ''''\<rparr>)"

definition source_task :: "SourceTarget \<Rightarrow> ProbeTask" where
  "source_task v = \<lparr>TargetType = ''source'', task_Provider = st_Provider v, task_IP = st_IP v, task_TargetPort = st_Port v,
     task_Region = st_Region v, task_ID = st_ID v\<rparr>"

text \<open>\<open>ks\<close> and \<open>ps\<close> are the orders in which the nodes and the origin servers are iterated.\<close>

definition GetProbeTasks :: "(string \<Rightarrow> NodeTelemetry result) \<Rightarrow> string \<Rightarrow> (int \<rightharpoonup> SourceTarget) \<Rightarrow> ((string \<rightharpoonup> string) \<Rightarrow> string list) \<Rightarrow> int list
    \<Rightarrow> (string \<rightharpoonup> string) result \<Rightarrow> ProbeTask list ApiResponse" where
  "GetProbeTasks unmarshal self sourceTargetMap ks ps nodes' =
     (case nodes' of
        Inl err \<Rightarrow> \<lparr>Code = 500, Msg = ''Failed to get node information: '' @ err, Data = None\<rparr>
      | Inr nodeMap \<Rightarrow>
          \<lparr>Code = 200, Msg = ''Successfully obtained node probe tasks'',
           Data = Some (List.map_filter (\<lambda>k. node_task unmarshal self (the (nodeMap k))) (ks nodeMap)
                        @ map (\<lambda>p. source_task (the (sourceTargetMap p))) ps)\<rparr>)"

section \<open>Watch events\<close>

definition zero_telemetry :: NodeTelemetry where
  "zero_telemetry = \<lparr>PublicIP = '''', node_Provider = '''', node_Continent = '''', node_Country = '''', node_City = '''',
     CpuPressure = 0, Cpu = \<lparr>PhysicalCore = 0, LogicalCore = 0, Usage = 0, Load1Min = 0, LoadDelta = 0\<rparr>, LinksCongestion = Map.empty\<rparr>"

definition zero_last :: LastTelemetry where
  "zero_last = \<lparr>LastsCongestion = Map.empty, last_IP = '''', last_Continent = '''', last_Country = '''', last_City = ''''\<rparr>"

text \<open>\<open>lks\<close> is the order in which the links of a node are iterated.\<close>

definition HandleRoutingWatchEvent :: "(string \<Rightarrow> NodeTelemetry result) \<Rightarrow> (NodeTelemetry \<Rightarrow> string list) \<Rightarrow> string \<Rightarrow> string \<Rightarrow> string
    \<Rightarrow> GraphManager \<Rightarrow> GraphManager" where
  "HandleRoutingWatchEvent unmarshal lks eventType key val r =
     (case (if length val > 0 then unmarshal val else Inr zero_telemetry) of
        Inl err \<Rightarrow> r
      | Inr tel \<Rightarrow>
          if eventType = ''CREATE'' \<or> eventType = ''UPDATE'' then AddNode tel (lks tel) r
          else if eventType = ''DELETE'' then RemoveNode (PublicIP tel) r
          else r)"

text \<open>The second result says whether a rebuild is started.\<close>

definition HandleLastWatchEvent :: "(string \<Rightarrow> LastTelemetry result) \<Rightarrow> string \<Rightarrow> string \<Rightarrow> string \<Rightarrow> GlobalStats \<Rightarrow> GlobalStats \<times> bool" where
  "HandleLastWatchEvent unmarshal eventType key val g =
     (case (if length val > 0 then unmarshal val else Inr zero_last) of
        Inl err \<Rightarrow> (g, False)
      | Inr lastStats \<Rightarrow>
          if eventType = ''CREATE'' \<or> eventType = ''UPDATE'' then (AddOrUpdateNode lastStats g, True)
          else if eventType = ''DELETE'' then (DelNode (last_IP lastStats) g, True)
          else (g, False))"

text \<open>The initial load of \<open>main\<close>, over the keys in the order of the iteration.\<close>

definition load_nodes :: "(string \<Rightarrow> NodeTelemetry result) \<Rightarrow> (NodeTelemetry \<Rightarrow> string list) \<Rightarrow> string list \<Rightarrow> (string \<rightharpoonup> string) result \<Rightarrow> GraphManager" where
  "load_nodes unmarshal lks ks nodeMap =
     (case nodeMap of
        Inl err \<Rightarrow> NewGraphManager
      | Inr m \<Rightarrow> fold (\<lambda>k g. case unmarshal (the (m k)) of Inl err \<Rightarrow> g | Inr tel \<Rightarrow> AddNode tel (lks tel) g) ks NewGraphManager)"

definition load_last :: "(string \<Rightarrow> LastTelemetry result) \<Rightarrow> string list \<Rightarrow> (string \<rightharpoonup> string) result \<Rightarrow> GlobalStats" where
  "load_last unmarshal ks lastMap =
     (case lastMap of
        Inl err \<Rightarrow> NewGlobalStats
      | Inr m \<Rightarrow> fold (\<lambda>k g. case unmarshal (the (m k)) of Inl err \<Rightarrow> g | Inr lastStats \<Rightarrow> AddOrUpdateNode lastStats g) ks NewGlobalStats)"

section \<open>Rebuilds in the background\<close>

text \<open>A rebuild reads the nodes under the lock, computes without it, and stores the result under the
  lock: two steps, between which other rebuilds and events may come.\<close>

datatype rebuild = Started | Computed "string \<rightharpoonup> LastCongestion"

record edge_state =
  es_stats :: GlobalStats
  es_rebuilds :: "rebuild list"

datatype edge_event =
    LastE etcd_event
  | ReadE nat "string list"
  | StoreE nat

definition remove_nth :: "nat \<Rightarrow> 'a list \<Rightarrow> 'a list" where
  "remove_nth i xs = take i xs @ drop (Suc i) xs"

fun edge_step :: "(string \<Rightarrow> LastTelemetry result) \<Rightarrow> (LastTelemetry \<Rightarrow> string list) \<Rightarrow> edge_event \<Rightarrow> edge_state \<Rightarrow> edge_state" where
  "edge_step unmarshal users (LastE ev) s =
     (case HandleLastWatchEvent unmarshal (watch_type ev) (ev_Key ev) (ev_Value ev) (es_stats s) of
        (g, started) \<Rightarrow> \<lparr>es_stats = g, es_rebuilds = es_rebuilds s @ (if started then [Started] else [])\<rparr>)"
| "edge_step unmarshal users (ReadE i ns) s =
     (if i < length (es_rebuilds s) \<and> es_rebuilds s ! i = Started
      then s\<lparr>es_rebuilds := (es_rebuilds s)[i := Computed (edgeAgg (rebuildAggregate ns users (es_stats s)))]\<rparr>
      else s)"
| "edge_step unmarshal users (StoreE i) s =
     (if i < length (es_rebuilds s)
      then case es_rebuilds s ! i of
             Started \<Rightarrow> s
           | Computed newAgg \<Rightarrow> \<lparr>es_stats = (es_stats s)\<lparr>edgeAgg := newAgg\<rparr>, es_rebuilds = remove_nth i (es_rebuilds s)\<rparr>
      else s)"

section \<open>The locked map\<close>

type_synonym 'v SafeMap = "string \<rightharpoonup> 'v"

definition NewSafeMap :: "'v SafeMap" where "NewSafeMap = Map.empty"
definition SafeMap_Get :: "string \<Rightarrow> 'v SafeMap \<Rightarrow> 'v option" where "SafeMap_Get key s = s key"
definition SafeMap_Set :: "string \<Rightarrow> 'v \<Rightarrow> 'v SafeMap \<Rightarrow> 'v SafeMap" where "SafeMap_Set key v s = s(key \<mapsto> v)"
definition SafeMap_Delete :: "string \<Rightarrow> 'v SafeMap \<Rightarrow> 'v SafeMap" where "SafeMap_Delete key s = s(key := None)"
definition SafeMap_Len :: "'v SafeMap \<Rightarrow> nat" where "SafeMap_Len s = card (dom s)"
definition SafeMap_GetAll :: "'v SafeMap \<Rightarrow> (string \<rightharpoonup> 'v)" where "SafeMap_GetAll s = s"

text \<open>The function may have effects on a state of its own; \<open>ks\<close> is the order of the iteration.\<close>

fun SafeMap_Range :: "(string \<Rightarrow> 'v \<Rightarrow> 'a \<Rightarrow> bool \<times> 'a) \<Rightarrow> string list \<Rightarrow> 'v SafeMap \<Rightarrow> 'a \<Rightarrow> 'a" where
  "SafeMap_Range fn [] s a = a"
| "SafeMap_Range fn (k # ks) s a = (case fn k (the (s k)) a of (continue, a) \<Rightarrow> if continue then SafeMap_Range fn ks s a else a)"

text \<open>The function may change the object it is given.\<close>

definition SafeMap_Update :: "string \<Rightarrow> ('v \<Rightarrow> unit result \<times> 'v) \<Rightarrow> 'v SafeMap \<Rightarrow> unit result \<times> 'v SafeMap" where
  "SafeMap_Update key fn s =
     (case s key of
        None \<Rightarrow> (Inl ''key not found'', s)
      | Some v \<Rightarrow> (case fn v of (r, v') \<Rightarrow> (r, s(key \<mapsto> v'))))"

section \<open>Deletions\<close>

text \<open>The key-value pair of a deletion event has the key and no value.\<close>

definition etcd_deletes :: "etcd_event list \<Rightarrow> bool" where
  "etcd_deletes evs \<longleftrightarrow> list_all (\<lambda>ev. ev_Type ev = EventTypeDelete \<longrightarrow> ev_Value ev = '''') evs"

text \<open>What is written has a value, and a value that decodes has an address.\<close>

definition addressed :: "(string \<Rightarrow> NodeTelemetry result) \<Rightarrow> etcd_event \<Rightarrow> bool" where
  "addressed unmarshal ev \<longleftrightarrow> ev_Type ev = EventTypePut \<longrightarrow> ev_Value ev \<noteq> '''' \<and>
     (case unmarshal (ev_Value ev) of Inl err \<Rightarrow> True | Inr tel \<Rightarrow> PublicIP tel \<noteq> '''')"

lemma origin_nonempty: "\<not> is_origin ''''"
  by (simp add: is_origin_def)

lemma RemoveNode_empty:
  assumes "graph_ok g" "'''' \<notin> dom (nodes g)"
  shows "RemoveNode '''' g = g"
proof -
  have e: "SourceIp e \<noteq> '''' \<and> DestinationIp e \<noteq> ''''" if "edges g key = Some e" for key e
  proof -
    have "edge_ok g key e" using assms(1) that by (simp add: graph_ok_def)
    then show ?thesis using assms(2) origin_nonempty by (auto simp: edge_ok_def)
  qed
  have "edges (RemoveNode '''' g) key = edges g key" for key
    using e [of key] by (auto simp: RemoveNode_def split: option.splits)
  moreover have "nodes (RemoveNode '''' g) = nodes g" using assms(2) by (auto simp: RemoveNode_def fun_eq_iff)
  ultimately show ?thesis by (intro GraphManager.equality) auto
qed

abbreviation watch_step :: "(string \<Rightarrow> NodeTelemetry result) \<Rightarrow> (NodeTelemetry \<Rightarrow> string list) \<Rightarrow> etcd_event \<Rightarrow> GraphManager \<Rightarrow> GraphManager" where
  "watch_step unmarshal lks ev \<equiv> HandleRoutingWatchEvent unmarshal lks (watch_type ev) (ev_Key ev) (ev_Value ev)"

definition named_graph :: "GraphManager \<Rightarrow> bool" where
  "named_graph g \<longleftrightarrow> graph_ok g \<and> '''' \<notin> dom (nodes g)"

lemma watch_delete:
  "named_graph g \<Longrightarrow> ev_Type ev = EventTypeDelete \<Longrightarrow> ev_Value ev = '''' \<Longrightarrow> watch_step unmarshal lks ev g = g"
  by (simp add: HandleRoutingWatchEvent_def watch_type_def zero_telemetry_def named_graph_def RemoveNode_empty)

lemma watch_put:
  assumes "named_graph g" "ev_Type ev = EventTypePut" "addressed unmarshal ev"
  shows "named_graph (watch_step unmarshal lks ev g)"
proof (cases "unmarshal (ev_Value ev)")
  case (Inr tel)
  with assms have "PublicIP tel \<noteq> ''''" by (auto simp: addressed_def)
  then have "named_graph (AddNode tel (lks tel) g)"
    using assms(1) by (auto simp: named_graph_def AddNode_ok AddNode_nodes)
  then show ?thesis using assms Inr by (auto simp: HandleRoutingWatchEvent_def watch_type_def addressed_def)
qed (use assms in \<open>auto simp: HandleRoutingWatchEvent_def addressed_def\<close>)

lemma watch_ignores_deletes:
  "named_graph g \<Longrightarrow> list_all (addressed unmarshal) evs \<Longrightarrow> etcd_deletes evs \<Longrightarrow>
   WatchPrefix (HandleRoutingWatchEvent unmarshal lks) evs g =
     WatchPrefix (HandleRoutingWatchEvent unmarshal lks) (filter (\<lambda>ev. ev_Type ev = EventTypePut) evs) g"
proof (induction evs arbitrary: g)
  case (Cons ev evs)
  show ?case
  proof (cases "ev_Type ev")
    case EventTypePut
    with Cons watch_put [OF Cons.prems(1) EventTypePut] show ?thesis by (simp add: WatchPrefix_def etcd_deletes_def)
  next
    case EventTypeDelete
    with Cons watch_delete [OF Cons.prems(1) EventTypeDelete] show ?thesis by (simp add: WatchPrefix_def etcd_deletes_def)
  qed
qed simp

lemma loaded_graph:
  assumes "\<And>k v tel. m k = Some v \<Longrightarrow> unmarshal v = Inr tel \<Longrightarrow> PublicIP tel \<noteq> ''''" "set ks \<subseteq> dom m"
  shows "named_graph (load_nodes unmarshal lks ks (Inr m))"
proof -
  have "named_graph g \<Longrightarrow> named_graph (fold (\<lambda>k g. case unmarshal (the (m k)) of Inl err \<Rightarrow> g | Inr tel \<Rightarrow> AddNode tel (lks tel) g) ks g)" for g
    using assms(2)
  proof (induction ks arbitrary: g)
    case (Cons k ks)
    then obtain v where v: "m k = Some v" by auto
    have "named_graph (AddNode tel (lks tel) g)" if "unmarshal v = Inr tel" for tel
      using Cons.prems(1) assms(1) [OF v that] by (auto simp: named_graph_def AddNode_ok AddNode_nodes)
    then have "named_graph (case unmarshal (the (m k)) of Inl err \<Rightarrow> g | Inr tel \<Rightarrow> AddNode tel (lks tel) g)"
      using v Cons.prems(1) by (auto split: sum.split)
    then show ?case using Cons.IH Cons.prems(2) by simp
  qed simp
  moreover have "named_graph NewGraphManager" using graph_ok_init by (simp add: named_graph_def) (simp add: NewGraphManager_def)
  ultimately show ?thesis by (simp add: load_nodes_def)
qed

section \<open>From a report to the graph\<close>

lemma add_link_creates:
  assumes "link_edge (nodes g) v = Some (out, r, load)"
  shows "edges (add_link inp v g) (edge_line inp out) \<noteq> None"
  using assms by (simp add: add_link_def Let_def split: option.split)

lemma add_links_create:
  "graph_ok g \<Longrightarrow> inp \<in> dom (nodes g) \<Longrightarrow> k \<in> set ks \<Longrightarrow> link_edge (nodes g) (f k) = Some (out, r, load) \<Longrightarrow>
   edges (fold (\<lambda>k. add_link inp (f k)) ks g) (edge_line inp out) \<noteq> None"
proof (induction ks arbitrary: g)
  case (Cons j ks)
  note ok = add_link_ok [OF Cons.prems(1,2), of "f j"]
  show ?case
  proof (cases "k = j")
    case True
    obtain e where "edges (add_link inp (f j) g) (edge_line inp out) = Some e"
      using add_link_creates [OF Cons.prems(4), of inp] True by auto
    from add_links_keep [OF this, of inp f ks] show ?thesis by auto
  next
    case False
    then have "k \<in> set ks" using Cons.prems(3) by simp
    moreover have "inp \<in> dom (nodes (add_link inp (f j) g))" "link_edge (nodes (add_link inp (f j) g)) (f k) = Some (out, r, load)"
      using ok Cons.prems(2,4) by auto
    ultimately show ?thesis using Cons.IH [OF conjunct1 [OF ok]] by simp
  qed
qed simp

lemma AddNode_links:
  assumes "graph_ok g" "range_order (LinksCongestion tel) ks" "LinksCongestion tel k = Some v"
    and "link_edge ((nodes g)(PublicIP tel \<mapsto> tel)) v = Some (out, r, load)"
  shows "GetEdge (edge_line (PublicIP tel) out) (AddNode tel ks g) \<noteq> None"
proof -
  let ?g = "g\<lparr>nodes := (nodes g)(PublicIP tel \<mapsto> tel)\<rparr>"
  have "graph_ok ?g" using assms(1) by (auto simp: graph_ok_def edge_ok_def)
  moreover have "k \<in> set ks" using assms(2,3) by (auto simp: range_order_def)
  ultimately show ?thesis
    unfolding GetEdge_def AddNode_def using assms(3,4)
    by (intro add_links_create [where k = k and f = "\<lambda>k. the (LinksCongestion tel k)"]) auto
qed

text \<open>A server of etcd that grants leases, stores what it is given and reports it to the watchers.\<close>

definition reports_put :: "string \<Rightarrow> string \<Rightarrow> etcd_event \<Rightarrow> bool" where
  "reports_put key value ev \<longleftrightarrow> ev_Type ev = EventTypePut \<and> (ev_IsCreate ev \<or> ev_IsModify ev) \<and> ev_Key ev = key \<and> ev_Value ev = value"

definition etcd_serves :: "'e etcd \<Rightarrow> ('e \<Rightarrow> etcd_event list) \<Rightarrow> bool" where
  "etcd_serves cli watched \<longleftrightarrow>
     (\<forall>ttl e. \<exists>lease e'. Grant cli ttl e = (Inr lease, e') \<and> watched e' = watched e) \<and>
     (\<forall>key value l e. \<exists>e' ev. Put cli key value l e = (Inr (), e') \<and> watched e' = watched e @ [ev] \<and> reports_put key value ev)"

lemma push_reported:
  assumes "etcd_serves cli watched" "marshal (DoClusterWeightedAvg self (VMReport.truncate report)) = Inr json"
  shows "\<exists>ev. watched (push_telemetry marshal cli self report e) = watched e @ [ev]
    \<and> reports_put (''/routing-middle/'' @ PublicIP self) json ev"
proof -
  obtain lease e1 where g: "Grant cli (60 * expireTime) e = (Inr lease, e1)" "watched e1 = watched e"
    using assms(1) unfolding etcd_serves_def by blast
  obtain e2 ev where "Put cli (''/routing-middle/'' @ PublicIP self) json (Some lease) e1 = (Inr (), e2)"
    "watched e2 = watched e1 @ [ev]" "reports_put (''/routing-middle/'' @ PublicIP self) json ev"
    using assms(1) unfolding etcd_serves_def by blast
  then show ?thesis using g by (simp add: push_telemetry_def PutKeyWithLease_def assms(2))
qed

lemma watch_reported:
  assumes "reports_put key json ev" "json \<noteq> ''''" "unmarshal json = Inr tel"
  shows "watch_step unmarshal lks ev g = AddNode tel (lks tel) g"
  using assms by (auto simp: HandleRoutingWatchEvent_def watch_type_def reports_put_def)

lemma defaults_same: "VMReport.truncate (with_defaults now uuid r) = VMReport.truncate r"
  by (simp add: with_defaults_def Let_def VMReport.truncate_def)

section \<open>Properties\<close>

text \<open>C17. A report of a machine reaches the graph: when the request decodes and the report is valid, it
  is answered with code 200, and the goroutine it starts writes telemetry whose watch event, which
  etcd delivers, stores the node under its address with the mean of the latencies that were
  reported for each target, keeps the graph sound, and makes an edge of every reported link to an origin server or
  to a known node. JSON decoding is taken to invert encoding on this telemetry.\<close>

theorem report_reaches_graph:
  assumes body: "marshal d = Inr bytes" "unmarshal bytes = Inr report" "validate report = []"
    and tel: "tel = DoClusterWeightedAvg self (VMReport.truncate report)"
    and json: "encode tel = Inr js" "js \<noteq> ''''" "decode js = Inr tel"
    and etcd: "etcd_serves cli watched"
    and g: "graph_ok g" "range_order (LinksCongestion tel) (lks tel)"
  shows "\<exists>report' ev. PostVMReceive marshal unmarshal now uuid (Inr d) =
       (\<lparr>Code = 200, Msg = ''VM information reported successfully'', Data = Some (ReportID report', CollectTime report')\<rparr>, Some report')
     \<and> watched (push_telemetry encode cli self report' e) = watched e @ [ev]
     \<and> (\<exists>g'. g' = WatchPrefix (HandleRoutingWatchEvent decode lks) [ev] g \<and> graph_ok g'
          \<and> GetNode (PublicIP self) g' = Some tel
          \<and> (\<forall>k. map_option AverageLatency (LinksCongestion tel k) =
                 (let ls = map AverageLatency (filter (\<lambda>v. TargetIP v = k) (report_Links report)) in if ls = [] then None else Some (mean ls)))
          \<and> (\<forall>k v out r load. LinksCongestion tel k = Some v \<and> link_edge (nodes g') v = Some (out, r, load) \<longrightarrow>
               GetEdge (edge_line (PublicIP self) out) g' \<noteq> None))"
proof -
  let ?r = "with_defaults now uuid report"
  have ip: "PublicIP tel = PublicIP self" by (simp add: tel DoClusterWeightedAvg_def Let_def)
  have post: "PostVMReceive marshal unmarshal now uuid (Inr d) =
      (\<lparr>Code = 200, Msg = ''VM information reported successfully'', Data = Some (ReportID ?r, CollectTime ?r)\<rparr>, Some ?r)"
    by (simp add: PostVMReceive_def body Let_def)
  have "encode (DoClusterWeightedAvg self (VMReport.truncate ?r)) = Inr js" using json(1) by (simp add: defaults_same tel)
  from push_reported [where marshal = encode, OF etcd this, of e] obtain ev where
    ev: "watched (push_telemetry encode cli self ?r e) = watched e @ [ev]" "reports_put (''/routing-middle/'' @ PublicIP self) js ev"
    by blast
  have step: "WatchPrefix (HandleRoutingWatchEvent decode lks) [ev] g = AddNode tel (lks tel) g"
    using watch_reported [where unmarshal = decode, OF ev(2) json(2,3)] by (simp add: WatchPrefix_def)
  note ns = AddNode_nodes [OF g(1), of tel "lks tel"]
  have edge: "GetEdge (edge_line (PublicIP self) out) (AddNode tel (lks tel) g) \<noteq> None"
    if "LinksCongestion tel k = Some v" "link_edge (nodes (AddNode tel (lks tel) g)) v = Some (out, r, load)" for k v out r load
    using AddNode_links [OF g that(1) that(2) [unfolded ns]] by (simp only: ip not_False_eq_True)
  have node: "GetNode (PublicIP self) (AddNode tel (lks tel) g) = Some tel" using ns by (simp add: GetNode_def ip)
  have means: "map_option AverageLatency (LinksCongestion tel k) =
      (let ls = map AverageLatency (filter (\<lambda>v. TargetIP v = k) (report_Links report)) in if ls = [] then None else Some (mean ls))" for k
    using link_means [OF refl, of self "VMReport.truncate report" k] by (simp add: tel VMReport.truncate_def Let_def)
  show ?thesis
    unfolding post using ev(1) step edge node means AddNode_ok [OF g(1)] by (intro exI [of _ ?r] exI [of _ ev]) auto
qed

definition sample_etcd :: "etcd_event list etcd" where
  "sample_etcd = \<lparr>Grant = \<lambda>ttl e. (Inr 7, e),
     Put = \<lambda>key value l e. (Inr (), e @ [\<lparr>ev_Type = EventTypePut, ev_IsCreate = True, ev_IsModify = False, ev_Key = key, ev_Value = value\<rparr>]),
     Get_prefix = \<lambda>p e. Inr []\<rparr>"

lemma sample_etcd_serves: "etcd_serves sample_etcd (\<lambda>e. e)"
  by (simp add: etcd_serves_def sample_etcd_def reports_put_def)

definition sample_report :: vm_report where
  "sample_report = \<lparr>report_CPU = Cpu (sample_node ''a'' Map.empty), report_Links = [origin_link], VMID = ''vm'', CollectTime = None,
     ReportID = '''', report_Memory = \<lparr>mem_Total = 1024, mem_Used = 0, mem_Free = 1024, mem_Usage = 0\<rparr>,
     report_Disk = \<lparr>disk_Total = 0, disk_Used = 0, disk_Free = 0, disk_Usage = 0, disk_Path = ''/''\<rparr>,
     report_Network = \<lparr>net_PublicIP = ''a'', net_PrivateIP = '''', net_PortCount = -1, net_TrafficIn = 0, net_TrafficOut = 0\<rparr>,
     report_OS = \<lparr>OSName = '''', KernelVer = '''', Hostname = '''', BootTime = 0\<rparr>,
     report_Process = \<lparr>ActiveCount = 0, TopCPU = [], TopMem = []\<rparr>\<rparr>"

theorem report_reaches_graph_witness:
  "\<exists>tel ev. tel = DoClusterWeightedAvg (sample_node ''a'' Map.empty) (VMReport.truncate sample_report)
     \<and> validate sample_report = [] \<and> etcd_serves sample_etcd (\<lambda>e. e) \<and> graph_ok NewGraphManager
     \<and> range_order (LinksCongestion tel) [''b'']
     \<and> fst (PostVMReceive (\<lambda>d :: unit. Inr ''r'') (\<lambda>bytes. Inr sample_report) 5 ''u'' (Inr ())) =
         \<lparr>Code = 200, Msg = ''VM information reported successfully'', Data = Some (''u'', Some 5)\<rparr>
     \<and> GetNode ''a'' (WatchPrefix (HandleRoutingWatchEvent (\<lambda>val. Inr tel) (\<lambda>t. [''b''])) [ev] NewGraphManager) = Some tel"
proof -
  let ?self = "sample_node ''a'' Map.empty"
  let ?tel = "DoClusterWeightedAvg ?self (VMReport.truncate sample_report)"
  have v: "validate sample_report = []" by (simp add: validate_def sample_report_def sample_node_def)
  have ks: "range_order (LinksCongestion ?tel) [''b'']"
    by (auto simp: range_order_def DoClusterWeightedAvg_def sample_report_def VMReport.truncate_def collect_link_def
        origin_link_def sample_link_def Let_def split: if_splits)
  have d: "ReportID (with_defaults 5 ''u'' sample_report) = ''u''" "CollectTime (with_defaults 5 ''u'' sample_report) = Some 5"
    by (simp_all add: with_defaults_def sample_report_def)
  have p: "PostVMReceive (\<lambda>d :: unit. Inr ''r'') (\<lambda>bytes. Inr sample_report) 5 ''u'' (Inr ()) =
      (\<lparr>Code = 200, Msg = ''VM information reported successfully'', Data = Some (''u'', Some 5)\<rparr>, Some (with_defaults 5 ''u'' sample_report))"
    by (simp add: PostVMReceive_def v d Let_def)
  have "\<exists>ev. GetNode (PublicIP ?self) (WatchPrefix (HandleRoutingWatchEvent (\<lambda>val. Inr ?tel) (\<lambda>t. [''b''])) [ev] NewGraphManager) = Some ?tel"
    using report_reaches_graph [where marshal = "\<lambda>d :: unit. Inr ''r''" and unmarshal = "\<lambda>bytes. Inr sample_report" and d = "()"
        and encode = "\<lambda>t. Inr ''j''" and decode = "\<lambda>val. Inr ?tel" and lks = "\<lambda>t. [''b'']" and now = 5 and uuid = "''u''" and e = "[]",
        OF refl refl v refl refl _ refl sample_etcd_serves graph_ok_init ks] by blast
  moreover have "PublicIP ?self = ''a''" by (simp add: sample_node_def)
  ultimately show ?thesis using v ks p sample_etcd_serves graph_ok_init by (intro exI [of _ ?tel]) auto
qed

text \<open>C18. No node ever leaves the graph through its watch: the handler reads the address of a
  deleted node from the value of the event, a deletion has none, and what the handler then
  removes is the node without an address. After any sequence of events the graph is the one that
  the writes alone produce, so that a node whose lease has expired stays a hop of routes.\<close>

theorem deletes_ignored:
  assumes "\<And>k v tel. m k = Some v \<Longrightarrow> unmarshal v = Inr tel \<Longrightarrow> PublicIP tel \<noteq> ''''" "range_order m ks"
    and "list_all (addressed unmarshal) evs" "etcd_deletes evs"
    and g: "g = load_nodes unmarshal lks ks (Inr m)"
  shows "WatchPrefix (HandleRoutingWatchEvent unmarshal lks) evs g =
    WatchPrefix (HandleRoutingWatchEvent unmarshal lks) (filter (\<lambda>ev. ev_Type ev = EventTypePut) evs) g"
proof -
  have "set ks \<subseteq> dom m" using range_orderD(2) [OF assms(2)] by simp
  from loaded_graph [OF assms(1) this] have "named_graph g" by (simp add: g)
  then show ?thesis by (rule watch_ignores_deletes) (fact assms)+
qed

definition sample_delete :: etcd_event where
  "sample_delete = \<lparr>ev_Type = EventTypeDelete, ev_IsCreate = False, ev_IsModify = False, ev_Key = ''/routing-middle/a'', ev_Value = ''''\<rparr>"

theorem deletes_ignored_witness:
  "\<exists>g. g = load_nodes (\<lambda>v. Inr (sample_node ''a'' Map.empty)) (\<lambda>t. []) [''/routing-middle/a''] (Inr [''/routing-middle/a'' \<mapsto> ''json''])
     \<and> etcd_deletes [sample_delete] \<and> watch_type sample_delete = ''DELETE''
     \<and> GetNode ''a'' (WatchPrefix (HandleRoutingWatchEvent (\<lambda>v. Inr (sample_node ''a'' Map.empty)) (\<lambda>t. [])) [sample_delete] g) \<noteq> None"
proof -
  let ?un = "\<lambda>v :: string. Inr (sample_node ''a'' Map.empty) :: NodeTelemetry result"
  let ?m = "[''/routing-middle/a'' \<mapsto> ''json'']"
  let ?g = "load_nodes ?un (\<lambda>t. []) [''/routing-middle/a''] (Inr ?m)"
  have h: "list_all (addressed ?un) [sample_delete]" "etcd_deletes [sample_delete]"
    by (simp_all add: addressed_def etcd_deletes_def sample_delete_def)
  have "WatchPrefix (HandleRoutingWatchEvent ?un (\<lambda>t. [])) [sample_delete] ?g =
      WatchPrefix (HandleRoutingWatchEvent ?un (\<lambda>t. [])) (filter (\<lambda>ev. ev_Type ev = EventTypePut) [sample_delete]) ?g"
    by (rule deletes_ignored [where m = ?m and ks = "[''/routing-middle/a'']", OF _ _ h refl])
      (auto simp: sample_node_def range_order_def)
  moreover have "GetNode ''a'' ?g \<noteq> None"
    using AddNode_nodes [OF graph_ok_init] by (simp add: load_nodes_def GetNode_def sample_node_def)
  ultimately show ?thesis using h(2) by (simp add: WatchPrefix_def watch_type_def sample_delete_def)
qed

text \<open>Rebuilds that overlap can leave an old aggregate: of two rebuilds the one that read first
  may store last. All tasks are done, and the aggregate misses a node that was reported.\<close>

definition race_report :: "string \<Rightarrow> LastTelemetry" where
  "race_report ip = \<lparr>LastsCongestion = [''x'' \<mapsto> \<lparr>Count = 1, SumRT = 0, AvgRT = 20, P95RT = 0\<rparr>], last_IP = ip,
     last_Continent = '''', last_Country = '''', last_City = ''''\<rparr>"

definition race_put :: "string \<Rightarrow> etcd_event" where
  "race_put ip = \<lparr>ev_Type = EventTypePut, ev_IsCreate = True, ev_IsModify = False, ev_Key = ''/routing-last/'' @ ip, ev_Value = ip\<rparr>"

definition race_events :: "edge_event list" where
  "race_events = [LastE (race_put ''a''), ReadE 0 [''a''], LastE (race_put ''b''), ReadE 1 [''a'', ''b''], StoreE 1, StoreE 0]"

lemma rebuild_race:
  "\<exists>s. s = fold (edge_step (\<lambda>val. Inr (race_report val)) (\<lambda>_. [''x''])) race_events \<lparr>es_stats = NewGlobalStats, es_rebuilds = []\<rparr>
     \<and> es_rebuilds s = [] \<and> nodeLast (es_stats s) ''b'' \<noteq> None \<and> edgeAgg (es_stats s) (agg_key ''x'' ''b'') = None
     \<and> edgeAgg (rebuildAggregate [''a'', ''b''] (\<lambda>_. [''x'']) (es_stats s)) (agg_key ''x'' ''b'') \<noteq> None"
  by (simp add: race_events_def HandleLastWatchEvent_def watch_type_def race_put_def race_report_def AddOrUpdateNode_def
      rebuildAggregate_def agg_entries_def agg_add_def agg_key_def remove_nth_def NewGlobalStats_def Let_def)

end
