(* ===== verification/Node_Config.thy ===== *)
theory Node_Config
  imports Go_Prelude
begin

text \<open>
  The identity of a node, which the three programs read in the same way (data-plane/util/config.go;
  control-plane/util/config.go and data-proxy/config/config.go have copies of it): from their own
  configuration, or from the file \<open>config/node.yaml\<close> of the nearest directory above.
\<close>

record NodeIP =
  ip_Private :: string
  ip_Public :: string

record NodeConfig =
  nc_Provider :: string
  nc_Continent :: string
  nc_Country :: string
  nc_City :: string
  nc_IP :: NodeIP

text \<open>\<open>nodeFile\<close> is the shared file, if there is one; reading and parsing it may fail.\<close>

definition shared_node :: "NodeConfig result option \<Rightarrow> NodeConfig \<Rightarrow> NodeConfig" where
  "shared_node nodeFile node =
     (if nc_Provider node = '''' then case nodeFile of Some (Inr n) \<Rightarrow> n | _ \<Rightarrow> node else node)"

text \<open>The search for the shared file, from a directory up to but without the root. A directory is the
  list of its names, the innermost first; \<open>ex\<close> says whether a directory has the file.\<close>

fun findNodeConfig :: "(string list \<Rightarrow> bool) \<Rightarrow> string list \<Rightarrow> string list option" where
  "findNodeConfig ex [] = None"
| "findNodeConfig ex (d # dirs) = (if ex (d # dirs) then Some (''node.yaml'' # ''config'' # d # dirs) else findNodeConfig ex dirs)"

definition node_file :: "(string list \<Rightarrow> bool) \<Rightarrow> string list \<Rightarrow> string list result \<Rightarrow> string list option" where
  "node_file ex exeDir cwd =
     (case findNodeConfig ex exeDir of
        Some f \<Rightarrow> Some f
      | None \<Rightarrow> (case cwd of Inl err \<Rightarrow> None | Inr d \<Rightarrow> findNodeConfig ex d))"

text \<open>The file that is found is the one of the nearest directory; that of the root is never found.\<close>

lemma findNodeConfig_nearest:
  "findNodeConfig ex dirs = Some f \<longleftrightarrow>
     (\<exists>below d. dirs = below @ d \<and> d \<noteq> [] \<and> ex d \<and> f = ''node.yaml'' # ''config'' # d
       \<and> (\<forall>i < length below. \<not> ex (drop i dirs)))"
proof (induction dirs)
  case (Cons x dirs)
  show ?case
  proof (cases "ex (x # dirs)")
    case True
    then show ?thesis
      by (auto simp: Cons_eq_append_conv intro: exI [of _ "[]"])
  next
    case False
    have "(\<exists>below d. x # dirs = below @ d \<and> d \<noteq> [] \<and> ex d \<and> f = ''node.yaml'' # ''config'' # d
         \<and> (\<forall>i < length below. \<not> ex (drop i (x # dirs))))
       \<longleftrightarrow> (\<exists>below d. dirs = below @ d \<and> d \<noteq> [] \<and> ex d \<and> f = ''node.yaml'' # ''config'' # d
         \<and> (\<forall>i < length below. \<not> ex (drop i dirs)))" (is "?l \<longleftrightarrow> ?r")
    proof
      assume ?l
      then show ?r using False by (auto simp: Cons_eq_append_conv All_less_Suc2)
    next
      assume ?r
      then obtain below d where "dirs = below @ d" "d \<noteq> []" "ex d" "f = ''node.yaml'' # ''config'' # d"
        "\<forall>i < length below. \<not> ex (drop i dirs)" by blast
      then show ?l using False by (intro exI [of _ "x # below"] exI [of _ d]) (auto simp: less_Suc_eq_0_disj)
    qed
    then show ?thesis using Cons.IH False by simp
  qed
qed auto

end
