(* ===== verification/Proxy_Server.thy ===== *)
theory Proxy_Server
  imports Tunnel_Handler Disaggregator Node_Config
begin

text \<open>
  The entry of the proxy: its configuration (data-proxy/config/config.go), the routes it asks the
  control plane for and keeps (server/routing.go, handler.go), the TCP and UDP servers
  (tcp-server.go, udp-server.go), the rate limiter (rate-limiter.go) and the management of the
  listeners (server-manager.go).

  A connection is the list of the chunks that its reads return before it ends or its deadline
  passes. What the network, the clock and the kernel answer to a request is its environment, a
  record. A handler is split where it waits: what it does until the message is handed to the
  aggregator, and what it does with the response. A goroutine that refreshes a route is a port in
  \<open>refreshing\<close> and a later step; that requests interleave inside \<open>find_route\<close> is not modelled. The
  requests that start a port, the accept loops they launch and the requests that stop one interleave
  (\<open>manage_step\<close>). A panic in a request handler is caught by the HTTP router; one in an accept loop ends the
  program.
\<close>

section \<open>Configuration\<close>

record TestPath =
  tp_Port :: int
  tp_Path :: string

record Listener =
  ln_Proto :: string
  ln_Port :: int
  ln_BatchNum :: int

record RateLimit =
  QPS :: int
  Burst :: int
  CleanInterval :: int

record AggregatorConfig =
  BufferSize :: int
  BatchTimeoutMs :: int

record Config =
  cfg_Port :: string
  ControlHost :: string
  TestRouting :: "TestPath list"
  AggWorkerNum :: int
  AggWorkerCount :: int
  TcpWorkerCount :: int
  BackWorkerCount :: int
  TunnelConcurrentLimit :: int
  Listeners :: "Listener list"
  cfg_RateLimit :: RateLimit
  cfg_Aggregator :: AggregatorConfig
  cfg_Node :: NodeConfig

definition TestPathMap :: "Config \<Rightarrow> (int \<rightharpoonup> string)" where
  "TestPathMap c = fold (\<lambda>v m. m(tp_Port v \<mapsto> tp_Path v)) (TestRouting c) Map.empty"

definition listener_batches :: "Config \<Rightarrow> (u16 \<rightharpoonup> int)" where
  "listener_batches c = fold (\<lambda>v m. m(word_of_int (ln_Port v) \<mapsto> ln_BatchNum v)) (Listeners c) Map.empty"

definition with_node :: "NodeConfig result option \<Rightarrow> Config \<Rightarrow> Config" where
  "with_node nodeFile c = c\<lparr>cfg_Node := shared_node nodeFile (cfg_Node c)\<rparr>"

definition self_ip :: "Config \<Rightarrow> string" where
  "self_ip c = ip_Public (nc_IP (cfg_Node c))"

section \<open>Routes from the control plane\<close>

record RoutingResponse =
  resp_Code :: int
  resp_Msg :: string
  resp_Data :: RoutingInfo

definition zero_endpoint :: EndPoint where
  "zero_endpoint = \<lparr>ep_IP = '''', ep_Port = 0, ep_Provider = '''', ep_Continent = '''', ep_Country = '''', ep_City = ''''\<rparr>"

definition no_routing :: RoutingInfo where
  "no_routing = \<lparr>Routing = []\<rparr>"

definition middleRoutingURL :: string where
  "middleRoutingURL = ''/api/v1/routing/middle''"

definition test_route :: "Config \<Rightarrow> int \<Rightarrow> RoutingInfo option" where
  "test_route c port =
     (case TestPathMap c port of
        None \<Rightarrow> None
      | Some path \<Rightarrow>
          let hops = strings_split path '',''
          in if length hops \<ge> 2 \<and> hops ! 0 = self_ip c
             then Some \<lparr>Routing = [\<lparr>Hops = hops, Rtt = 0, RawRTT = 0\<rparr>]\<rparr>
             else None)"

definition route_request :: "Config \<Rightarrow> int \<Rightarrow> EndPoints" where
  "route_request c port = \<lparr>ep_Source = zero_endpoint\<lparr>ep_IP := self_ip c\<rparr>, ep_Dest = zero_endpoint\<lparr>ep_Port := port\<rparr>\<rparr>"

text \<open>\<open>post\<close> is the HTTP exchange with the encoding of the request and the decoding of the answer.\<close>

definition GetRoutingFromControlPlane :: "(string \<Rightarrow> EndPoints \<Rightarrow> RoutingResponse result) \<Rightarrow> Config \<Rightarrow> int \<Rightarrow> RoutingInfo" where
  "GetRoutingFromControlPlane post c port =
     (case test_route c port of
        Some r \<Rightarrow> r
      | None \<Rightarrow>
          (case post (ControlHost c @ middleRoutingURL @ ''?ip='' @ self_ip c) (route_request c port) of
             Inl err \<Rightarrow> no_routing
           | Inr resp \<Rightarrow> if resp_Code resp \<noteq> 200 then no_routing else resp_Data resp))"

section \<open>The cache of routes\<close>

record routingInfo =
  ri_info :: RoutingInfo
  ri_deadline :: time

definition routeTimeout :: duration where "routeTimeout = 1 * second"
definition proxyTimeout :: duration where "proxyTimeout = 10 * second"

record proxy =
  routingMap :: "int \<rightharpoonup> routingInfo"
  refreshing :: "int list"
  reqSeq :: u64
  accessLogMap :: "string \<rightharpoonup> time"
  disagg :: Disaggregator
  inputChan :: "aggregatorMsg list"

text \<open>What a request meets: the clock, the round-trip time the kernel reports, and the answer of the
  control plane if it is asked.\<close>

record environment =
  now :: time
  tcpRTT :: float64
  fetched :: RoutingInfo

definition store_route :: "int \<Rightarrow> RoutingInfo \<Rightarrow> time \<Rightarrow> proxy \<Rightarrow> proxy" where
  "store_route port info t s = s\<lparr>routingMap := (routingMap s)(port \<mapsto> \<lparr>ri_info = info, ri_deadline = t + routeTimeout\<rparr>)\<rparr>"

definition find_route :: "environment \<Rightarrow> int \<Rightarrow> proxy \<Rightarrow> RoutingInfo \<times> proxy" where
  "find_route env port s =
     (case routingMap s port of
        None \<Rightarrow> (fetched env, store_route port (fetched env) (now env) s)
      | Some ri \<Rightarrow>
          if now env > ri_deadline ri then (ri_info ri, s\<lparr>refreshing := refreshing s @ [port]\<rparr>)
          else (ri_info ri, s))"

text \<open>The goroutine that \<open>find_route\<close> started for a port ends with the answer of the control plane,
  which is never nil.\<close>

definition finish_refresh :: "environment \<Rightarrow> int \<Rightarrow> proxy \<Rightarrow> proxy" where
  "finish_refresh env port s =
     (if port \<in> set (refreshing s)
      then store_route port (fetched env) (now env) (s\<lparr>refreshing := remove1 port (refreshing s)\<rparr>)
      else s)"

section \<open>From a route to a message\<close>

definition select_path :: "PathInfo list \<Rightarrow> PathInfo" where
  "select_path paths = (case find (\<lambda>p. length (Hops p) > 2) paths of Some p \<Rightarrow> p | None \<Rightarrow> paths ! 0)"

definition hop_fields :: "string \<Rightarrow> string \<times> string option" where
  "hop_fields h =
     (if CHR '':'' \<in> set h then let t = strings_split h '':'' in (t ! 0, Some (t ! 1)) else (h, None))"

fun strip_hops :: "string list \<Rightarrow> string \<Rightarrow> string list \<times> string" where
  "strip_hops [] port = ([], port)"
| "strip_hops (h # hs) port =
     (case hop_fields h of (h', p) \<Rightarrow>
        case strip_hops hs (case p of None \<Rightarrow> port | Some q \<Rightarrow> q) of (hs', port') \<Rightarrow> (h' # hs', port'))"

definition make_msg :: "bool \<Rightarrow> string \<Rightarrow> PathInfo \<Rightarrow> u32 \<Rightarrow> byte list \<Rightarrow> aggregatorMsg go" where
  "make_msg emerge protocol pathInfo reqID dat =
     (if length (Hops pathInfo) < 2 then Inl IndexOutOfRange
      else case strip_hops (Hops pathInfo) '''' of (hops, port_) \<Rightarrow>
        Inr \<lparr>msg_emerge = emerge, msg_routingKey = strings_join '','' hops, msg_protocol = protocol,
             msg_port = of_nat (parse_uint16 port_), msg_routingInfo = \<lparr>Hops = hops, Rtt = 0, RawRTT = 0\<rparr>,
             msg_nextHop = HopIPToNet (Hops pathInfo ! 1), msg_userID = reqID, msg_data = dat\<rparr>)"

text \<open>What a handler has done when it stops to wait, or has ended: with a registered channel it
  waits for the response.\<close>

datatype served = ReadFailed | RateLimited | NoRoute | Direct string | Waiting u32 nat

definition submit :: "aggregatorMsg \<Rightarrow> proxy \<Rightarrow> served \<times> proxy" where
  "submit msg s =
     (case Register (msg_userID msg) (disagg s) of (ch, d) \<Rightarrow>
        (Waiting (msg_userID msg) ch, s\<lparr>disagg := d, inputChan := inputChan s @ [msg]\<rparr>))"

section \<open>The TCP server\<close>

definition accessWindow :: duration where "accessWindow = 5 * second"
definition defaultKeepAliveTime :: duration where "defaultKeepAliveTime = 30 * second"

record TCPServer =
  tcp_protocol :: string
  keepAlive :: bool
  keepAliveTime :: duration

definition NewTCPServer :: "bool \<Rightarrow> duration \<Rightarrow> TCPServer" where
  "NewTCPServer ka t = \<lparr>tcp_protocol = ''tcp'', keepAlive = ka, keepAliveTime = (if t = 0 then defaultKeepAliveTime else t)\<rparr>"

definition shouldLogAccess :: "time \<Rightarrow> string \<Rightarrow> proxy \<Rightarrow> bool \<times> proxy" where
  "shouldLogAccess t clientIP s =
     (case accessLogMap s clientIP of
        None \<Rightarrow> (True, s\<lparr>accessLogMap := (accessLogMap s)(clientIP \<mapsto> t)\<rparr>)
      | Some lastTime \<Rightarrow>
          if t - lastTime \<ge> accessWindow then (True, s\<lparr>accessLogMap := (accessLogMap s)(clientIP \<mapsto> t)\<rparr>) else (False, s))"

definition log_access :: "environment \<Rightarrow> string \<Rightarrow> proxy \<Rightarrow> proxy" where
  "log_access env clientIP s = (if tcpRTT env > 0 then snd (shouldLogAccess (now env) clientIP s) else s)"

text \<open>\<open>ReadBytes\<close> of a new buffered reader: it takes chunks until one has the newline; what follows
  the newline in that chunk stays in the buffer of this reader. None is a read error.\<close>

definition newline :: byte where "newline = 10"

fun ReadBytes :: "byte list list \<Rightarrow> byte list \<Rightarrow> (byte list \<times> byte list list) option" where
  "ReadBytes [] acc = None"
| "ReadBytes (c # cs) acc =
     (if newline \<in> set c then Some (acc @ takeWhile (\<lambda>b. b \<noteq> newline) c @ [newline], cs) else ReadBytes cs (acc @ c))"

text \<open>Both TCP handlers: from the data of a request to the wait.\<close>

definition tcp_request :: "environment \<Rightarrow> string \<Rightarrow> int \<Rightarrow> u32 \<Rightarrow> byte list \<Rightarrow> proxy \<Rightarrow> (served \<times> proxy) go" where
  "tcp_request env clientIP port reqID dat s =
     (let s = log_access env clientIP s
      in case find_route env port s of (routeInfo, s) \<Rightarrow>
           if Routing routeInfo = [] then Inr (NoRoute, s)
           else case make_msg False ''tcp'' (select_path (Routing routeInfo)) reqID dat of
                  Inl e \<Rightarrow> Inl e
                | Inr msg \<Rightarrow> Inr (submit msg s))"

definition handleConnection :: "environment \<Rightarrow> string \<Rightarrow> int \<Rightarrow> byte list list \<Rightarrow> proxy \<Rightarrow> (served \<times> proxy) go" where
  "handleConnection env clientIP port conn s =
     (case GenShortReqID clientIP (reqSeq s) of (reqID, seq) \<Rightarrow>
        let s = s\<lparr>reqSeq := seq\<rparr>
        in case ReadBytes conn [] of
             None \<Rightarrow> Inr (ReadFailed, s)
           | Some (dat, rest) \<Rightarrow> tcp_request env clientIP port reqID dat s)"

text \<open>The end of the wait: the channel is ready (it has data or is closed), or the time is over. The
  first result is what is written to the client; a closed channel yields no data and is written
  as such.\<close>

datatype wake = ChanReady | TimedOut

definition tcp_reply :: "wake \<Rightarrow> u32 \<Rightarrow> nat \<Rightarrow> proxy \<Rightarrow> (byte list option \<times> proxy) go" where
  "tcp_reply wk reqID ch s =
     (let (resp, d) = (case wk of
            ChanReady \<Rightarrow> (case receive ch (disagg s) of (r, d) \<Rightarrow> (Some (case r of None \<Rightarrow> [] | Some x \<Rightarrow> x), d))
          | TimedOut \<Rightarrow> (None, disagg s))
      in case Register_cleanup reqID ch d of
           Inl e \<Rightarrow> Inl e
         | Inr d \<Rightarrow> Inr (resp, s\<lparr>disagg := d\<rparr>))"

text \<open>A connection that is kept: per request what it meets, how the wait ends, what the other
  goroutines do to the state meanwhile, and the time afterwards. The loop ends because every
  iteration takes at least one chunk; the result is what was written.\<close>

record round =
  rd_env :: environment
  rd_wake :: wake
  rd_other :: "proxy \<Rightarrow> proxy"
  rd_after :: time

lemma ReadBytes_shorter: "ReadBytes cs acc = Some (dat, rest) \<Longrightarrow> length rest < length cs"
  by (induction cs arbitrary: acc) (auto split: if_splits intro: less_SucI)

function keep_alive_loop :: "(nat \<Rightarrow> round) \<Rightarrow> time \<Rightarrow> string \<Rightarrow> int \<Rightarrow> nat \<Rightarrow> u32 \<Rightarrow> byte list list \<Rightarrow> proxy \<Rightarrow> (byte list list \<times> proxy) go" where
  "keep_alive_loop rounds connDeadline clientIP port i reqID conn s =
     (case ReadBytes conn [] of
        None \<Rightarrow> Inr ([], s)
      | Some (dat, rest) \<Rightarrow>
          (case tcp_request (rd_env (rounds i)) clientIP port reqID dat s of
             Inl e \<Rightarrow> Inl e
           | Inr (Waiting u ch, s) \<Rightarrow>
               (case tcp_reply (rd_wake (rounds i)) u ch (rd_other (rounds i) s) of
                  Inl e \<Rightarrow> Inl e
                | Inr (resp, s) \<Rightarrow>
                    (case GenShortReqID clientIP (reqSeq s) of (reqID, seq) \<Rightarrow>
                       let s = s\<lparr>reqSeq := seq\<rparr>; w = (case resp of None \<Rightarrow> [] | Some x \<Rightarrow> [x])
                       in if rd_after (rounds i) > connDeadline then Inr (w, s)
                          else case keep_alive_loop rounds connDeadline clientIP port (Suc i) reqID rest s of
                                 Inl e \<Rightarrow> Inl e
                               | Inr (ws, s) \<Rightarrow> Inr (w @ ws, s)))
           | Inr (_, s) \<Rightarrow> Inr ([], s)))"
  by pat_completeness auto
termination
  by (relation "measure (\<lambda>(rounds, dl, c, p, i, r, conn, s). length conn)") (auto dest: ReadBytes_shorter)

declare keep_alive_loop.simps [simp del]

definition handleConnectionKeepAlive :: "(nat \<Rightarrow> round) \<Rightarrow> time \<Rightarrow> TCPServer \<Rightarrow> string \<Rightarrow> int \<Rightarrow> byte list list \<Rightarrow> proxy
    \<Rightarrow> (byte list list \<times> proxy) go" where
  "handleConnectionKeepAlive rounds connStart server clientIP port conn s =
     (case GenShortReqID clientIP (reqSeq s) of (reqID, seq) \<Rightarrow>
        keep_alive_loop rounds (connStart + keepAliveTime server) clientIP port 0 reqID conn (s\<lparr>reqSeq := seq\<rparr>))"

text \<open>The exchange with the origin itself, which no handler calls: dialling, writing and reading up to a
  newline may fail.\<close>

definition directOriginProxy :: "unit result \<Rightarrow> unit result \<Rightarrow> byte list list \<Rightarrow> bool \<times> byte list option" where
  "directOriginProxy dial write origin =
     (case dial of
        Inl err \<Rightarrow> (False, None)
      | Inr _ \<Rightarrow>
          (case write of
             Inl err \<Rightarrow> (False, None)
           | Inr _ \<Rightarrow> (case ReadBytes origin [] of None \<Rightarrow> (False, None) | Some (resp, rest) \<Rightarrow> (True, Some resp))))"

text \<open>The exchange of the back-sourcer over a new connection; \<open>rderr\<close> is the error of a failed read.\<close>

definition TCPProtocol_DoRequest :: "unit result \<Rightarrow> unit result \<Rightarrow> string \<Rightarrow> byte list list \<Rightarrow> byte list result" where
  "TCPProtocol_DoRequest dial write rderr origin =
     (case dial of
        Inl err \<Rightarrow> Inl err
      | Inr _ \<Rightarrow>
          (case write of
             Inl err \<Rightarrow> Inl err
           | Inr _ \<Rightarrow> (case ReadBytes origin [] of None \<Rightarrow> Inl rderr | Some (resp, rest) \<Rightarrow> Inr resp)))"

text \<open>Accepting: the bounded queue of the worker pool, and the semaphore of the kept connections.\<close>

definition tcpWorkerCount :: nat where "tcpWorkerCount = 1000"
definition maxPendingConns :: nat where "maxPendingConns = 100000"
definition longConnLimit :: nat where "longConnLimit = 512"

definition InitWorkerPool :: "Config \<Rightarrow> nat" where
  "InitWorkerPool c = (if TcpWorkerCount c \<le> 0 then tcpWorkerCount else nat (TcpWorkerCount c))"

record 'c pool =
  connChan :: "('c \<times> int \<times> bool) list"
  longConns :: "'c list"
  refused :: "'c list"

definition accept_conn :: "TCPServer \<Rightarrow> int \<Rightarrow> 'c \<Rightarrow> 'c pool \<Rightarrow> 'c pool" where
  "accept_conn t port c s =
     (if keepAlive t
      then if length (longConns s) < longConnLimit then s\<lparr>longConns := longConns s @ [c]\<rparr> else s\<lparr>refused := refused s @ [c]\<rparr>
      else if length (connChan s) < maxPendingConns then s\<lparr>connChan := connChan s @ [(c, port, False)]\<rparr>
      else s\<lparr>refused := refused s @ [c]\<rparr>)"

text \<open>A worker takes the oldest task, and says which handler it runs.\<close>

definition take_task :: "'c pool \<Rightarrow> ('c \<times> int \<times> bool) option \<times> 'c pool" where
  "take_task s = (case connChan s of [] \<Rightarrow> (None, s) | t # ts \<Rightarrow> (Some t, s\<lparr>connChan := ts\<rparr>))"

definition long_conn_done :: "'c \<Rightarrow> 'c pool \<Rightarrow> 'c pool" where
  "long_conn_done c s = s\<lparr>longConns := remove1 c (longConns s)\<rparr>"

section \<open>The rate limiter\<close>

text \<open>The token bucket is that of golang.org/x/time/rate: a new one, and the decision of a bucket at a
  time with the bucket afterwards.\<close>

record 'l rate_lib =
  NewLimiter :: "int \<Rightarrow> int \<Rightarrow> 'l"
  limiter_Allow :: "time \<Rightarrow> 'l \<Rightarrow> bool \<times> 'l"

record 'l IPLimiter =
  limiter :: 'l
  lastSeen :: time

record 'l PortLimiters =
  limiters :: "string \<rightharpoonup> 'l IPLimiter"
  pl_stopped :: bool

record 'l GlobalRateLimiter =
  portLimiters :: "int \<rightharpoonup> 'l PortLimiters"
  rl_config :: RateLimit

definition InitRateLimiter :: "RateLimit \<Rightarrow> 'l GlobalRateLimiter" where
  "InitRateLimiter cfg = \<lparr>portLimiters = Map.empty, rl_config = cfg\<rparr>"

definition GetLimiter :: "'l rate_lib \<Rightarrow> time \<Rightarrow> int \<Rightarrow> string \<Rightarrow> 'l GlobalRateLimiter \<Rightarrow> 'l \<times> 'l GlobalRateLimiter" where
  "GetLimiter lib t port ip g =
     (let pl = (case portLimiters g port of None \<Rightarrow> \<lparr>limiters = Map.empty, pl_stopped = False\<rparr> | Some pl \<Rightarrow> pl);
          il = (case limiters pl ip of
                  None \<Rightarrow> \<lparr>limiter = NewLimiter lib (QPS (rl_config g)) (Burst (rl_config g)), lastSeen = t\<rparr>
                | Some il \<Rightarrow> il\<lparr>lastSeen := t\<rparr>)
      in (limiter il, g\<lparr>portLimiters := (portLimiters g)(port \<mapsto> pl\<lparr>limiters := (limiters pl)(ip \<mapsto> il)\<rparr>)\<rparr>))"

text \<open>The bucket is shared by reference: its new state is the one of the client.\<close>

definition Allow :: "'l rate_lib \<Rightarrow> time \<Rightarrow> int \<Rightarrow> string \<Rightarrow> 'l GlobalRateLimiter \<Rightarrow> bool \<times> 'l GlobalRateLimiter" where
  "Allow lib t port ip g =
     (case GetLimiter lib t port ip g of (l, g) \<Rightarrow>
        case limiter_Allow lib t l of (ok, l') \<Rightarrow>
          (ok, g\<lparr>portLimiters := (portLimiters g)(port :=
              map_option (\<lambda>pl. pl\<lparr>limiters := (limiters pl)(ip := map_option (\<lambda>il. il\<lparr>limiter := l'\<rparr>) (limiters pl ip))\<rparr>) (portLimiters g port))\<rparr>))"

text \<open>One tick of the clean-up of a port, before it is stopped.\<close>

definition cleanup_tick :: "time \<Rightarrow> int \<Rightarrow> 'l GlobalRateLimiter \<Rightarrow> 'l GlobalRateLimiter" where
  "cleanup_tick t port g =
     (case portLimiters g port of
        None \<Rightarrow> g
      | Some pl \<Rightarrow>
          if pl_stopped pl then g
          else g\<lparr>portLimiters := (portLimiters g)(port \<mapsto> pl\<lparr>limiters := (\<lambda>ip. case limiters pl ip of
                   None \<Rightarrow> None
                 | Some il \<Rightarrow> if t - lastSeen il > CleanInterval (rl_config g) * minute then None else Some il)\<rparr>)\<rparr>)"

text \<open>\<open>ps\<close> is the order in which the ports are iterated.\<close>

definition Stop :: "int list \<Rightarrow> 'l GlobalRateLimiter \<Rightarrow> 'l GlobalRateLimiter go" where
  "Stop ps g =
     (if list_ex (\<lambda>p. case portLimiters g p of None \<Rightarrow> False | Some pl \<Rightarrow> pl_stopped pl) ps then Inl CloseOfClosed
      else Inr (g\<lparr>portLimiters := (\<lambda>p. map_option (\<lambda>pl. pl\<lparr>pl_stopped := True\<rparr>) (portLimiters g p))\<rparr>))"

section \<open>The UDP server\<close>

definition udpWorkerCount :: nat where "udpWorkerCount = 100"

record UDPServer =
  udp_protocol :: string

definition NewUDPServer :: UDPServer where
  "NewUDPServer = \<lparr>udp_protocol = ''udp''\<rparr>"

text \<open>A datagram is read into a buffer of 65535 bytes; longer ones are cut.\<close>

definition read_datagram :: "byte list \<Rightarrow> byte list" where
  "read_datagram d = take 65535 d"

definition handleUDPConnection :: "'l rate_lib \<Rightarrow> environment \<Rightarrow> string \<Rightarrow> int \<Rightarrow> byte list \<Rightarrow> 'l GlobalRateLimiter option \<Rightarrow> proxy
    \<Rightarrow> (served \<times> 'l GlobalRateLimiter option \<times> proxy) go" where
  "handleUDPConnection lib env clientIP port dat rl s =
     (let (ok, rl) = (case rl of
            None \<Rightarrow> (True, None)
          | Some g \<Rightarrow> (case Allow lib (now env) port clientIP g of (ok, g) \<Rightarrow> (ok, Some g)))
      in if \<not> ok then Inr (RateLimited, rl, s)
         else case GenShortReqID clientIP (reqSeq s) of (reqID, seq) \<Rightarrow>
           case find_route env port (s\<lparr>reqSeq := seq\<rparr>) of (routeInfo, s) \<Rightarrow>
             if Routing routeInfo = [] then Inr (NoRoute, rl, s)
             else let pathInfo = Routing routeInfo ! 0
                  in if length (Hops pathInfo) \<le> 2
                     then if Hops pathInfo = [] then Inl IndexOutOfRange else Inr (Direct (last (Hops pathInfo)), rl, s)
                     else case make_msg True ''udp'' pathInfo reqID dat of
                            Inl e \<Rightarrow> Inl e
                          | Inr msg \<Rightarrow> (case submit msg s of (r, s) \<Rightarrow> Inr (r, rl, s)))"

text \<open>The direct exchange: dialling and reading may fail, and so may the write to the client; the
  result is what is written to it.\<close>

definition DirectOriginProxy :: "unit result \<Rightarrow> byte list result \<Rightarrow> unit result \<Rightarrow> bool \<times> byte list option" where
  "DirectOriginProxy dial resp write =
     (case dial of
        Inl err \<Rightarrow> (False, None)
      | Inr _ \<Rightarrow>
          (case resp of
             Inl err \<Rightarrow> (False, None)
           | Inr d \<Rightarrow> (case write of Inl err \<Rightarrow> (False, None) | Inr _ \<Rightarrow> (True, Some (read_datagram d)))))"

definition UDPProtocol_DoRequest :: "unit result \<Rightarrow> unit result \<Rightarrow> byte list result \<Rightarrow> byte list result" where
  "UDPProtocol_DoRequest dial write resp =
     (case dial of
        Inl err \<Rightarrow> Inl err
      | Inr _ \<Rightarrow> (case write of Inl err \<Rightarrow> Inl err | Inr _ \<Rightarrow> map_sum id read_datagram resp))"

definition udp_reply :: "wake \<Rightarrow> u32 \<Rightarrow> nat \<Rightarrow> proxy \<Rightarrow> (byte list option \<times> proxy) go" where
  "udp_reply wk reqID ch s =
     (let (resp, d) = (case wk of ChanReady \<Rightarrow> receive ch (disagg s) | TimedOut \<Rightarrow> (None, disagg s))
      in case Register_cleanup reqID ch d of
           Inl e \<Rightarrow> Inl e
         | Inr d \<Rightarrow> Inr (resp, s\<lparr>disagg := d\<rparr>))"

section \<open>Listeners\<close>

datatype listener = TCPListener | UDPConn

record servers =
  listenerMap :: "int \<rightharpoonup> listener"
  portMap :: "int \<rightharpoonup> bool"

datatype operate = OpTCP TCPServer | OpUDP UDPServer

definition InitServerInterface :: "string \<Rightarrow> operate option" where
  "InitServerInterface protocol =
     (if protocol = ''tcp'' then Some (OpTCP (NewTCPServer False 0))
      else if protocol = ''udp'' then Some (OpUDP NewUDPServer)
      else None)"

text \<open>\<open>listen\<close> is the result of opening the socket, \<open>close\<close> that of closing it. At the start of its
  accept loop the TCP server asserts the type of the listener it finds, and the UDP server tests
  it; the result is whether there is one to read from.\<close>

definition TCPServer_StartServerWithMgr :: "unit result \<Rightarrow> int \<Rightarrow> servers \<Rightarrow> unit result \<times> servers" where
  "TCPServer_StartServerWithMgr listen port s =
     (case listen of
        Inl err \<Rightarrow> (Inl err, s)
      | Inr _ \<Rightarrow> (Inr (), \<lparr>listenerMap = (listenerMap s)(port \<mapsto> TCPListener), portMap = (portMap s)(port \<mapsto> True)\<rparr>))"

definition TCPServer_StartServerRun :: "int \<Rightarrow> servers \<Rightarrow> bool go" where
  "TCPServer_StartServerRun port s = (if listenerMap s port = Some TCPListener then Inr True else Inl TypeAssertion)"

definition remove_port :: "int \<Rightarrow> servers \<Rightarrow> servers" where
  "remove_port port s = \<lparr>listenerMap = (listenerMap s)(port := None), portMap = (portMap s)(port := None)\<rparr>"

definition TCPServer_StopServer :: "unit result \<Rightarrow> int \<Rightarrow> servers \<Rightarrow> (unit result \<times> servers) go" where
  "TCPServer_StopServer close port s =
     (case listenerMap s port of
        None \<Rightarrow> Inr (Inr (), s)
      | Some TCPListener \<Rightarrow> Inr (close, remove_port port s)
      | Some UDPConn \<Rightarrow> Inl TypeAssertion)"

definition UDPServer_StartServerWithMgr :: "unit result \<Rightarrow> int \<Rightarrow> servers \<Rightarrow> unit result \<times> servers" where
  "UDPServer_StartServerWithMgr listen port s =
     (case listen of
        Inl err \<Rightarrow> (Inl err, s)
      | Inr _ \<Rightarrow> (Inr (), \<lparr>listenerMap = (listenerMap s)(port \<mapsto> UDPConn), portMap = (portMap s)(port \<mapsto> True)\<rparr>))"

definition UDPServer_StartServerRun :: "int \<Rightarrow> servers \<Rightarrow> bool go" where
  "UDPServer_StartServerRun port s = Inr (listenerMap s port = Some UDPConn)"

definition UDPServer_StopServer :: "unit result \<Rightarrow> int \<Rightarrow> servers \<Rightarrow> (unit result \<times> servers) go" where
  "UDPServer_StopServer close port s =
     (if listenerMap s port = Some UDPConn then Inr (close, remove_port port s) else Inr (Inr (), s))"

text \<open>The calls through the interface \<open>ServerFuncs\<close>.\<close>

definition StartServerWithMgr :: "operate \<Rightarrow> unit result \<Rightarrow> int \<Rightarrow> servers \<Rightarrow> unit result \<times> servers" where
  "StartServerWithMgr op = (case op of OpTCP t \<Rightarrow> TCPServer_StartServerWithMgr | OpUDP u \<Rightarrow> UDPServer_StartServerWithMgr)"

definition StartServerRun :: "operate \<Rightarrow> int \<Rightarrow> servers \<Rightarrow> bool go" where
  "StartServerRun op = (case op of OpTCP t \<Rightarrow> TCPServer_StartServerRun | OpUDP u \<Rightarrow> UDPServer_StartServerRun)"

definition StopServer :: "operate \<Rightarrow> unit result \<Rightarrow> int \<Rightarrow> servers \<Rightarrow> (unit result \<times> servers) go" where
  "StopServer op = (case op of OpTCP t \<Rightarrow> TCPServer_StopServer | OpUDP u \<Rightarrow> UDPServer_StopServer)"

lemmas server_methods = StartServerWithMgr_def StartServerRun_def StopServer_def
  TCPServer_StartServerWithMgr_def TCPServer_StartServerRun_def TCPServer_StopServer_def
  UDPServer_StartServerWithMgr_def UDPServer_StartServerRun_def UDPServer_StopServer_def

text \<open>\<open>strconv.Atoi\<close>: an optional sign and decimal digits, in the range of a 64 bit integer.\<close>

definition Atoi :: "string \<Rightarrow> int option" where
  "Atoi s =
     (let (neg, ds) = (case s of c # cs \<Rightarrow> if c = CHR ''-'' then (True, cs) else if c = CHR ''+'' then (False, cs) else (False, s) | [] \<Rightarrow> (False, []))
      in if ds = [] then None
         else case parse_dec 0 ds of
                None \<Rightarrow> None
              | Some n \<Rightarrow> let v = (if neg then - int n else int n) in if - (2 ^ 63) \<le> v \<and> v < 2 ^ 63 then Some v else None)"

record response =
  status :: int
  body :: string

definition check_query :: "string \<Rightarrow> string \<Rightarrow> response + int" where
  "check_query portStr protocol =
     (if portStr = '''' then Inl \<lparr>status = 400, body = ''port is required''\<rparr>
      else case Atoi portStr of
             None \<Rightarrow> Inl \<lparr>status = 400, body = ''invalid port''\<rparr>
           | Some port \<Rightarrow>
               if protocol \<noteq> ''tcp'' \<and> protocol \<noteq> ''udp'' then Inl \<lparr>status = 400, body = ''invalid protocol''\<rparr> else Inr port)"

text \<open>The request to start a port: the checks, and later, without a lock in between, the listener. The
  second result of the latter is whether an accept loop is launched.\<close>

definition start_check :: "(string \<rightharpoonup> operate) \<Rightarrow> string \<Rightarrow> string \<Rightarrow> servers \<Rightarrow> (response + operate \<times> int) go" where
  "start_check serverMap portStr protocol s =
     (case check_query portStr protocol of
        Inl r \<Rightarrow> Inr (Inl r)
      | Inr port \<Rightarrow>
          if map_get False (portMap s) port then Inr (Inl \<lparr>status = 409, body = ''port already started''\<rparr>)
          else case serverMap protocol of
                 None \<Rightarrow> Inl NilDereference
               | Some op \<Rightarrow> Inr (Inr (op, port)))"

definition start_listen :: "operate \<times> int \<Rightarrow> unit result \<Rightarrow> servers \<Rightarrow> response \<times> bool \<times> servers" where
  "start_listen target listen s =
     (case target of (op, port) \<Rightarrow>
        (case StartServerWithMgr op listen port s of
           (Inl err, s) \<Rightarrow> (\<lparr>status = 500, body = err\<rparr>, False, s)
         | (Inr _, s) \<Rightarrow> (\<lparr>status = 200, body = ''tcp server started''\<rparr>, True, s)))"

text \<open>A listener of the configuration: the accept loop is launched whatever \<open>StartServerWithMgr\<close> answers.\<close>

definition boot_listener :: "(string \<rightharpoonup> operate) \<Rightarrow> string \<Rightarrow> int \<Rightarrow> unit result \<Rightarrow> servers \<Rightarrow> ((operate \<times> int) option \<times> servers) go" where
  "boot_listener serverMap proto port listen s =
     (if proto \<noteq> ''tcp'' \<and> proto \<noteq> ''udp'' then Inr (None, s)
      else case serverMap proto of
             None \<Rightarrow> Inl NilDereference
           | Some op \<Rightarrow> Inr (Some (op, port), snd (StartServerWithMgr op listen port s)))"

definition stop_handler :: "(string \<rightharpoonup> operate) \<Rightarrow> unit result \<Rightarrow> string \<Rightarrow> string \<Rightarrow> servers \<Rightarrow> (response \<times> servers) go" where
  "stop_handler serverMap close portStr protocol s =
     (case check_query portStr protocol of
        Inl r \<Rightarrow> Inr (r, s)
      | Inr port \<Rightarrow>
          (case serverMap protocol of
             None \<Rightarrow> Inl NilDereference
           | Some op \<Rightarrow>
               (case StopServer op close port s of
                  Inl e \<Rightarrow> Inl e
                | Inr (Inl err, s) \<Rightarrow> Inr (\<lparr>status = 500, body = err\<rparr>, s)
                | Inr (Inr _, s) \<Rightarrow> Inr (\<lparr>status = 200, body = ''tcp server stopped''\<rparr>, s))))"

section \<open>Messages of a route\<close>

text \<open>A route as the control plane returns it: addresses, the last with a port.\<close>

definition route_hops :: "u32 list \<Rightarrow> nat \<Rightarrow> string list" where
  "route_hops ips port = map ip_string (butlast ips) @ [ip_string (last ips) @ '':'' @ itoa port]"

lemma colon_notin: "CHR '':'' \<notin> set (ip_string w)" "CHR '':'' \<notin> set (itoa n)"
  by (simp_all add: char_notin_ip_string char_notin_itoa)

lemma hop_fields_ip: "hop_fields (ip_string w) = (ip_string w, None)"
  by (simp add: hop_fields_def colon_notin)

lemma hop_fields_port: "hop_fields (ip_string w @ CHR '':'' # itoa n) = (ip_string w, Some (itoa n))"
proof -
  have "strings_split (strings_join '':'' [ip_string w, itoa n]) '':'' = [ip_string w, itoa n]"
    by (rule split_join) (auto simp: colon_notin)
  then show ?thesis by (simp add: hop_fields_def Let_def)
qed

lemma strip_ips: "strip_hops (map ip_string ips @ [ip_string w @ CHR '':'' # itoa n]) port = (map ip_string ips @ [ip_string w], itoa n)"
  by (induction ips arbitrary: port) (simp_all add: hop_fields_ip hop_fields_port)

lemma map_snoc: "ips \<noteq> [] \<Longrightarrow> map f (butlast ips) @ [f (last ips)] = map f ips"
  by (induction ips) auto

lemma strip_route: "ips \<noteq> [] \<Longrightarrow> strip_hops (route_hops ips n) '''' = (map ip_string ips, itoa n)"
  using strip_ips [of "butlast ips" "last ips" n "''''"] by (simp add: route_hops_def map_snoc)

text \<open>An address with a port does not parse as an address.\<close>

lemma parse_octet_colon: "CHR '':'' \<in> set f \<Longrightarrow> parse_octet f = None"
proof -
  have "parse_dec acc f = None" if "CHR '':'' \<in> set f" for acc
    using that by (induction f arbitrary: acc) (auto simp: digit_val_def split: option.splits)
  then show "CHR '':'' \<in> set f \<Longrightarrow> parse_octet f = None" by (simp add: parse_octet_def)
qed

lemma ParseIP_port: "ParseIP (ip_string w @ CHR '':'' # itoa n) = None"
proof -
  obtain a b c d where w: "put_u32 w = [a, b, c, d]" by (simp add: put_u32_def)
  let ?f = "\<lambda>b :: byte. itoa (unat b)"
  have j: "ip_string w @ CHR '':'' # itoa n = strings_join ''.'' [?f a, ?f b, ?f c, ?f d @ CHR '':'' # itoa n]"
    by (simp add: ip_string_def w)
  have "strings_split (ip_string w @ CHR '':'' # itoa n) ''.'' = [?f a, ?f b, ?f c, ?f d @ CHR '':'' # itoa n]"
    unfolding j by (rule split_join) (auto simp: char_notin_itoa)
  moreover have "parse_octet (?f d @ CHR '':'' # itoa n) = None" by (rule parse_octet_colon) simp
  ultimately show ?thesis by (simp add: ParseIP_def)
qed

text \<open>The message for a route: the hops without the port, the port as a number, and the second
  hop as the next one, which does not parse when it is the origin itself.\<close>

lemma make_msg_route:
  assumes "2 \<le> length ips" "n \<le> 65535" "Hops p = route_hops ips n"
  shows "make_msg emerge protocol p reqID dat = Inr \<lparr>msg_emerge = emerge, msg_routingKey = strings_join '','' (map ip_string ips),
    msg_protocol = protocol, msg_port = of_nat n, msg_routingInfo = \<lparr>Hops = map ip_string ips, Rtt = 0, RawRTT = 0\<rparr>,
    msg_nextHop = (if length ips = 2 then None else Some (ips ! 1)), msg_userID = reqID, msg_data = dat\<rparr>"
proof -
  have ne: "ips \<noteq> []" using assms(1) by auto
  have "length (route_hops ips n) = length ips" using assms(1) by (simp add: route_hops_def)
  moreover have "ParseIP (route_hops ips n ! 1) = (if length ips = 2 then None else Some (ips ! 1))"
    using assms(1) ParseIP_port [of "last ips" n] by (auto simp: route_hops_def nth_append nth_butlast)
  ultimately show ?thesis using assms by (simp add: make_msg_def strip_route [OF ne])
qed

section \<open>Requests\<close>

lemma select_path_in: "ps \<noteq> [] \<Longrightarrow> select_path ps \<in> set ps"
  by (auto simp: select_path_def find_None_iff find_Some_iff split: option.split)

lemma select_path_short:
  assumes "list_all (\<lambda>p. length (Hops p) \<le> 2) ps"
  shows "select_path ps = ps ! 0"
proof -
  have "find (\<lambda>p. length (Hops p) > 2) ps = None" using assms by (auto simp: find_None_iff list_all_iff)
  then show ?thesis by (simp add: select_path_def)
qed

lemma select_path_long: "p \<in> set ps \<Longrightarrow> 2 < length (Hops p) \<Longrightarrow> 2 < length (Hops (select_path ps))"
  by (auto simp: select_path_def find_None_iff find_Some_iff split: option.split)

lemma log_access_keeps [simp]:
  "routingMap (log_access env ip s) = routingMap s" "inputChan (log_access env ip s) = inputChan s"
  "disagg (log_access env ip s) = disagg s" "refreshing (log_access env ip s) = refreshing s"
  by (auto simp: log_access_def shouldLogAccess_def split: option.split)

lemma find_route_keeps:
  "find_route env port s = (info, s') \<Longrightarrow> inputChan s' = inputChan s \<and> disagg s' = disagg s"
  by (auto simp: find_route_def store_route_def split: option.splits if_splits)

text \<open>The route a request uses: the cached one, however old, or the answer of the control plane.\<close>

definition used_route :: "environment \<Rightarrow> int \<Rightarrow> proxy \<Rightarrow> RoutingInfo" where
  "used_route env port s = (case routingMap s port of None \<Rightarrow> fetched env | Some ri \<Rightarrow> ri_info ri)"

lemma find_route_used: "routingMap s' = routingMap s \<Longrightarrow> fst (find_route env port s') = used_route env port s"
  by (simp add: find_route_def used_route_def split: option.split)

lemma tcp_request_submits:
  assumes "Routing (used_route env port s) \<noteq> []"
    and "make_msg False ''tcp'' (select_path (Routing (used_route env port s))) reqID dat = Inr msg"
  shows "\<exists>s'. tcp_request env clientIP port reqID dat s = Inr (Waiting reqID (next_chan (disagg s)), s') \<and> inputChan s' = inputChan s @ [msg]
    \<and> waiters (disagg s') reqID = Some (next_chan (disagg s))"
proof -
  obtain info s1 where f: "find_route env port (log_access env clientIP s) = (info, s1)" by fastforce
  have i: "info = used_route env port s" using find_route_used [of "log_access env clientIP s" s env port] f by simp
  have "msg_userID msg = reqID" using assms(2) by (auto simp: make_msg_def split: if_splits prod.splits)
  then show ?thesis
    using assms find_route_keeps [OF f] by (simp add: tcp_request_def f i submit_def Register_def Let_def)
qed

lemma tcp_request_no_route:
  assumes "Routing (used_route env port s) = []"
  shows "\<exists>s'. tcp_request env clientIP port reqID dat s = Inr (NoRoute, s') \<and> inputChan s' = inputChan s"
proof -
  obtain info s1 where f: "find_route env port (log_access env clientIP s) = (info, s1)" by fastforce
  have "info = used_route env port s" using find_route_used [of "log_access env clientIP s" s env port] f by simp
  then show ?thesis using assms find_route_keeps [OF f] by (simp add: tcp_request_def f)
qed

lemma used_route_seq [simp]: "used_route env port (s\<lparr>reqSeq := q\<rparr>) = used_route env port s"
  by (simp add: used_route_def)

lemma handleConnection_reads:
  assumes "ReadBytes conn [] = Some (dat, rest)"
  shows "handleConnection env clientIP port conn s =
    tcp_request env clientIP port (fst (GenShortReqID clientIP (reqSeq s))) dat (s\<lparr>reqSeq := snd (GenShortReqID clientIP (reqSeq s))\<rparr>)"
  using assms by (simp add: handleConnection_def Let_def split: prod.split)

text \<open>A request that meets a usable route becomes one message, for which the handler then waits.\<close>

lemma handleConnection_submits:
  assumes "ReadBytes conn [] = Some (dat, rest)" "Routing (used_route env port s) \<noteq> []"
    and "make_msg False ''tcp'' (select_path (Routing (used_route env port s))) (fst (GenShortReqID clientIP (reqSeq s))) dat = Inr msg"
  shows "\<exists>s'. handleConnection env clientIP port conn s =
      Inr (Waiting (fst (GenShortReqID clientIP (reqSeq s))) (next_chan (disagg s)), s')
    \<and> inputChan s' = inputChan s @ [msg]
    \<and> waiters (disagg s') (fst (GenShortReqID clientIP (reqSeq s))) = Some (next_chan (disagg s))"
  using tcp_request_submits [of env port "s\<lparr>reqSeq := snd (GenShortReqID clientIP (reqSeq s))\<rparr>"
      "fst (GenShortReqID clientIP (reqSeq s))" dat msg clientIP] assms
  by (simp add: handleConnection_reads)

text \<open>A chunk with several requests: the reader of the first takes all of it, and the next request
  gets a new reader.\<close>

lemma ReadBytes_drops: "newline \<in> set c \<Longrightarrow> ReadBytes (c # cs) [] = Some (takeWhile (\<lambda>b. b \<noteq> newline) c @ [newline], cs)"
  by simp

section \<open>Management of the listeners\<close>

definition servers_ok :: "servers \<Rightarrow> bool" where
  "servers_ok s \<longleftrightarrow> dom (listenerMap s) = dom (portMap s) \<and> (\<forall>p. portMap s p \<noteq> Some False)"

definition main_servers :: "string \<rightharpoonup> operate" where
  "main_servers protocol = InitServerInterface protocol"

lemma check_query_protocol: "check_query portStr protocol = Inr port \<Longrightarrow> protocol = ''tcp'' \<or> protocol = ''udp''"
  by (auto simp: check_query_def split: if_splits option.splits)

lemma listen_keeps: "servers_ok s \<Longrightarrow> servers_ok (snd (StartServerWithMgr op listen port s))"
  by (cases op; cases listen) (auto simp: server_methods servers_ok_def)

lemma main_server: "proto = ''tcp'' \<or> proto = ''udp'' \<Longrightarrow> \<exists>op. main_servers proto = Some op"
  by (auto simp: main_servers_def InitServerInterface_def)

lemma start_check_returns: "\<exists>r. start_check main_servers portStr protocol s = Inr r"
  using main_server check_query_protocol [of portStr protocol]
  by (cases "check_query portStr protocol") (fastforce simp: start_check_def)+

lemma boot_keeps:
  assumes "servers_ok s"
  shows "\<exists>run s'. boot_listener main_servers proto port listen s = Inr (run, s') \<and> servers_ok s'"
  using assms listen_keeps main_server [of proto] by (fastforce simp: boot_listener_def)

lemma stop_keeps:
  assumes "servers_ok s"
  shows "if protocol = ''tcp'' \<and> (\<exists>port. check_query portStr protocol = Inr port \<and> listenerMap s port = Some UDPConn)
    then stop_handler main_servers close portStr protocol s = Inl TypeAssertion
    else \<exists>r s'. stop_handler main_servers close portStr protocol s = Inr (r, s') \<and> servers_ok s'"
proof (cases "check_query portStr protocol")
  case (Inr port)
  have ok: "servers_ok (remove_port port s)" using assms by (auto simp: servers_ok_def remove_port_def)
  from check_query_protocol [OF Inr] consider "protocol = ''tcp''" | "protocol = ''udp''" by blast
  then show ?thesis
  proof cases
    case 1
    then show ?thesis
      using assms Inr ok
      by (cases close) (auto simp: stop_handler_def main_servers_def InitServerInterface_def server_methods split: option.split listener.split)
  next
    case 2
    then show ?thesis
      using assms Inr ok by (cases close) (auto simp: stop_handler_def main_servers_def InitServerInterface_def server_methods)
  qed
qed (use assms in \<open>simp add: stop_handler_def\<close>)

text \<open>The program as it runs: the maps, the requests to start a port that have passed their checks, and
  the accept loops that are launched and have not yet read the map.\<close>

record manager =
  srv :: servers
  checked :: "(operate \<times> int) list"
  launched :: "(operate \<times> int) list"

definition new_manager :: manager where
  "new_manager = \<lparr>srv = \<lparr>listenerMap = Map.empty, portMap = Map.empty\<rparr>, checked = [], launched = []\<rparr>"

definition remove_nth :: "nat \<Rightarrow> 'a list \<Rightarrow> 'a list" where
  "remove_nth i xs = take i xs @ drop (Suc i) xs"

datatype manage_event =
    BootE string int "unit result"
  | CheckE string string
  | ListenE nat "unit result"
  | RunE nat
  | StopE "unit result" string string

fun manage_step :: "manage_event \<Rightarrow> manager \<Rightarrow> manager go" where
  "manage_step (BootE proto port listen) st =
     (case boot_listener main_servers proto port listen (srv st) of
        Inl e \<Rightarrow> Inl e
      | Inr (None, s) \<Rightarrow> Inr (st\<lparr>srv := s\<rparr>)
      | Inr (Some x, s) \<Rightarrow> Inr (st\<lparr>srv := s, launched := launched st @ [x]\<rparr>))"
| "manage_step (CheckE portStr protocol) st =
     (case start_check main_servers portStr protocol (srv st) of
        Inl e \<Rightarrow> Inl e
      | Inr (Inl r) \<Rightarrow> Inr st
      | Inr (Inr x) \<Rightarrow> Inr (st\<lparr>checked := checked st @ [x]\<rparr>))"
| "manage_step (ListenE i listen) st =
     (if i < length (checked st)
      then case start_listen (checked st ! i) listen (srv st) of
             (r, run, s) \<Rightarrow> Inr (st\<lparr>srv := s, checked := remove_nth i (checked st),
                                  launched := launched st @ (if run then [checked st ! i] else [])\<rparr>)
      else Inr st)"
| "manage_step (RunE i) st =
     (if i < length (launched st)
      then case launched st ! i of (op, port) \<Rightarrow>
             (case StartServerRun op port (srv st) of
                Inl e \<Rightarrow> Inl e
              | Inr reads \<Rightarrow> Inr (st\<lparr>launched := remove_nth i (launched st)\<rparr>))
      else Inr st)"
| "manage_step (StopE close portStr protocol) st =
     (case stop_handler main_servers close portStr protocol (srv st) of
        Inl e \<Rightarrow> Inl e
      | Inr (r, s) \<Rightarrow> Inr (st\<lparr>srv := s\<rparr>))"

text \<open>The steps that assert a wrong type: stopping a UDP listener as a TCP one, and the start of a TCP
  accept loop whose port has no TCP listener at that moment.\<close>

fun asserts_wrong_type :: "manager \<Rightarrow> manage_event \<Rightarrow> bool" where
  "asserts_wrong_type st (StopE close portStr protocol) \<longleftrightarrow>
     protocol = ''tcp'' \<and> (\<exists>port. check_query portStr protocol = Inr port \<and> listenerMap (srv st) port = Some UDPConn)"
| "asserts_wrong_type st (RunE i) \<longleftrightarrow>
     i < length (launched st) \<and> (\<exists>t port. launched st ! i = (OpTCP t, port) \<and> listenerMap (srv st) port \<noteq> Some TCPListener)"
| "asserts_wrong_type st e \<longleftrightarrow> False"

lemma manage_typed:
  assumes "servers_ok (srv st)"
  shows "if asserts_wrong_type st e then manage_step e st = Inl TypeAssertion
    else \<exists>st'. manage_step e st = Inr st' \<and> servers_ok (srv st')"
proof (cases e)
  case (BootE proto port listen)
  then show ?thesis using boot_keeps [OF assms, of proto port listen] by (auto split: option.split)
next
  case (CheckE portStr protocol)
  then show ?thesis using assms start_check_returns [of portStr protocol "srv st"] by (auto split: sum.split)
next
  case (ListenE i listen)
  then show ?thesis
    using assms listen_keeps [OF assms, of "fst (checked st ! i)" listen "snd (checked st ! i)"]
    by (auto simp: start_listen_def split: prod.splits sum.splits)
next
  case (RunE i)
  obtain op port where "launched st ! i = (op, port)" by fastforce
  then show ?thesis using assms RunE by (cases op) (auto simp: server_methods)
next
  case (StopE close portStr protocol)
  then show ?thesis using stop_keeps [OF assms, of protocol portStr close] by (auto split: if_splits)
qed

lemma manage_run_ok: "go_run manage_step es st0 = Inr st \<Longrightarrow> servers_ok (srv st0) \<Longrightarrow> servers_ok (srv st)"
proof (induction es arbitrary: st0)
  case (Cons e es)
  then obtain st1 where st1: "manage_step e st0 = Inr st1" "go_run manage_step es st1 = Inr st" by (auto split: sum.splits)
  then have "servers_ok (srv st1)" using manage_typed [OF Cons.prems(2), of e] by (auto split: if_splits)
  with Cons.IH st1(2) show ?case by blast
qed simp

text \<open>The steps that can change what is stored for a port.\<close>

fun names_port :: "manager \<Rightarrow> manage_event \<Rightarrow> int \<Rightarrow> bool" where
  "names_port st (BootE proto p listen) port \<longleftrightarrow> p = port"
| "names_port st (ListenE i listen) port \<longleftrightarrow> i < length (checked st) \<and> snd (checked st ! i) = port"
| "names_port st (StopE close portStr protocol) port \<longleftrightarrow> check_query portStr protocol = Inr port"
| "names_port st e port \<longleftrightarrow> False"

lemma listen_frame: "p \<noteq> port \<Longrightarrow> listenerMap (snd (StartServerWithMgr op listen port s)) p = listenerMap s p"
  by (cases op; cases listen) (auto simp: server_methods)

lemma stop_frame: "StopServer op close port s = Inr (r, s') \<Longrightarrow> port \<noteq> p \<Longrightarrow> listenerMap s' p = listenerMap s p"
  by (cases op) (auto simp: server_methods remove_port_def split: if_splits option.splits listener.splits)

lemma manage_frame:
  assumes "manage_step e st = Inr st'" "\<not> names_port st e port"
  shows "listenerMap (srv st') port = listenerMap (srv st) port"
proof (cases e)
  case (BootE proto p listen)
  then show ?thesis
    using assms listen_frame [of port p] by (auto simp: boot_listener_def split: if_splits option.splits)
next
  case (ListenE i listen)
  then show ?thesis
    using assms listen_frame [of port "snd (checked st ! i)" "fst (checked st ! i)" listen "srv st"]
    by (auto simp: start_listen_def split: if_splits prod.splits sum.splits)
next
  case (StopE close portStr protocol)
  then show ?thesis
    using assms by (auto simp: stop_handler_def dest: stop_frame split: sum.splits option.splits)
qed (use assms in \<open>auto split: if_splits sum.splits prod.splits\<close>)

lemma listen_finds:
  assumes "i < length (checked st)" "checked st ! i = (op, port)" "manage_step (ListenE i (Inr u)) st = Inr st'"
  shows "StartServerRun op port (srv st') = Inr True \<and> (op, port) \<in> set (launched st')"
  using assms by (cases op) (auto simp: start_listen_def server_methods)

text \<open>Stopping a TCP port as UDP answers with success and changes nothing.\<close>

lemma stop_wrong_protocol:
  assumes "check_query portStr ''udp'' = Inr port" "listenerMap s port = Some TCPListener"
  shows "stop_handler main_servers close portStr ''udp'' s = Inr (\<lparr>status = 200, body = ''tcp server stopped''\<rparr>, s)"
  using assms by (simp add: stop_handler_def main_servers_def InitServerInterface_def server_methods)

text \<open>A listener that could not be opened: the accept loop that the program starts all the same panics.\<close>

lemma failed_listen_panics:
  "listenerMap s port = None \<Longrightarrow> StartServerRun (OpTCP t) port (snd (StartServerWithMgr (OpTCP t) (Inl err) port s)) = Inl TypeAssertion"
  by (simp add: server_methods)

section \<open>Properties\<close>

text \<open>C39. A control plane that does not answer once makes a working route unusable: the request that
  finds its cached route old is still served with it, but the refresh it starts stores the empty
  route that stands for the failure, and every request of the next second is dropped.\<close>

theorem failed_refresh_drops_requests:
  assumes cached: "routingMap s port = Some ri" "ri_deadline ri < now env"
    and fails: "test_route c port = None" "post (ControlHost c @ middleRoutingURL @ ''?ip='' @ self_ip c) (route_request c port) = Inl err"
    and later: "fetched env' = GetRoutingFromControlPlane post c port" "now env'' \<le> now env' + routeTimeout"
    and read: "ReadBytes conn [] = Some (dat, rest)"
  shows "\<exists>s1 s2 s3. find_route env port s = (ri_info ri, s1) \<and> s2 = finish_refresh env' port s1
    \<and> handleConnection env'' clientIP port conn s2 = Inr (NoRoute, s3) \<and> inputChan s3 = inputChan s"
proof -
  let ?s1 = "s\<lparr>refreshing := refreshing s @ [port]\<rparr>"
  let ?s2 = "finish_refresh env' port ?s1"
  have f: "fetched env' = no_routing" using fails later(1) by (simp add: GetRoutingFromControlPlane_def)
  have "used_route env'' port ?s2 = no_routing" "inputChan ?s2 = inputChan s"
    by (simp_all add: finish_refresh_def store_route_def used_route_def f)
  then have "\<exists>s3. handleConnection env'' clientIP port conn ?s2 = Inr (NoRoute, s3) \<and> inputChan s3 = inputChan s"
    using tcp_request_no_route [of env'' port "?s2\<lparr>reqSeq := snd (GenShortReqID clientIP (reqSeq ?s2))\<rparr>" clientIP
        "fst (GenShortReqID clientIP (reqSeq ?s2))" dat]
    by (simp add: handleConnection_reads [OF read] no_routing_def)
  moreover have "find_route env port s = (ri_info ri, ?s1)" using cached by (simp add: find_route_def)
  ultimately show ?thesis by blast
qed

definition sample_proxy_config :: Config where
  "sample_proxy_config = \<lparr>cfg_Port = '''', ControlHost = ''http://c'', TestRouting = [], AggWorkerNum = 0, AggWorkerCount = 0, TcpWorkerCount = 0,
     BackWorkerCount = 0, TunnelConcurrentLimit = 0, Listeners = [], cfg_RateLimit = \<lparr>QPS = 1, Burst = 1, CleanInterval = 1\<rparr>,
     cfg_Aggregator = \<lparr>BufferSize = 0, BatchTimeoutMs = 0\<rparr>,
     cfg_Node = \<lparr>nc_Provider = ''p'', nc_Continent = '''', nc_Country = '''', nc_City = '''', nc_IP = \<lparr>ip_Private = '''', ip_Public = ''0.0.0.1''\<rparr>\<rparr>\<rparr>"

definition sample_proxy :: "PathInfo list \<Rightarrow> proxy" where
  "sample_proxy paths = \<lparr>routingMap = [80 \<mapsto> \<lparr>ri_info = \<lparr>Routing = paths\<rparr>, ri_deadline = 5\<rparr>], refreshing = [], reqSeq = 0,
     accessLogMap = Map.empty, disagg = NewDisaggregator, inputChan = []\<rparr>"

definition sample_env :: "time \<Rightarrow> environment" where
  "sample_env t = \<lparr>now = t, tcpRTT = 1, fetched = no_routing\<rparr>"

theorem failed_refresh_drops_requests_witness:
  "\<exists>paths s1 s2 s3. paths = [\<lparr>Hops = route_hops [1, 2, 3] 443, Rtt = 0, RawRTT = 0\<rparr>]
     \<and> find_route (sample_env 9) 80 (sample_proxy paths) = (\<lparr>Routing = paths\<rparr>, s1)
     \<and> GetRoutingFromControlPlane (\<lambda>url req. Inl ''refused'') sample_proxy_config 80 = no_routing
     \<and> s2 = finish_refresh (sample_env 12) 80 s1
     \<and> handleConnection (sample_env 20) ''1.2.3.4'' 80 [[71, 10]] s2 = Inr (NoRoute, s3) \<and> inputChan s3 = []"
proof -
  let ?p = "[\<lparr>Hops = route_hops [1, 2, 3] 443, Rtt = 0, RawRTT = 0\<rparr>]"
  let ?post = "\<lambda>url req. Inl ''refused'' :: RoutingResponse result"
  have t: "test_route sample_proxy_config 80 = None" by (simp add: test_route_def TestPathMap_def sample_proxy_config_def)
  have f: "GetRoutingFromControlPlane ?post sample_proxy_config 80 = no_routing" by (simp add: GetRoutingFromControlPlane_def t)
  show ?thesis
    using failed_refresh_drops_requests [where s = "sample_proxy ?p" and port = 80 and env = "sample_env 9" and env' = "sample_env 12"
        and env'' = "sample_env 20" and post = ?post and c = sample_proxy_config and conn = "[[71, 10]]" and clientIP = "''1.2.3.4''",
        OF _ _ t, where err = "''refused''" and dat = "[71, 10]" and rest = "[]" and ri = "\<lparr>ri_info = \<lparr>Routing = ?p\<rparr>, ri_deadline = 5\<rparr>"] f
    by (simp add: sample_proxy_def sample_env_def routeTimeout_def second_def millisecond_def newline_def)
qed

text \<open>C40. A route that goes from the proxy straight to the origin does not work over TCP: when no path
  of the route has more than two hops, the handler takes the first one, whose second hop is the
  origin with its port. This does not parse as an address, so that the message has no next hop,
  and the client waits for a response to it.\<close>

theorem direct_route_has_no_next_hop:
  assumes "ReadBytes conn [] = Some (dat, rest)"
    and "Routing (used_route env port s) = p # ps" "list_all (\<lambda>q. length (Hops q) \<le> 2) (p # ps)"
    and "Hops p = route_hops [a, b] n" "n \<le> 65535"
  shows "\<exists>reqID s' msg. handleConnection env clientIP port conn s = Inr (Waiting reqID (next_chan (disagg s)), s')
    \<and> inputChan s' = inputChan s @ [msg] \<and> msg_nextHop msg = None \<and> IP_String (msg_nextHop msg) = ''<nil>''
    \<and> msg_userID msg = reqID \<and> msg_data msg = dat"
proof -
  let ?id = "fst (GenShortReqID clientIP (reqSeq s))"
  have sel: "select_path (Routing (used_route env port s)) = p" using select_path_short [OF assms(3)] assms(2) by simp
  have "2 \<le> length [a, b]" by simp
  note M = make_msg_route [OF this assms(5,4), of False "''tcp''" ?id dat]
  from handleConnection_submits [OF assms(1) _ M [folded sel]] assms(2) show ?thesis
    by (auto simp: IP_String_def)
qed

theorem direct_route_has_no_next_hop_witness:
  "\<exists>paths reqID s' msg. paths = [\<lparr>Hops = route_hops [1, 2] 443, Rtt = 0, RawRTT = 0\<rparr>]
     \<and> handleConnection (sample_env 3) ''1.2.3.4'' 80 [[71], [72, 10, 73]] (sample_proxy paths) = Inr (Waiting reqID 0, s')
     \<and> inputChan s' = [msg] \<and> msg_nextHop msg = None \<and> msg_data msg = [71, 72, 10]"
proof -
  let ?p = "\<lparr>Hops = route_hops [1, 2] 443, Rtt = 0, RawRTT = 0\<rparr>"
  have "\<exists>reqID s' msg. handleConnection (sample_env 3) ''1.2.3.4'' 80 [[71], [72, 10, 73]] (sample_proxy [?p])
        = Inr (Waiting reqID (next_chan (disagg (sample_proxy [?p]))), s')
      \<and> inputChan s' = inputChan (sample_proxy [?p]) @ [msg] \<and> msg_nextHop msg = None \<and> IP_String (msg_nextHop msg) = ''<nil>''
      \<and> msg_userID msg = reqID \<and> msg_data msg = [71, 72, 10]"
    by (rule direct_route_has_no_next_hop [where p = ?p and ps = "[]" and rest = "[]" and a = 1 and b = 2 and n = 443])
      (simp_all add: newline_def used_route_def sample_proxy_def route_hops_def)
  then show ?thesis by (simp add: sample_proxy_def NewDisaggregator_def) blast
qed

text \<open>C22. The map of the listeners is well typed along every interleaving of the listeners of the
  configuration, the requests to start and to stop a port and the accept loops: the two maps agree on
  the ports, and a step panics exactly when it stops a UDP listener as a TCP one, or when it starts a
  TCP accept loop whose port has no TCP listener at that moment, always with a type assertion. A
  request whose socket is opened leaves a listener for its own accept loop, and only a later step for
  the same port can take it away.\<close>

theorem listeners_typed:
  assumes "go_run manage_step es new_manager = Inr st"
  shows "servers_ok (srv st)
    \<and> (\<forall>e p. manage_step e st = Inl p \<longleftrightarrow> p = TypeAssertion \<and> asserts_wrong_type st e)
    \<and> (\<forall>i op port u st'. i < length (checked st) \<and> checked st ! i = (op, port) \<and> manage_step (ListenE i (Inr u)) st = Inr st'
         \<longrightarrow> StartServerRun op port (srv st') = Inr True \<and> (op, port) \<in> set (launched st'))
    \<and> (\<forall>e port st'. manage_step e st = Inr st' \<and> \<not> names_port st e port
         \<longrightarrow> listenerMap (srv st') port = listenerMap (srv st) port)"
proof -
  have ok: "servers_ok (srv st)" using manage_run_ok [OF assms] by (simp add: servers_ok_def new_manager_def)
  have "manage_step e st = Inl p \<longleftrightarrow> p = TypeAssertion \<and> asserts_wrong_type st e" for e p
    using manage_typed [OF ok, of e] by (auto split: if_splits)
  with ok listen_finds manage_frame show ?thesis by blast
qed

text \<open>A stop between the answer to a start request and its accept loop ends the program, and so do two
  start requests for one port, of which the second opens a UDP socket after the checks of both.\<close>

lemma stop_before_run:
  "go_run manage_step [CheckE ''80'' ''tcp'', ListenE 0 (Inr ()), StopE (Inr ()) ''80'' ''tcp'', RunE 0] new_manager = Inl TypeAssertion"
  "go_run manage_step [CheckE ''80'' ''tcp'', CheckE ''80'' ''udp'', ListenE 0 (Inr ()), ListenE 0 (Inr ()), RunE 0] new_manager = Inl TypeAssertion"
proof -
  have c: "check_query ''80'' ''tcp'' = Inr 80" "check_query ''80'' ''udp'' = Inr 80" by code_simp+
  note defs = start_check_def start_listen_def stop_handler_def main_servers_def InitServerInterface_def server_methods new_manager_def
    remove_nth_def remove_port_def c
  show "go_run manage_step [CheckE ''80'' ''tcp'', ListenE 0 (Inr ()), StopE (Inr ()) ''80'' ''tcp'', RunE 0] new_manager = Inl TypeAssertion"
    by (simp add: defs)
  show "go_run manage_step [CheckE ''80'' ''tcp'', CheckE ''80'' ''udp'', ListenE 0 (Inr ()), ListenE 0 (Inr ()), RunE 0] new_manager = Inl TypeAssertion"
    by (simp add: defs)
qed

theorem listeners_typed_witness:
  "\<exists>st. go_run manage_step [CheckE ''80'' ''tcp'', ListenE 0 (Inr ()), BootE ''udp'' 81 (Inr ())] new_manager = Inr st
     \<and> servers_ok (srv st) \<and> manage_step (StopE (Inr ()) ''81'' ''tcp'') st = Inl TypeAssertion
     \<and> (\<forall>p. manage_step (RunE 0) st \<noteq> Inl p)"
proof -
  have c: "check_query ''80'' ''tcp'' = Inr 80" "check_query ''81'' ''tcp'' = Inr 81" by code_simp+
  obtain st where run: "go_run manage_step [CheckE ''80'' ''tcp'', ListenE 0 (Inr ()), BootE ''udp'' 81 (Inr ())] new_manager = Inr st"
    and st: "listenerMap (srv st) = [80 \<mapsto> TCPListener, 81 \<mapsto> UDPConn]" "\<exists>t. launched st = [(OpTCP t, 80), (OpUDP NewUDPServer, 81)]"
    by (simp add: start_check_def start_listen_def boot_listener_def main_servers_def InitServerInterface_def server_methods
        new_manager_def remove_nth_def c)
  have "asserts_wrong_type st (StopE (Inr ()) ''81'' ''tcp'')" "\<not> asserts_wrong_type st (RunE 0)" using st c by auto
  moreover note typed = listeners_typed [OF run]
  moreover have "manage_step e st = Inl p \<longleftrightarrow> p = TypeAssertion \<and> asserts_wrong_type st e" for e p
    by (rule conjunct1 [OF conjunct2 [OF typed], THEN spec, THEN spec])
  ultimately have "manage_step (StopE (Inr ()) ''81'' ''tcp'') st = Inl TypeAssertion" "\<forall>p. manage_step (RunE 0) st \<noteq> Inl p"
    by (simp_all only: simp_thms not_False_eq_True)
  then show ?thesis using run conjunct1 [OF typed] by blast
qed

end
