(* ===== verification/Aggregator_V2.thy ===== *)
theory Aggregator_V2
  imports Aggregator
begin

unbundle bit_operations_syntax

text \<open>
  The second aggregator (data-proxy/aggregator/aggregator_v2.go), which the program does not use.
  Messages are spread over sixteen shards by a hash of their route; a shard has the batches and
  the heap of a worker of the first aggregator, and the steps on them that both have in common
  are the ones of that theory. Packets are copied into pooled buffers of 64 KB and handed to a pool
  of senders. A goroutine that receives from a channel is a step that takes its oldest element;
  the steps of a shard put their packets into the channel of tasks.
\<close>

section \<open>State\<close>

definition shardCount :: nat where "shardCount = 16"
definition poolSize :: nat where "poolSize = 64 * 1024"

record AggregatorV2 =
  v2_input :: "aggregatorMsg list"
  shardWorkers :: "worker list"
  sendTaskCh :: "sendInfo list"
  sendWorkers :: "sendInfo list list"
  v2_stopped :: bool

definition fnv32a :: "byte list \<Rightarrow> u32" where
  "fnv32a bs = foldl (\<lambda>h b. (h XOR ucast b) * 16777619) 2166136261 bs"

definition hashRoutingKey :: "string \<Rightarrow> nat" where
  "hashRoutingKey key = unat (fnv32a (map of_char key)) mod shardCount"

definition aggWorkerCount :: nat where "aggWorkerCount = 8"

text \<open>\<open>configured\<close> is the number of senders in the configuration.\<close>

definition NewAggregatorV2 :: "int \<Rightarrow> AggregatorV2" where
  "NewAggregatorV2 configured =
     \<lparr>v2_input = [], shardWorkers = replicate shardCount new_worker, sendTaskCh = [],
      sendWorkers = replicate (if configured \<le> 0 then aggWorkerCount else nat configured) [], v2_stopped = False\<rparr>"

definition AddToBatchV2 :: "aggregatorMsg \<Rightarrow> AggregatorV2 \<Rightarrow> AggregatorV2 go" where
  "AddToBatchV2 msg a = (if v2_stopped a then Inl SendOnClosed else Inr (a\<lparr>v2_input := v2_input a @ [msg]\<rparr>))"

section \<open>Packets\<close>

text \<open>A pooled buffer is sliced to the length of the packet.\<close>

definition pool_wire :: "Packet \<Rightarrow> (byte list \<times> Packet) go" where
  "pool_wire p =
     (case SerializeHead p of
        Inl e \<Rightarrow> Inl e
      | Inr p \<Rightarrow> if poolSize < TotalBytes p \<or> length (Buf p) < TotalBytes p then Inl SliceBounds
                 else Inr (take (TotalBytes p) (Buf p), p))"

definition emit :: "byte list \<Rightarrow> string \<Rightarrow> net_IP \<Rightarrow> worker \<Rightarrow> worker" where
  "emit buf routingKey nh w = w\<lparr>sent := sent w @ [\<lparr>send_p = buf, send_routingKey = routingKey, send_next = nh\<rparr>]\<rparr>"

definition send_now_V2 :: "nat \<Rightarrow> aggregatorMsg \<Rightarrow> worker \<Rightarrow> worker go" where
  "send_now_V2 buffSize msg w =
     (case AppendUserPacket (msg_userID msg) (msg_data msg) (route_packet buffSize msg) of
        Inl e \<Rightarrow> Inl e
      | Inr (False, p) \<Rightarrow> Inr w
      | Inr (True, p) \<Rightarrow>
          (case pool_wire p of
             Inl e \<Rightarrow> Inl e
           | Inr (buf, p) \<Rightarrow> Inr (emit buf (msg_routingKey msg) (msg_nextHop msg) w)))"

definition handleMsg_V2 :: "agg_config \<Rightarrow> time \<Rightarrow> aggregatorMsg \<Rightarrow> worker \<Rightarrow> worker go" where
  "handleMsg_V2 cfg now msg w =
     (let batchTimeout = BatchTimeoutMs cfg * millisecond;
          large = length (msg_data msg) \<ge> 1024;
          buffSize = (if large then HeaderSize + 4 + 2 + length (msg_data msg) else BufferSize cfg)
      in if msg_emerge msg \<or> large then send_now_V2 buffSize msg w
         else case find_batch cfg buffSize now msg w of
                (None, w) \<Rightarrow> Inr w
              | (Some bid, w) \<Rightarrow> add_to_batch buffSize batchTimeout now msg bid w)"

fun send_expired_V2 :: "time \<Rightarrow> HeapItem list \<Rightarrow> worker \<Rightarrow> worker go" where
  "send_expired_V2 now [] w = Inr w"
| "send_expired_V2 now (it # its) w =
     (case store w (item_batch it) of
        None \<Rightarrow> Inl NilDereference
      | Some b \<Rightarrow>
          (case pool_wire (batch_pkt b) of
             Inl e \<Rightarrow> Inl e
           | Inr (buf, p) \<Rightarrow>
               send_expired_V2 now its (emit buf (RoutingKey b) (NextHop b)
                 (w\<lparr>store := (store w)(item_batch it \<mapsto>
                      b\<lparr>batch_pkt := p\<lparr>Wp := HeaderSize\<rparr>, createTime := now, heapItem := None\<rparr>)\<rparr>))))"

definition checkTimeout_V2 :: "time \<Rightarrow> worker \<Rightarrow> worker go" where
  "checkTimeout_V2 now w =
     (case pop_expired now (w_heap w) of (es, h) \<Rightarrow> send_expired_V2 now es (w\<lparr>w_heap := h\<rparr>))"

section \<open>Goroutines\<close>

text \<open>A step on a shard, whose packets go to the common channel.\<close>

definition on_shard :: "(worker \<Rightarrow> worker go) \<Rightarrow> nat \<Rightarrow> AggregatorV2 \<Rightarrow> AggregatorV2 go" where
  "on_shard f i a =
     (if i < length (shardWorkers a)
      then case f (shardWorkers a ! i) of
             Inl e \<Rightarrow> Inl e
           | Inr w \<Rightarrow> Inr (a\<lparr>shardWorkers := (shardWorkers a)[i := w\<lparr>sent := []\<rparr>], sendTaskCh := sendTaskCh a @ sent w\<rparr>)
      else Inl IndexOutOfRange)"

text \<open>The goroutine of shard \<open>i\<close> receives a message. All sixteen of them receive from the same channel.\<close>

definition shard_receive :: "agg_config \<Rightarrow> time \<Rightarrow> nat \<Rightarrow> AggregatorV2 \<Rightarrow> AggregatorV2 go" where
  "shard_receive cfg now i a =
     (case v2_input a of
        [] \<Rightarrow> Inr a
      | msg # rest \<Rightarrow>
          let a = a\<lparr>v2_input := rest\<rparr>
          in if hashRoutingKey (msg_routingKey msg) = i then on_shard (handleMsg_V2 cfg now msg) i a else Inr a)"

definition shard_timeout :: "time \<Rightarrow> nat \<Rightarrow> AggregatorV2 \<Rightarrow> AggregatorV2 go" where
  "shard_timeout now = on_shard (checkTimeout_V2 now)"

text \<open>The eviction visits the shards in turn; \<open>order i\<close> is the order of the keys of shard \<open>i\<close>.\<close>

fun evict_shards :: "time \<Rightarrow> (nat \<Rightarrow> string list) \<Rightarrow> nat list \<Rightarrow> AggregatorV2 \<Rightarrow> AggregatorV2 go" where
  "evict_shards now order [] a = Inr a"
| "evict_shards now order (i # is) a =
     (case on_shard (evictStaleBatches now (order i)) i a of Inl e \<Rightarrow> Inl e | Inr a \<Rightarrow> evict_shards now order is a)"

definition evictStaleBatches_V2 :: "time \<Rightarrow> (nat \<Rightarrow> string list) \<Rightarrow> AggregatorV2 \<Rightarrow> AggregatorV2 go" where
  "evictStaleBatches_V2 now order a = evict_shards now order [0..<shardCount] a"

text \<open>The dispatcher hands the oldest task to a sender; after a stop the channel of the sender is closed.\<close>

definition dispatch :: "AggregatorV2 \<Rightarrow> AggregatorV2 go" where
  "dispatch a =
     (case sendTaskCh a of
        [] \<Rightarrow> Inr a
      | task # rest \<Rightarrow>
          if v2_stopped a then Inl SendOnClosed
          else let idx = hashRoutingKey (send_routingKey task) mod length (sendWorkers a)
               in Inr (a\<lparr>sendTaskCh := rest, sendWorkers := (sendWorkers a)[idx := sendWorkers a ! idx @ [task]]\<rparr>))"

text \<open>A sender takes its oldest task, or the zero value once its channel is closed and empty. Its own
  stop channel is never closed: it goes on for ever.\<close>

definition sender_step :: "nat \<Rightarrow> AggregatorV2 \<Rightarrow> sendInfo option \<times> AggregatorV2" where
  "sender_step j a =
     (case sendWorkers a ! j of
        [] \<Rightarrow> (if v2_stopped a then Some \<lparr>send_p = [], send_routingKey = '''', send_next = None\<rparr> else None, a)
      | task # rest \<Rightarrow> (Some task, a\<lparr>sendWorkers := (sendWorkers a)[j := rest]\<rparr>))"

definition Stop_V2 :: "AggregatorV2 \<Rightarrow> AggregatorV2 go" where
  "Stop_V2 a = (if v2_stopped a then Inl CloseOfClosed else Inr (a\<lparr>v2_stopped := True\<rparr>))"

section \<open>Facts\<close>

lemma hash_bound: "hashRoutingKey key < shardCount"
  by (simp add: hashRoutingKey_def shardCount_def)

text \<open>A packet that fits into a pooled buffer is sent as the first aggregator sends it.\<close>

lemma pool_wire_fits: "wire p = Inr (buf, q) \<Longrightarrow> length buf \<le> poolSize \<Longrightarrow> pool_wire p = Inr (buf, q)"
  by (auto simp: wire_def pool_wire_def split: sum.splits if_splits)

lemma send_now_V2_same:
  assumes "HeaderSize \<le> n" "n \<le> poolSize"
  shows "send_now_V2 n msg w = send_now n msg w"
proof (cases "HeaderSize + 6 + length (msg_data msg) \<le> n")
  case False
  then show ?thesis
    using append_full [of "route_packet n msg" "msg_data msg" "msg_userID msg"] by (simp add: send_now_def send_now_V2_def)
next
  case True
  have "wf_packet (route_packet n msg)" using route_packet_holds [OF assms(1)] by (simp add: holds_def)
  from append_fits [OF this, of "msg_data msg" "msg_userID msg"] True obtain p where
    p: "AppendUserPacket (msg_userID msg) (msg_data msg) (route_packet n msg) = Inr (True, p)" "wf_packet p" "BuffSize p = n"
    by auto
  let ?buf = "take (TotalBytes p) (header_bytes p @ drop 22 (Buf p))"
  have "TotalBytes p \<le> n" "0 < TotalBytes p"
    using p(2,3) unat_of_nat_le [of "Wp p - HeaderSize"] by (auto simp: wf_packet_def TotalBytes_def HeaderSize_def)
  moreover have "header_bytes p \<noteq> []" by (simp add: header_bytes_def)
  ultimately have "length ?buf \<le> poolSize" "?buf \<noteq> []" using assms(2) by auto
  with wire_wf [OF p(2)] obtain buf q where "wire p = Inr (buf, q)" "length buf \<le> poolSize" "buf \<noteq> []" by blast
  then show ?thesis
    using p(1) pool_wire_fits [of p buf q] by (simp add: send_now_def send_now_V2_def flush_def emit_def)
qed

lemma send_now_V2_packet:
  assumes "sent w = []" "msg_data msg \<noteq> []" "HeaderSize + 6 + length (msg_data msg) \<le> n" "n \<le> poolSize"
  shows "\<exists>buf. send_now_V2 n msg w = Inr (emit buf (msg_routingKey msg) (msg_nextHop msg) w)
    \<and> packet_subs buf = [\<lparr>UserID = msg_userID msg, Data = msg_data msg\<rparr>]"
proof -
  let ?s = "\<lparr>UserID = msg_userID msg, Data = msg_data msg\<rparr>"
  have h: "HeaderSize \<le> n" using assms(3) by simp
  have hold: "holds (route_packet n msg) []" by (rule route_packet_holds [OF h])
  then have "wf_packet (route_packet n msg)" by (simp add: holds_def)
  from append_fits [OF this, of "msg_data msg" "msg_userID msg"] hold assms(3) obtain p where
    p: "AppendUserPacket (msg_userID msg) (msg_data msg) (route_packet n msg) = Inr (True, p)" "holds p [?s]" "BuffSize p = n"
    by (auto simp: holds_def)
  have "sendable ?s" "n < HeaderSize + 2 ^ 16" using assms(2-4) by (simp_all add: sendable_def poolSize_def HeaderSize_def)
  from wire_holds [OF p(2)] this p(3) obtain buf p' q where
    "wire p = Inr (buf, p')" "buf \<noteq> []" "Parse buf (length buf) = Inr (Inr (q, [?s]))" by auto
  then show ?thesis
    unfolding send_now_V2_same [OF h assms(4)] using p(1) by (auto simp: send_now_def flush_def emit_def packet_subs_def)
qed

text \<open>Between the steps of the goroutines the packets of the shards are in the common channel.\<close>

definition v2_ok :: "AggregatorV2 \<Rightarrow> bool" where
  "v2_ok a \<longleftrightarrow> length (shardWorkers a) = shardCount \<and> (\<forall>i < shardCount. sent (shardWorkers a ! i) = [])"

lemma v2_ok_init: "v2_ok (NewAggregatorV2 configured)"
  by (simp add: v2_ok_def NewAggregatorV2_def new_worker_def)

lemma v2_ok_shard: "v2_ok a \<Longrightarrow> on_shard f i a = Inr a' \<Longrightarrow> v2_ok a'"
  by (auto simp: v2_ok_def on_shard_def nth_list_update split: if_splits sum.splits)

lemma v2_ok_evict: "v2_ok a \<Longrightarrow> evict_shards now order is a = Inr a' \<Longrightarrow> v2_ok a'"
  by (induction now order "is" a rule: evict_shards.induct) (auto dest: v2_ok_shard split: sum.splits)

lemma v2_ok_steps:
  assumes "v2_ok a"
  shows "shard_receive cfg now i a = Inr a' \<Longrightarrow> v2_ok a'" "shard_timeout now i a = Inr a' \<Longrightarrow> v2_ok a'"
    "evictStaleBatches_V2 now order a = Inr a' \<Longrightarrow> v2_ok a'" "dispatch a = Inr a' \<Longrightarrow> v2_ok a'" "AddToBatchV2 msg a = Inr a' \<Longrightarrow> v2_ok a'"
proof -
  have input: "v2_ok (a\<lparr>v2_input := r\<rparr>)" for r using assms by (simp add: v2_ok_def)
  show "shard_receive cfg now i a = Inr a' \<Longrightarrow> v2_ok a'"
    using assms v2_ok_shard [OF input] input by (auto simp: shard_receive_def Let_def split: list.splits if_splits)
  show "shard_timeout now i a = Inr a' \<Longrightarrow> v2_ok a'" using v2_ok_shard [OF assms] by (simp add: shard_timeout_def)
  show "evictStaleBatches_V2 now order a = Inr a' \<Longrightarrow> v2_ok a'" using v2_ok_evict [OF assms] by (simp add: evictStaleBatches_V2_def)
  show "dispatch a = Inr a' \<Longrightarrow> v2_ok a'" "AddToBatchV2 msg a = Inr a' \<Longrightarrow> v2_ok a'"
    using assms by (auto simp: v2_ok_def dispatch_def AddToBatchV2_def Let_def split: list.splits if_splits)
qed

text \<open>A stopped sender without tasks sends empty packets and does not change.\<close>

lemma stopped_sender_spins:
  assumes "Stop_V2 a = Inr a'" "sendWorkers a ! j = []"
  shows "sender_step j a' = (Some \<lparr>send_p = [], send_routingKey = '''', send_next = None\<rparr>, a')"
  using assms by (auto simp: Stop_V2_def sender_step_def split: if_splits)

text \<open>A task that is still in the channel when the aggregator is stopped makes the dispatcher panic.\<close>

lemma stop_panics_dispatcher: "Stop_V2 a = Inr a' \<Longrightarrow> sendTaskCh a \<noteq> [] \<Longrightarrow> dispatch a' = Inl SendOnClosed"
  by (auto simp: Stop_V2_def dispatch_def split: if_splits list.split)

section \<open>Properties\<close>

text \<open>C36. The second aggregator loses most messages: the goroutines of all shards receive from one
  channel, and one that receives a message of another shard drops it. A large message becomes a
  packet that carries it when the goroutine of its own shard receives it; each of the other
  fifteen removes it from the channel and changes nothing else.\<close>

theorem v2_shards_lose_messages:
  assumes "v2_ok a" "v2_input a = msg # rest" "1024 \<le> length (msg_data msg)" "HeaderSize + 6 + length (msg_data msg) \<le> poolSize"
  shows "card {i. i < shardCount \<and> shard_receive cfg now i a = Inr (a\<lparr>v2_input := rest\<rparr>)} = 15
    \<and> (\<exists>a' t. shard_receive cfg now (hashRoutingKey (msg_routingKey msg)) a = Inr a' \<and> sendTaskCh a' = sendTaskCh a @ [t]
         \<and> send_next t = msg_nextHop msg \<and> packet_subs (send_p t) = [\<lparr>UserID = msg_userID msg, Data = msg_data msg\<rparr>])"
proof -
  let ?h = "hashRoutingKey (msg_routingKey msg)"
  let ?w = "shardWorkers a ! ?h"
  have h: "?h < length (shardWorkers a)" using assms(1) hash_bound by (simp add: v2_ok_def)
  then have "sent ?w = []" using assms(1) hash_bound by (simp add: v2_ok_def)
  moreover have "msg_data msg \<noteq> []" using assms(3) by auto
  ultimately obtain buf where b: "send_now_V2 (HeaderSize + 4 + 2 + length (msg_data msg)) msg ?w = Inr (emit buf (msg_routingKey msg) (msg_nextHop msg) ?w)"
    "packet_subs buf = [\<lparr>UserID = msg_userID msg, Data = msg_data msg\<rparr>]"
    using send_now_V2_packet [of ?w msg "HeaderSize + 4 + 2 + length (msg_data msg)"] assms(4) by auto
  have own: "\<exists>a' t. shard_receive cfg now ?h a = Inr a' \<and> sendTaskCh a' = sendTaskCh a @ [t]
      \<and> send_next t = msg_nextHop msg \<and> packet_subs (send_p t) = [\<lparr>UserID = msg_userID msg, Data = msg_data msg\<rparr>]"
    using assms(2,3) h b \<open>sent ?w = []\<close> by (simp add: shard_receive_def on_shard_def handleMsg_V2_def Let_def emit_def)
  let ?lost = "\<lambda>i. shard_receive cfg now i a = Inr (a\<lparr>v2_input := rest\<rparr>)"
  have "?lost i" if "i \<noteq> ?h" for i using that assms(2) by (simp add: shard_receive_def)
  moreover have "\<not> ?lost ?h" using own by auto
  ultimately have "{i. i < shardCount \<and> ?lost i} = {..<shardCount} - {?h}" by blast
  moreover have "card ({..<shardCount} - {?h}) = 15" using hash_bound [of "msg_routingKey msg"] by (simp add: shardCount_def)
  ultimately show ?thesis using own by simp
qed

definition large_data :: "byte list" where
  "large_data = replicate 2000 7"

lemma length_large: "length large_data = 2000"
  unfolding large_data_def by (rule length_replicate)

theorem v2_shards_lose_messages_witness:
  "\<exists>msg a. length (msg_data msg) = 2000 \<and> a = (NewAggregatorV2 4)\<lparr>v2_input := [msg]\<rparr>
     \<and> card {i. i < shardCount \<and> shard_receive \<lparr>BufferSize = 4096, BatchTimeoutMs = 50, BatchNumMap = Map.empty\<rparr> 7 i a = Inr (a\<lparr>v2_input := []\<rparr>)} = 15"
proof -
  let ?msg = "\<lparr>msg_emerge = False, msg_routingKey = ''0.0.0.1,0.0.0.2'', msg_protocol = ''tcp'', msg_port = 80,
    msg_routingInfo = \<lparr>Hops = [''0.0.0.1'', ''0.0.0.2''], Rtt = 0, RawRTT = 0\<rparr>, msg_nextHop = Some 2, msg_userID = 5, msg_data = large_data\<rparr>"
  let ?a = "(NewAggregatorV2 4)\<lparr>v2_input := [?msg]\<rparr>"
  have "v2_ok ?a" using v2_ok_init [of 4] by (simp add: v2_ok_def)
  from v2_shards_lose_messages [OF this, of ?msg "[]"] show ?thesis
    by (intro exI [of _ ?msg] exI [of _ ?a]) (simp add: poolSize_def HeaderSize_def length_large)
qed

end
