(* ===== verification/IP_Library.thy ===== *)
theory IP_Library
  imports Go_Strings
begin

text \<open>
  The location of addresses in the data plane (data-plane/util/ip-lib.go, continent.go) and the
  handler that serves it (data-plane/main.go). The ip2location database is a parameter: it is nil
  or answers a lookup. Reading and parsing a file is a result. \<open>ks\<close> is the order in which the
  overrides are iterated.
\<close>

section \<open>Lookup\<close>

record ipOverride =
  ov_Country :: string
  ov_Continent :: string
  ov_Province :: string
  ov_City :: string

record IPInfoResult_dp =
  info_IP :: string
  info_Country :: string
  info_Continent :: string
  info_Province :: string
  info_City :: string
  info_ISP :: string

text \<open>The fields of an answer of the database that are used.\<close>

record db_record =
  Country_short :: string
  db_Region :: string
  db_City :: string

record ip_lib =
  ipDb :: "(string \<Rightarrow> db_record result) option"
  ipOverrides :: "string \<rightharpoonup> ipOverride"
  countryToContinent :: "string \<rightharpoonup> string"

definition loadIPOverrides :: "(string \<rightharpoonup> ipOverride) result \<Rightarrow> ip_lib \<Rightarrow> ip_lib" where
  "loadIPOverrides raw l = (case raw of Inl err \<Rightarrow> l | Inr m \<Rightarrow> l\<lparr>ipOverrides := m\<rparr>)"

text \<open>A database that cannot be opened is logged only: the error returned is always nil.\<close>

definition InitIPInfo :: "(string \<Rightarrow> db_record result) option \<Rightarrow> (string \<rightharpoonup> ipOverride) result \<Rightarrow> ip_lib \<Rightarrow> unit result \<times> ip_lib" where
  "InitIPInfo db raw l = (Inr (), loadIPOverrides raw (l\<lparr>ipDb := db\<rparr>))"

text \<open>An entry of the country file: its name and its continent.\<close>

definition LoadCountryContinent :: "(string \<rightharpoonup> string \<times> string) result \<Rightarrow> ip_lib \<Rightarrow> unit result \<times> ip_lib" where
  "LoadCountryContinent raw l =
     (case raw of Inl err \<Rightarrow> (Inl err, l) | Inr m \<Rightarrow> (Inr (), l\<lparr>countryToContinent := map_option snd \<circ> m\<rparr>))"

definition GetContinentByCountry :: "string \<Rightarrow> ip_lib \<Rightarrow> string" where
  "GetContinentByCountry country l = (case countryToContinent l country of Some c \<Rightarrow> c | None \<Rightarrow> ''Unknown'')"

definition HasPrefix :: "string \<Rightarrow> string \<Rightarrow> bool" where
  "HasPrefix s p \<longleftrightarrow> take (length p) s = p"

definition findIPOverride :: "string list \<Rightarrow> string \<Rightarrow> ip_lib \<Rightarrow> ipOverride option" where
  "findIPOverride ks ip l =
     (case ipOverrides l ip of
        Some ov \<Rightarrow> Some ov
      | None \<Rightarrow> (case find (HasPrefix ip) ks of Some p \<Rightarrow> ipOverrides l p | None \<Rightarrow> None))"

definition override_with :: "string \<Rightarrow> string \<Rightarrow> string" where
  "override_with new old = (if new \<noteq> '''' then new else old)"

definition GetIPInfo_dp :: "string list \<Rightarrow> string \<Rightarrow> ip_lib \<Rightarrow> IPInfoResult_dp result" where
  "GetIPInfo_dp ks ip l =
     (case ipDb l of
        None \<Rightarrow> Inl ''ipDb is nil''
      | Some db \<Rightarrow>
          (case db ip of
             Inl err \<Rightarrow> Inl err
           | Inr res \<Rightarrow>
               let r = \<lparr>info_IP = ip, info_Country = Country_short res,
                        info_Continent = GetContinentByCountry (Country_short res) l,
                        info_Province = db_Region res, info_City = db_City res, info_ISP = ''''\<rparr>
               in Inr (case findIPOverride ks ip l of
                         None \<Rightarrow> r
                       | Some ov \<Rightarrow> r\<lparr>info_Country := override_with (ov_Country ov) (info_Country r),
                                      info_Continent := override_with (ov_Continent ov) (info_Continent r),
                                      info_Province := override_with (ov_Province ov) (info_Province r),
                                      info_City := override_with (ov_City ov) (info_City r)\<rparr>)))"

text \<open>The answer of the handler: status 400 or 500 with a message, or 200 with the result.\<close>

definition getIPInfoHandler :: "string list \<Rightarrow> string \<Rightarrow> ip_lib \<Rightarrow> int \<times> IPInfoResult_dp result" where
  "getIPInfoHandler ks ip l =
     (if ip = '''' then (400, Inl ''ip parameter is required'')
      else case GetIPInfo_dp ks ip l of Inl err \<Rightarrow> (500, Inl err) | Inr r \<Rightarrow> (200, Inr r))"

section \<open>Overrides\<close>

text \<open>An address with an override of its own gets it, whatever the order.\<close>

lemma exact_override: "ipOverrides l ip = Some ov \<Longrightarrow> findIPOverride ks ip l = Some ov"
  by (simp add: findIPOverride_def)

lemma override_prefix:
  assumes "range_order (ipOverrides l) ks" "findIPOverride ks ip l = Some ov"
  shows "\<exists>p. HasPrefix ip p \<and> ipOverrides l p = Some ov"
  using assms by (auto simp: findIPOverride_def HasPrefix_def find_Some_iff split: option.splits intro: exI [of _ ip])

lemma range_order_first:
  assumes "finite (dom m)" "m p \<noteq> None"
  shows "\<exists>ks. range_order m (p # ks)"
proof -
  obtain ks where "set ks = dom m - {p}" "distinct ks" using assms(1) finite_distinct_list [of "dom m - {p}"] by auto
  then show ?thesis using assms(2) by (intro exI [of _ ks]) (auto simp: range_order_def)
qed

text \<open>Without one, every prefix that matches can decide, however short.\<close>

lemma override_any_prefix:
  assumes "finite (dom (ipOverrides l))" "ipOverrides l ip = None" "HasPrefix ip p" "ipOverrides l p = Some ov"
  shows "\<exists>ks. range_order (ipOverrides l) ks \<and> findIPOverride ks ip l = Some ov"
proof -
  obtain ks where "range_order (ipOverrides l) (p # ks)" using range_order_first [OF assms(1), of p] assms(4) by auto
  then show ?thesis using assms by (intro exI [of _ "p # ks"]) (simp add: findIPOverride_def)
qed

text \<open>The fields of a located address are never made empty by an override.\<close>

lemma GetIPInfo_dp_city:
  assumes "GetIPInfo_dp ks ip l = Inr r" "ipDb l = Some db" "db ip = Inr res"
  shows "info_IP r = ip \<and> info_City r = (case findIPOverride ks ip l of None \<Rightarrow> db_City res | Some ov \<Rightarrow> override_with (ov_City ov) (db_City res))"
  using assms by (auto simp: GetIPInfo_dp_def Let_def split: option.splits)

end
