(* ===== verification/Edge_Telemetry.thy ===== *)
theory Edge_Telemetry
  imports IP_Library Graph_Manager Node_Config
begin

text \<open>
  The response times of users as an edge node measures them: the access log of the proxy is read
  every five seconds, and the records of the last ten seconds are summarised per city and sent to
  the control plane (data-plane/edge-domain/telemetry.go, report.go).

  The file is the string of its bytes, or an error. Parsing a time stamp is a parameter, and a
  floating point number is read exactly. \<open>ks\<close> is the order of the overrides of the address library.
\<close>

section \<open>Reading the log\<close>

record Record =
  Ts :: time
  ClientIP :: string
  ConnRT :: int
  rec_Continent :: string
  rec_Country :: string
  rec_Province :: string
  rec_City :: string

definition window :: duration where "window = 10 * second"

definition nl :: char where "nl = CHR 0x0A"

text \<open>Where the scan starts: at the beginning of a file of up to 32 KB, otherwise after the first
  newline among the 1024 bytes that are read 32 KB before its end, or after these bytes if there
  is none.\<close>

definition readSize :: nat where "readSize = 32 * 1024"

definition log_tail :: "string \<Rightarrow> string" where
  "log_tail chars =
     (if length chars > readSize
      then let rest = drop (length chars - readSize) chars; buf = take 1024 rest
           in if nl \<in> set buf then drop (length (takeWhile (\<lambda>c. c \<noteq> nl) buf) + 1) rest else drop (length buf) rest
      else chars)"

text \<open>The lines of a scanner, without their ends; the last one may lack a newline.\<close>

definition drop_cr :: "string \<Rightarrow> string" where
  "drop_cr s = (if s \<noteq> [] \<and> last s = CHR 0x0D then butlast s else s)"

function scan_lines :: "string \<Rightarrow> string list" where
  "scan_lines s =
     (if s = [] then []
      else drop_cr (takeWhile (\<lambda>c. c \<noteq> nl) s) # scan_lines (drop (length (takeWhile (\<lambda>c. c \<noteq> nl) s) + 1) s))"
  by pat_completeness auto
termination
  by (relation "measure length") auto

declare scan_lines.simps [simp del]

text \<open>The three patterns are a key and one or more characters of a class: the first place where both
  match.\<close>

fun extract_field :: "string \<Rightarrow> (char \<Rightarrow> bool) \<Rightarrow> string \<Rightarrow> string" where
  "extract_field key cls [] = ''''"
| "extract_field key cls (c # cs) =
     (let val = takeWhile cls (drop (length key) (c # cs))
      in if take (length key) (c # cs) = key \<and> val \<noteq> [] then val else extract_field key cls cs)"

definition nonspace :: "char \<Rightarrow> bool" where
  "nonspace c \<longleftrightarrow> c \<notin> {CHR 0x09, CHR 0x0A, CHR 0x0C, CHR 0x0D, CHR '' ''}"

definition digit_or_dot :: "char \<Rightarrow> bool" where
  "digit_or_dot c \<longleftrightarrow> digit_val c \<noteq> None \<or> c = CHR ''.''"

text \<open>\<open>ParseFloat\<close> of digits and dots: at most one dot and at least one digit, otherwise the
  ignored error comes with zero.\<close>

definition parse_float :: "string \<Rightarrow> float64" where
  "parse_float s =
     (case strings_split s ''.'' of
        [a] \<Rightarrow> (case parse_dec 0 a of Some n \<Rightarrow> real n | None \<Rightarrow> 0)
      | [a, b] \<Rightarrow> if a = [] \<and> b = [] then 0
                  else (case (parse_dec 0 a, parse_dec 0 b) of
                          (Some n, Some f) \<Rightarrow> real n + real f / 10 ^ length b
                        | _ \<Rightarrow> 0)
      | _ \<Rightarrow> 0)"

text \<open>\<open>math.Round\<close> of a number that is not negative.\<close>

definition go_round :: "float64 \<Rightarrow> int" where
  "go_round x = \<lfloor>x + 1 / 2\<rfloor>"

definition parse_line :: "(string \<Rightarrow> time option) \<Rightarrow> string list \<Rightarrow> ip_lib \<Rightarrow> string \<Rightarrow> Record option" where
  "parse_line parse_time ks l line =
     (let tsStr = extract_field ''time='' nonspace line;
          ip = extract_field ''client_ip='' nonspace line;
          rtStr = extract_field ''conn_rt_ms='' digit_or_dot line
      in if tsStr = '''' \<or> ip = '''' \<or> rtStr = '''' then None
         else case parse_time tsStr of
                None \<Rightarrow> None
              | Some ts \<Rightarrow>
                  (case GetIPInfo_dp ks ip l of
                     Inl err \<Rightarrow> None
                   | Inr info \<Rightarrow> Some \<lparr>Ts = ts, ClientIP = ip, ConnRT = go_round (parse_float rtStr), rec_Continent = '''',
                       rec_Country = info_Country info, rec_Province = info_Province info, rec_City = info_City info\<rparr>))"

definition readLatestLogs :: "(string \<Rightarrow> time option) \<Rightarrow> string list \<Rightarrow> ip_lib \<Rightarrow> string result \<Rightarrow> Record list \<Rightarrow> Record list" where
  "readLatestLogs parse_time ks l file records =
     (case file of
        Inl err \<Rightarrow> records
      | Inr chars \<Rightarrow> records @ List.map_filter (parse_line parse_time ks l) (scan_lines (log_tail chars)))"

section \<open>The summary\<close>

definition valid_records :: "time \<Rightarrow> Record list \<Rightarrow> Record list" where
  "valid_records t records =
     (let valid = filter (\<lambda>r. t - Ts r \<le> window) records in if valid = [] then records else valid)"

text \<open>The two maps that the loop fills: the sums and the response times.\<close>

definition add_record :: "Record \<Rightarrow> (string \<rightharpoonup> LastCongestion) \<times> (string \<rightharpoonup> int list) \<Rightarrow> (string \<rightharpoonup> LastCongestion) \<times> (string \<rightharpoonup> int list)" where
  "add_record r m =
     (let key = rec_City r; s = map_get \<lparr>Count = 0, SumRT = 0, AvgRT = 0, P95RT = 0\<rparr> (fst m) key
      in ((fst m)(key \<mapsto> s\<lparr>Count := Count s + 1, SumRT := SumRT s + of_int (ConnRT r)\<rparr>),
          (snd m)(key \<mapsto> map_get [] (snd m) key @ [ConnRT r])))"

definition p95Idx :: "nat \<Rightarrow> nat" where
  "p95Idx n = (let i = nat \<lfloor>real n * 0.95\<rfloor> in if i \<ge> n then n - 1 else i)"

definition finish_city :: "int list \<Rightarrow> LastCongestion \<Rightarrow> LastCongestion" where
  "finish_city rts s =
     (let avg = SumRT s / of_int (Count s); s = s\<lparr>AvgRT := (if avg \<le> 0 then 1 else avg)\<rparr>
      in if rts = [] then s
         else let p = sort rts ! p95Idx (length rts) in s\<lparr>P95RT := (if p \<le> 0 then 1 else p)\<rparr>)"

definition calculateLastCongestion :: "time \<Rightarrow> Record list \<Rightarrow> (string \<rightharpoonup> LastCongestion) \<times> Record list" where
  "calculateLastCongestion t records =
     (let valid = valid_records t records; m = fold add_record valid (Map.empty, Map.empty)
      in (\<lambda>k. map_option (finish_city (map_get [] (snd m) k)) (fst m k), valid))"

section \<open>The report\<close>

definition lastReceiveURL :: string where "lastReceiveURL = ''/api/v1/last/receive''"

text \<open>\<open>post\<close> sends a report and decodes the answer into its code and message.\<close>

definition last_stats :: "NodeConfig \<Rightarrow> (string \<rightharpoonup> LastCongestion) \<Rightarrow> LastTelemetry" where
  "last_stats c delayStats =
     \<lparr>LastsCongestion = delayStats, last_IP = ip_Public (nc_IP c), last_Continent = nc_Continent c,
      last_Country = nc_Country c, last_City = nc_City c\<rparr>"

definition SendLastTelemetry :: "(string \<Rightarrow> LastTelemetry \<Rightarrow> (int \<times> string) result) \<Rightarrow> string \<Rightarrow> NodeConfig \<Rightarrow> (string \<rightharpoonup> LastCongestion) \<Rightarrow> unit result" where
  "SendLastTelemetry post host c delayStats =
     (case post (host @ lastReceiveURL @ ''?ip='' @ ip_Public (nc_IP c)) (last_stats c delayStats) of
        Inl err \<Rightarrow> Inl err
      | Inr (code, msg) \<Rightarrow>
          if code \<noteq> 200 then Inl (''control-plane processing failed: code='' @ itoa_int code @ '', msg='' @ msg) else Inr ())"

text \<open>One tick of the reporter: what it sends, if there is anything, and the records it keeps.\<close>

definition LastTelemetryReporter :: "time \<Rightarrow> Record list \<Rightarrow> (string \<rightharpoonup> LastCongestion) option \<times> Record list" where
  "LastTelemetryReporter t records =
     (case calculateLastCongestion t records of (m, rs) \<Rightarrow> (if m = Map.empty then None else Some m, rs))"

section \<open>What the summary says\<close>

definition city_rts :: "string \<Rightarrow> Record list \<Rightarrow> int list" where
  "city_rts k rs = map ConnRT (filter (\<lambda>r. rec_City r = k) rs)"

lemma city_rts_simps [simp]:
  "city_rts k [] = []" "city_rts k (rs @ rs') = city_rts k rs @ city_rts k rs'"
  "city_rts k [r] = (if rec_City r = k then [ConnRT r] else [])"
  by (simp_all add: city_rts_def)

lemma add_records:
  "fst (fold add_record rs (Map.empty, Map.empty)) k = (let rts = city_rts k rs in
     if rts = [] then None else Some \<lparr>Count = int (length rts), SumRT = of_int (sum_list rts), AvgRT = 0, P95RT = 0\<rparr>)"
  "snd (fold add_record rs (Map.empty, Map.empty)) k = (if city_rts k rs = [] then None else Some (city_rts k rs))"
  by (induction rs rule: rev_induct) (auto simp: add_record_def Let_def map_get_def)

text \<open>The summary of a city is that of its response times.\<close>

definition summary :: "int list \<Rightarrow> LastCongestion" where
  "summary rts = finish_city rts \<lparr>Count = int (length rts), SumRT = of_int (sum_list rts), AvgRT = 0, P95RT = 0\<rparr>"

lemma calculate_city:
  "fst (calculateLastCongestion t rs) k =
     (let rts = city_rts k (valid_records t rs) in if rts = [] then None else Some (summary rts))"
  by (simp add: calculateLastCongestion_def add_records Let_def summary_def map_get_def)

lemma summary_fields:
  assumes "rts \<noteq> []"
  shows "Count (summary rts) = int (length rts)" "SumRT (summary rts) = of_int (sum_list rts)"
    "AvgRT (summary rts) = (if sum_list rts \<le> 0 then 1 else of_int (sum_list rts) / real (length rts))"
    "P95RT (summary rts) = (let p = sort rts ! p95Idx (length rts) in if p \<le> 0 then 1 else p)"
  using assms by (auto simp: summary_def finish_city_def Let_def divide_le_0_iff)

lemma filter_part: "filter P (take n xs) = take n xs \<Longrightarrow> n \<le> length xs \<Longrightarrow> n \<le> length (filter P xs)"
  by (metis append_take_drop_id filter_append le_add1 length_append length_take min.absorb2)

lemma filter_part_drop: "filter P (drop n xs) = drop n xs \<Longrightarrow> length xs - n \<le> length (filter P xs)"
  by (metis append_take_drop_id filter_append le_add2 length_append length_drop)

lemma sorted_rank:
  fixes xs :: "int list"
  assumes "i < length xs"
  shows "Suc i \<le> length (filter (\<lambda>x. x \<le> sort xs ! i) xs)" "length xs - i \<le> length (filter (\<lambda>x. sort xs ! i \<le> x) xs)"
proof -
  have same: "length (filter P xs) = length (filter P (sort xs))" for P
    by (metis mset_filter mset_sort size_mset)
  have "filter (\<lambda>x. x \<le> sort xs ! i) (take (Suc i) (sort xs)) = take (Suc i) (sort xs)"
    using assms by (intro filter_True) (auto simp: in_set_conv_nth intro!: sorted_nth_mono)
  from filter_part [OF this] assms same [of "\<lambda>x. x \<le> sort xs ! i"]
  show "Suc i \<le> length (filter (\<lambda>x. x \<le> sort xs ! i) xs)" by simp
  have "filter (\<lambda>x. sort xs ! i \<le> x) (drop i (sort xs)) = drop i (sort xs)"
    using assms by (intro filter_True) (auto simp: in_set_conv_nth intro!: sorted_nth_mono)
  from filter_part_drop [OF this] same [of "\<lambda>x. sort xs ! i \<le> x"]
  show "length xs - i \<le> length (filter (\<lambda>x. sort xs ! i \<le> x) xs)" by simp
qed

text \<open>The index is in range without the clamp, and is the 95th percentile.\<close>

lemma p95Idx_bounds:
  assumes "0 < n"
  shows "p95Idx n < n" "real n * 0.95 \<le> real (Suc (p95Idx n))" "real (p95Idx n) \<le> real n * 0.95"
proof -
  have "\<lfloor>real n * 0.95\<rfloor> < int n" using assms by (simp add: floor_less_iff)
  then have p: "p95Idx n = nat \<lfloor>real n * 0.95\<rfloor>" by (auto simp: p95Idx_def Let_def)
  have "0 \<le> \<lfloor>real n * 0.95\<rfloor>" by simp
  then show "p95Idx n < n" "real n * 0.95 \<le> real (Suc (p95Idx n))" "real (p95Idx n) \<le> real n * 0.95"
    unfolding p using \<open>\<lfloor>real n * 0.95\<rfloor> < int n\<close> by linarith+
qed

lemma length_filter_imp: "(\<And>x. x \<in> set xs \<Longrightarrow> P x \<Longrightarrow> Q x) \<Longrightarrow> length (filter P xs) \<le> length (filter Q xs)"
  by (induction xs) auto

lemma summary_p95:
  assumes "rts \<noteq> []"
  shows "1 \<le> P95RT (summary rts)" "real (length rts) * 0.95 \<le> real (length (filter (\<lambda>x. x \<le> P95RT (summary rts)) rts))"
    "1 < P95RT (summary rts) \<Longrightarrow> P95RT (summary rts) \<in> set rts \<and> real (length rts) * 0.05 \<le> real (length (filter (\<lambda>x. P95RT (summary rts) \<le> x) rts))"
proof -
  let ?n = "length rts"
  let ?p = "sort rts ! p95Idx ?n"
  have n: "0 < ?n" using assms by simp
  note b = p95Idx_bounds [OF n] and r = sorted_rank [OF p95Idx_bounds(1) [OF n]]
  have P: "P95RT (summary rts) = (if ?p \<le> 0 then 1 else ?p)" using summary_fields(4) [OF assms] by (simp add: Let_def)
  show "1 \<le> P95RT (summary rts)" by (simp add: P)
  have "length (filter (\<lambda>x. x \<le> ?p) rts) \<le> length (filter (\<lambda>x. x \<le> P95RT (summary rts)) rts)"
    by (rule length_filter_imp) (auto simp: P)
  with r(1) b(2) show "real ?n * 0.95 \<le> real (length (filter (\<lambda>x. x \<le> P95RT (summary rts)) rts))" by linarith
  assume "1 < P95RT (summary rts)"
  then have e: "P95RT (summary rts) = ?p" by (auto simp: P split: if_splits)
  have "?p \<in> set rts" using b(1) by (metis length_sort nth_mem set_sort)
  moreover have "real ?n * 0.05 \<le> real (length (filter (\<lambda>x. ?p \<le> x) rts))" using r(2) b(1,3) by (simp add: power2_eq_square)
  ultimately show "P95RT (summary rts) \<in> set rts \<and> real ?n * 0.05 \<le> real (length (filter (\<lambda>x. P95RT (summary rts) \<le> x) rts))"
    unfolding e by simp
qed

text \<open>Without a request in the window the old records stay, and are reported at every tick.\<close>

lemma stale_records_stay:
  assumes "\<forall>r \<in> set rs. window < t - Ts r"
  shows "valid_records t rs = rs" "snd (calculateLastCongestion t rs) = rs"
proof -
  have "filter (\<lambda>r. t - Ts r \<le> window) rs = []" using assms by (auto simp: filter_empty_conv)
  then show "valid_records t rs = rs" by (simp add: valid_records_def)
  then show "snd (calculateLastCongestion t rs) = rs" by (simp add: calculateLastCongestion_def Let_def)
qed

section \<open>Repeated reads\<close>

lemma valid_records_repeat: "valid_records t (concat (replicate n rs)) = concat (replicate n (valid_records t rs))"
proof (cases "n = 0")
  case False
  have "filter P (concat (replicate n rs)) = concat (replicate n (filter P rs))" for P
    by (induction n) auto
  with False show ?thesis by (auto simp: valid_records_def Let_def)
qed (simp add: valid_records_def)

lemma city_rts_repeat: "city_rts k (concat (replicate n rs)) = concat (replicate n (city_rts k rs))"
  by (induction n) auto

lemma concat_replicate_comm: "concat (replicate n xs) @ xs = xs @ concat (replicate n xs)"
  by (induction n) auto

lemma reads_repeat:
  "(readLatestLogs parse_time ks l file ^^ n) [] = concat (replicate n (readLatestLogs parse_time ks l file []))"
proof (induction n)
  case (Suc n)
  let ?f = "readLatestLogs parse_time ks l file"
  have "?f rs = rs @ ?f []" for rs by (simp add: readLatestLogs_def split: sum.split)
  from this [of "(?f ^^ n) []"] have "(?f ^^ Suc n) [] = concat (replicate n (?f [])) @ ?f []" using Suc.IH by simp
  also have "\<dots> = concat (replicate (Suc n) (?f []))" by (simp add: concat_replicate_comm)
  finally show ?case .
qed simp

lemma summary_repeat:
  assumes "rts \<noteq> []" "0 < n"
  shows "Count (summary (concat (replicate n rts))) = int n * Count (summary rts)"
    "AvgRT (summary (concat (replicate n rts))) = AvgRT (summary rts)"
proof -
  let ?m = "concat (replicate n rts)"
  have l: "length ?m = n * length rts" by (induction n) auto
  have s: "sum_list ?m = int n * sum_list rts" by (induction n) (auto simp: algebra_simps)
  have "?m \<noteq> []" using assms by auto
  note f = summary_fields [OF this] summary_fields [OF assms(1)]
  show "Count (summary ?m) = int n * Count (summary rts)" by (simp only: f l) simp
  show "AvgRT (summary ?m) = AvgRT (summary rts)"
    unfolding f s l using assms(2) by (simp add: mult_le_0_iff)
qed

section \<open>Properties\<close>

text \<open>C23. The report of a city is the summary of its response times among the records of the last
  ten seconds, or among all records that are still kept, however old, when no record of any city is
  that recent: their number, their sum and their mean, with one for a mean that is not positive, and
  a 95th percentile: at least 95 percent of them are not above it, and unless it is the least value
  one it is one of them and at least 5 percent are not below it. A city without such a record has no
  entry.\<close>

theorem congestion_summary:
  assumes "recent = filter (\<lambda>r. t - Ts r \<le> 10 * second) rs"
    and "rts = map ConnRT (filter (\<lambda>r. rec_City r = k) (if recent = [] then rs else recent))"
  shows "case fst (calculateLastCongestion t rs) k of
      None \<Rightarrow> rts = []
    | Some s \<Rightarrow> rts \<noteq> [] \<and> Count s = int (length rts) \<and> SumRT s = of_int (sum_list rts)
      \<and> AvgRT s = (if sum_list rts \<le> 0 then 1 else of_int (sum_list rts) / real (length rts))
      \<and> 1 \<le> P95RT s \<and> real (length rts) * 0.95 \<le> real (length (filter (\<lambda>x. x \<le> P95RT s) rts))
      \<and> (P95RT s = 1 \<or> P95RT s \<in> set rts \<and> real (length rts) * 0.05 \<le> real (length (filter (\<lambda>x. P95RT s \<le> x) rts)))"
proof -
  have rts: "rts = city_rts k (valid_records t rs)"
    unfolding assms by (simp add: city_rts_def valid_records_def window_def Let_def)
  show ?thesis
  proof (cases "rts = []")
    case False
    have "P95RT (summary rts) = 1 \<or> 1 < P95RT (summary rts)" using summary_p95(1) [OF False] by auto
    with False show ?thesis
      using summary_fields(1-3) [OF False] summary_p95 [OF False] by (simp add: calculate_city flip: rts) blast
  qed (simp add: calculate_city flip: rts)
qed

definition sample_record :: "time \<Rightarrow> int \<Rightarrow> Record" where
  "sample_record t rt = \<lparr>Ts = t, ClientIP = ''1.2.3.4'', ConnRT = rt, rec_Continent = '''', rec_Country = ''FR'', rec_Province = '''', rec_City = ''Paris''\<rparr>"

theorem congestion_summary_witness:
  "\<exists>s. fst (calculateLastCongestion 9 [sample_record 1 30, sample_record (- 20000000000) 99, sample_record 2 10]) ''Paris'' = Some s
     \<and> Count s = 2 \<and> SumRT s = 40 \<and> AvgRT s = 20 \<and> (P95RT s = 1 \<or> P95RT s \<in> {30, 10})"
proof -
  let ?rs = "[sample_record 1 30, sample_record (- 20000000000) 99, sample_record 2 10]"
  have recent: "[sample_record 1 30, sample_record 2 10] = filter (\<lambda>r. 9 - Ts r \<le> 10 * second) ?rs"
    by (simp add: sample_record_def second_def millisecond_def)
  have rts: "[30, 10] = map ConnRT (filter (\<lambda>r. rec_City r = ''Paris'')
      (if [sample_record 1 30, sample_record 2 10] = [] then ?rs else [sample_record 1 30, sample_record 2 10]))"
    by (simp add: sample_record_def)
  show ?thesis using congestion_summary [OF recent rts] by (auto split: option.splits)
qed

text \<open>C38. The log is read anew at every tick, and nothing remembers how far: a file that does not
  change and is read \<open>n\<close> times gives \<open>n\<close> times the number of requests for every city, with the same
  mean. The control plane weighs the mean of a node by this number.\<close>

theorem reread_multiplies_count:
  assumes "0 < n" "fst (calculateLastCongestion t (readLatestLogs parse_time ks l file [])) k = Some s"
  shows "\<exists>s'. fst (calculateLastCongestion t ((readLatestLogs parse_time ks l file ^^ n) [])) k = Some s'
    \<and> Count s' = int n * Count s \<and> AvgRT s' = AvgRT s"
proof -
  let ?rts = "city_rts k (valid_records t (readLatestLogs parse_time ks l file []))"
  have ne: "?rts \<noteq> []" and s: "s = summary ?rts" using assms(2) by (auto simp: calculate_city Let_def split: if_splits)
  have "concat (replicate n ?rts) \<noteq> []" using ne assms(1) by auto
  then show ?thesis using summary_repeat [OF ne assms(1)]
    by (simp add: calculate_city reads_repeat valid_records_repeat city_rts_repeat s del: concat_eq_Nil_conv)
qed

definition sample_lib :: ip_lib where
  "sample_lib = \<lparr>ipDb = Some (\<lambda>ip. Inr \<lparr>Country_short = ''FR'', db_Region = '''', db_City = ''Paris''\<rparr>), ipOverrides = Map.empty, countryToContinent = Map.empty\<rparr>"

definition sample_log :: string where
  "sample_log = ''time=7 client_ip=1.2.3.4 conn_rt_ms=12.5'' @ [nl] @ ''level=INFO'' @ [nl]"

lemma sample_read: "readLatestLogs (map_option int \<circ> parse_dec 0) [] sample_lib (Inr sample_log) [] =
    [\<lparr>Ts = 7, ClientIP = ''1.2.3.4'', ConnRT = 13, rec_Continent = '''', rec_Country = ''FR'', rec_Province = '''', rec_City = ''Paris''\<rparr>]"
  by code_simp

theorem reread_multiplies_count_witness:
  "\<exists>s. fst (calculateLastCongestion 9 ((readLatestLogs (map_option int \<circ> parse_dec 0) [] sample_lib (Inr sample_log) ^^ 3) [])) ''Paris'' = Some s
     \<and> Count s = 3 \<and> AvgRT s = 13"
proof -
  let ?r = "readLatestLogs (map_option int \<circ> parse_dec 0) [] sample_lib (Inr sample_log)"
  have rts: "city_rts ''Paris'' (valid_records 9 (?r [])) = [13]"
    by (simp add: sample_read valid_records_def window_def second_def millisecond_def city_rts_def)
  have one: "fst (calculateLastCongestion 9 (?r [])) ''Paris'' = Some (summary [13])" by (simp add: calculate_city rts)
  have "0 < (3 :: nat)" by simp
  from reread_multiplies_count [OF this one] show ?thesis by (simp add: summary_fields)
qed

end
