(* ===== verification/Probing.thy ===== *)
theory Probing
  imports Control_Plane
begin

text \<open>
  The probes of the data plane (data-plane/probing/tcpprobe.go, get-task.go) and the links that
  are reported from them (data-plane/collector/links.go). What a connection attempt meets is
  given per target and attempt. The workers finish the targets of a round in any order, which is
  the list \<open>done\<close>. Fetching the tasks over HTTP is a parameter.
\<close>

section \<open>Tasks\<close>

definition TaskURL :: string where "TaskURL = ''/api/v1/probe/tasks''"

text \<open>\<open>get\<close> is the exchange with the decoding of the answer: code, message and tasks.\<close>

definition GetProbeTasks_dp :: "(string \<Rightarrow> (int \<times> string \<times> ProbeTask list) result) \<Rightarrow> string \<Rightarrow> ProbeTask list result" where
  "GetProbeTasks_dp get controlHost =
     (case get (controlHost @ TaskURL) of
        Inl err \<Rightarrow> Inl err
      | Inr (code, msg, dat) \<Rightarrow>
          if code \<noteq> 200 then Inl (''api returned error: '' @ itoa_int code @ '' '' @ msg) else Inr dat)"

section \<open>Probes\<close>

record Result =
  res_Target :: ProbeTask
  res_Attempts :: int
  Failures :: int
  LossRate :: float64
  AvgRTT_ns :: duration

record probe_config =
  Concurrency :: int
  Timeout :: duration
  Interval :: duration
  Attempts :: int
  probe_BufferSize :: int

definition probe_defaults :: "probe_config \<Rightarrow> probe_config" where
  "probe_defaults cfg =
     (let cfg = (if Concurrency cfg \<le> 0 then cfg\<lparr>Concurrency := 4\<rparr> else cfg);
          cfg = (if Timeout cfg \<le> 0 then cfg\<lparr>Timeout := 2 * second\<rparr> else cfg);
          cfg = (if Interval cfg \<le> 0 then cfg\<lparr>Interval := 5 * second\<rparr> else cfg)
      in if Attempts cfg \<le> 0 then cfg\<lparr>Attempts := 5\<rparr> else cfg)"

text \<open>An attempt connects, times out, or fails otherwise (a refused connection, say), with the time
  it took.\<close>

datatype dial = Connected duration | DialTimeout | DialError duration

text \<open>The counters \<open>failures\<close>, \<open>totalRTT\<close> and \<open>successes\<close>.\<close>

definition probe_attempt :: "dial \<Rightarrow> int \<times> duration \<times> int \<Rightarrow> int \<times> duration \<times> int" where
  "probe_attempt d s =
     (case s of (failures, totalRTT, successes) \<Rightarrow>
        case d of
          DialTimeout \<Rightarrow> (failures + 1, totalRTT, successes)
        | DialError rtt \<Rightarrow> (failures, totalRTT + rtt, successes + 1)
        | Connected rtt \<Rightarrow> (failures, totalRTT + rtt, successes + 1))"

definition probe_target :: "probe_config \<Rightarrow> (nat \<Rightarrow> dial) \<Rightarrow> ProbeTask \<Rightarrow> Result" where
  "probe_target cfg dials target =
     (case fold probe_attempt (map dials [0..<nat (Attempts cfg)]) (0, 0, 0) of (failures, totalRTT, successes) \<Rightarrow>
        let avgRTT = (if successes > 0 then totalRTT div successes else 0)
        in \<lparr>res_Target = target, res_Attempts = Attempts cfg, Failures = failures,
            LossRate = of_int failures / of_int (Attempts cfg), AvgRTT_ns = (if avgRTT \<le> 0 then 1 else avgRTT)\<rparr>)"

definition updateLatestResults :: "Result list \<Rightarrow> (string \<rightharpoonup> Result) \<Rightarrow> (string \<rightharpoonup> Result)" where
  "updateLatestResults results m = fold (\<lambda>r m. m(task_IP (res_Target r) \<mapsto> r)) results m"

definition GetLatestResults :: "(string \<rightharpoonup> Result) \<Rightarrow> (string \<rightharpoonup> Result)" where
  "GetLatestResults m = m"

definition doProbeLossRTT :: "probe_config \<Rightarrow> (nat \<Rightarrow> nat \<Rightarrow> dial) \<Rightarrow> ProbeTask list \<Rightarrow> (string \<rightharpoonup> Result) \<Rightarrow> (string \<rightharpoonup> Result)" where
  "doProbeLossRTT cfg dials done m =
     updateLatestResults (map (\<lambda>i. probe_target cfg (dials i) (done ! i)) [0..<length done]) m"

text \<open>One tick: \<open>finish\<close> is the order in which the targets are finished.\<close>

definition probe_tick :: "(string \<Rightarrow> (int \<times> string \<times> ProbeTask list) result) \<Rightarrow> string \<Rightarrow> probe_config \<Rightarrow> (nat \<Rightarrow> nat \<Rightarrow> dial)
    \<Rightarrow> (ProbeTask list \<Rightarrow> ProbeTask list) \<Rightarrow> (string \<rightharpoonup> Result) \<Rightarrow> (string \<rightharpoonup> Result)" where
  "probe_tick get controlHost cfg dials finish m =
     (case GetProbeTasks_dp get controlHost of
        Inl err \<Rightarrow> m
      | Inr targets \<Rightarrow> doProbeLossRTT (probe_defaults cfg) dials (finish targets) m)"

section \<open>Links\<close>

text \<open>\<open>ks\<close> is the order in which the results are iterated.\<close>

definition Milliseconds :: "duration \<Rightarrow> int" where
  "Milliseconds d = d div millisecond"

definition BuildLinkCongestion :: "string list \<Rightarrow> (string \<rightharpoonup> Result) \<Rightarrow> LinkCongestion list" where
  "BuildLinkCongestion ks m =
     (let results = GetLatestResults m
      in map (\<lambda>target. let r = the (results target)
           in \<lparr>TargetIP = target, Target = res_Target r, PacketLoss = LossRate r, AverageLatency = of_int (Milliseconds (AvgRTT_ns r))\<rparr>) ks)"

section \<open>Results of a round\<close>

lemma attempts_count:
  "fold probe_attempt ds (f, t, s) =
     (f + int (length (filter (\<lambda>d. d = DialTimeout) ds)),
      t + sum_list (map (\<lambda>d. case d of Connected x \<Rightarrow> x | DialError x \<Rightarrow> x | DialTimeout \<Rightarrow> 0) ds),
      s + int (length (filter (\<lambda>d. d \<noteq> DialTimeout) ds)))"
  by (induction ds arbitrary: f t s) (auto simp: probe_attempt_def split: dial.split)

lemma probe_target_of [simp]: "res_Target (probe_target cfg dials t) = t"
  by (simp add: probe_target_def Let_def split: prod.split)

lemma probe_target_fields:
  assumes "ds = map dials [0..<nat (Attempts cfg)]"
  shows "LossRate (probe_target cfg dials t) = real (length (filter (\<lambda>d. d = DialTimeout) ds)) / of_int (Attempts cfg)"
    "0 < AvgRTT_ns (probe_target cfg dials t)"
    "filter (\<lambda>d. d \<noteq> DialTimeout) ds = [] \<Longrightarrow> AvgRTT_ns (probe_target cfg dials t) = 1"
  by (auto simp: probe_target_def attempts_count Let_def simp flip: assms)

text \<open>The loss is a rate, and the measured time is positive.\<close>

lemma probe_target_loss:
  assumes "0 < Attempts cfg"
  shows "0 \<le> LossRate (probe_target cfg dials t)" "LossRate (probe_target cfg dials t) \<le> 1"
proof -
  let ?ds = "map dials [0..<nat (Attempts cfg)]"
  have "length (filter (\<lambda>d. d = DialTimeout) ?ds) \<le> length ?ds" by (rule length_filter_le)
  then have "real (length (filter (\<lambda>d. d = DialTimeout) ?ds)) \<le> of_int (Attempts cfg)" using assms by (simp del: length_filter_map)
  then show "0 \<le> LossRate (probe_target cfg dials t)" "LossRate (probe_target cfg dials t) \<le> 1"
    unfolding probe_target_fields(1) [OF refl] using assms by (simp_all only: divide_le_eq_1 of_int_0_less_iff) simp_all
qed

lemma probe_target_unreachable:
  assumes "0 < Attempts cfg" "\<forall>a < nat (Attempts cfg). dials a = DialTimeout"
  shows "LossRate (probe_target cfg dials t) = 1" "AvgRTT_ns (probe_target cfg dials t) = 1"
proof -
  have "replicate (nat (Attempts cfg)) DialTimeout = map dials [0..<nat (Attempts cfg)]"
    using assms(2) by (intro nth_equalityI) auto
  from probe_target_fields [OF this, of t] show "LossRate (probe_target cfg dials t) = 1" "AvgRTT_ns (probe_target cfg dials t) = 1"
    using assms(1) by simp_all
qed

lemma update_last:
  assumes "i < length rs" "\<forall>j. i < j \<and> j < length rs \<longrightarrow> task_IP (res_Target (rs ! j)) \<noteq> task_IP (res_Target (rs ! i))"
  shows "updateLatestResults rs m (task_IP (res_Target (rs ! i))) = Some (rs ! i)"
  using assms
proof (induction rs arbitrary: m i)
  case (Cons r rs)
  have other: "updateLatestResults rs m ip = m ip" if "\<forall>r \<in> set rs. task_IP (res_Target r) \<noteq> ip" for m ip
    using that by (induction rs arbitrary: m) (auto simp: updateLatestResults_def)
  show ?case
  proof (cases i)
    case 0
    have "\<forall>q \<in> set rs. task_IP (res_Target q) \<noteq> task_IP (res_Target r)"
    proof
      fix q assume "q \<in> set rs"
      then obtain j where "j < length rs" "q = rs ! j" by (auto simp: in_set_conv_nth)
      then show "task_IP (res_Target q) \<noteq> task_IP (res_Target r)" using Cons.prems(2) [rule_format, of "Suc j"] 0 by simp
    qed
    then show ?thesis using other 0 by (simp add: updateLatestResults_def)
  next
    case (Suc n)
    have "\<forall>j. n < j \<and> j < length rs \<longrightarrow> task_IP (res_Target (rs ! j)) \<noteq> task_IP (res_Target (rs ! n))"
      using Cons.prems(2) Suc by (metis Suc_less_eq length_Cons nth_Cons_Suc)
    from Cons.IH [OF _ this] Cons.prems(1) Suc show ?thesis by (simp add: updateLatestResults_def)
  qed
qed simp

text \<open>The last target of a round with an address decides what is reported for the address.\<close>

lemma doProbe_last:
  assumes "i < length done" "\<forall>j. i < j \<and> j < length done \<longrightarrow> task_IP (done ! j) \<noteq> task_IP (done ! i)"
  shows "doProbeLossRTT cfg dials done m (task_IP (done ! i)) = Some (probe_target cfg (dials i) (done ! i))"
proof -
  let ?rs = "map (\<lambda>i. probe_target cfg (dials i) (done ! i)) [0..<length done]"
  have "i < length ?rs" using assms(1) by simp
  from update_last [OF this, of m] show ?thesis using assms by (simp add: doProbeLossRTT_def)
qed

lemma BuildLink_of:
  assumes "range_order m ks" "m ip = Some r"
  shows "filter (\<lambda>v. TargetIP v = ip) (BuildLinkCongestion ks m) =
    [\<lparr>TargetIP = ip, Target = res_Target r, PacketLoss = LossRate r, AverageLatency = of_int (Milliseconds (AvgRTT_ns r))\<rparr>]"
proof -
  have "distinct ks" "ip \<in> set ks" using assms by (auto simp: range_order_def)
  then have "filter (\<lambda>k. k = ip) ks = [ip]"
    by (induction ks) (auto simp: filter_empty_conv)
  then show ?thesis using assms(2) by (simp add: BuildLinkCongestion_def GetLatestResults_def Let_def filter_map o_def)
qed

section \<open>Properties\<close>

text \<open>C37. An origin server that cannot be reached looks like the best one: when every attempt to
  connect to it times out, the probe of the round records a loss of one and a round-trip time of
  one nanosecond, the report has a latency of zero milliseconds, and the control plane gives the
  edge the weight zero, which no edge is below.\<close>

theorem unreachable_origin_weighs_nothing:
  assumes probe: "0 < Attempts cfg" "i < length done" "\<forall>a < nat (Attempts cfg). dials i a = DialTimeout"
    and last: "\<forall>j. i < j \<and> j < length done \<longrightarrow> task_IP (done ! j) \<noteq> task_IP (done ! i)"
    and origin: "TargetType (done ! i) = ''source''"
    and report: "range_order (doProbeLossRTT cfg dials done m) ks"
      "report_Links report = BuildLinkCongestion ks (doProbeLossRTT cfg dials done m)"
  shows "\<exists>v. LinksCongestion (DoClusterWeightedAvg self report) (task_IP (done ! i)) = Some v
    \<and> PacketLoss v = 1 \<and> AverageLatency v = 0
    \<and> link_edge ns v = Some (task_IP (done ! i) @ '':'' @ itoa_int (task_TargetPort (done ! i)), 0, 0)
    \<and> (\<forall>v' out r load. link_edge ns v' = Some (out, r, load) \<longrightarrow> 0 \<le> r)"
proof -
  let ?r = "probe_target cfg (dials i) (done ! i)"
  have r: "LossRate ?r = 1" "AvgRTT_ns ?r = 1" using probe_target_unreachable [OF probe(1,3)] by simp_all
  have ws: "[\<lparr>TargetIP = task_IP (done ! i), Target = done ! i, PacketLoss = 1, AverageLatency = 0\<rparr>]
      = filter (\<lambda>v. TargetIP v = task_IP (done ! i)) (report_Links report)"
    unfolding report(2) BuildLink_of [OF report(1) doProbe_last [OF probe(2) last]]
    by (simp add: r Milliseconds_def millisecond_def)
  have "0 \<le> r" if "link_edge ns v' = Some (out, r, load)" for v' out r load
    using that by (auto simp: link_edge_def EdgeRisk_nonneg split: if_splits option.splits)
  moreover have "EdgeRisk 0 1 0 = 0" by (simp add: EdgeRisk_eq)
  ultimately show ?thesis using origin link_means [OF ws, of self] by (simp add: link_edge_def mean_def)
qed

definition sample_task :: ProbeTask where
  "sample_task = \<lparr>TargetType = ''source'', task_Provider = '''', task_IP = ''9.9.9.9'', task_TargetPort = 80, task_Region = '''', task_ID = ''''\<rparr>"

definition sample_probe :: probe_config where
  "sample_probe = \<lparr>Concurrency = 4, Timeout = 2 * second, Interval = 5 * second, Attempts = 5, probe_BufferSize = 0\<rparr>"

theorem unreachable_origin_weighs_nothing_witness:
  "\<exists>m v. m = doProbeLossRTT sample_probe (\<lambda>i a. DialTimeout) [sample_task] Map.empty \<and> range_order m [''9.9.9.9'']
     \<and> LinksCongestion (DoClusterWeightedAvg (sample_node ''a'' Map.empty) \<lparr>report_CPU = Cpu (sample_node ''a'' Map.empty), report_Links = BuildLinkCongestion [''9.9.9.9''] m\<rparr>) ''9.9.9.9'' = Some v
     \<and> PacketLoss v = 1 \<and> (\<exists>out. link_edge Map.empty v = Some (out, 0, 0))"
proof -
  let ?m = "doProbeLossRTT sample_probe (\<lambda>i a. DialTimeout) [sample_task] Map.empty"
  have ks: "range_order ?m [''9.9.9.9'']"
    by (simp add: range_order_def doProbeLossRTT_def updateLatestResults_def) (simp add: sample_task_def)
  have "0 < Attempts sample_probe" by (simp add: sample_probe_def)
  from unreachable_origin_weighs_nothing [OF this _ _ _ _ ks, of 0 "\<lparr>report_CPU = Cpu (sample_node ''a'' Map.empty), report_Links = BuildLinkCongestion [''9.9.9.9''] ?m\<rparr>" "sample_node ''a'' Map.empty" Map.empty] ks
  show ?thesis by (fastforce simp: sample_task_def)
qed

end
