(* ===== verification/Collector.thy ===== *)
theory Collector
  imports Probing Node_Config
begin

text \<open>
  The report of a machine as the data plane collects and sends it (data-plane/collector). The
  operating system and gopsutil are parameters: the files under \<open>/proc\<close>, the list of processes and
  the results of the library calls. \<open>srt\<close> is \<open>sort.Slice\<close>.
\<close>

section \<open>The CPU sampler\<close>

record proc_sample =
  p_utime :: u64
  p_stime :: u64
  p_ts :: time

record cpu_state =
  physicalCores :: int
  logicalCores :: int
  procLast :: "int \<rightharpoonup> proc_sample"
  procPIDs :: "int list"
  prevUsage :: float64
  currUsage :: float64
  maxDelta :: float64
  firstSample :: bool
  started :: bool
  stopCh_open :: bool

definition clkTck :: float64 where "clkTck = 100"
definition processName :: string where "processName = ''data-proxy''"

definition StartCPUSampler :: "int \<Rightarrow> int \<Rightarrow> cpu_state \<Rightarrow> cpu_state" where
  "StartCPUSampler physical logical s =
     (if started s then s
      else s\<lparr>started := True, physicalCores := physical, logicalCores := logical, stopCh_open := True\<rparr>)"

definition StopCPUSampler :: "cpu_state \<Rightarrow> cpu_state" where
  "StopCPUSampler s = (if stopCh_open s then s\<lparr>stopCh_open := False\<rparr> else s)"

definition runSampler :: "cpu_state \<Rightarrow> cpu_state" where
  "runSampler s = s\<lparr>prevUsage := 0, firstSample := True\<rparr>"

text \<open>\<open>strings.Fields\<close>: the maximal runs of characters that are not white space.\<close>

definition is_space :: "char \<Rightarrow> bool" where
  "is_space c \<longleftrightarrow> c \<in> {CHR 0x09, CHR 0x0A, CHR 0x0B, CHR 0x0C, CHR 0x0D, CHR '' ''}"

fun fields_from :: "string \<Rightarrow> string \<Rightarrow> string list" where
  "fields_from acc [] = (if acc = [] then [] else [acc])"
| "fields_from acc (c # cs) =
     (if is_space c then (if acc = [] then fields_from [] cs else acc # fields_from [] cs) else fields_from (acc @ [c]) cs)"

definition parse_uint64 :: "string \<Rightarrow> u64 result" where
  "parse_uint64 s =
     (case (if s = [] then None else parse_dec 0 s) of
        None \<Rightarrow> Inl ''invalid syntax''
      | Some n \<Rightarrow> if n < 2 ^ 64 then Inr (of_nat n) else Inl ''value out of range'')"

text \<open>The text after the last parenthesis and the space that follows; a text that ends with the
  parenthesis is sliced out of range.\<close>

definition readProcStat :: "string result \<Rightarrow> (u64 \<times> u64) result go" where
  "readProcStat file =
     (case file of
        Inl err \<Rightarrow> Inr (Inl err)
      | Inr s \<Rightarrow>
          if CHR '')'' \<notin> set s then Inr (Inl ''malformed /proc/stat'')
          else let after = length (takeWhile (\<lambda>c. c \<noteq> CHR '')'') (rev s))
               in if after = 0 then Inl SliceBounds
                  else let fs = fields_from [] (drop (length s - after + 1) s)
                       in if length fs < 13 then Inr (Inl ''too few fields in /proc/stat'')
                          else Inr (case parse_uint64 (fs ! 11) of
                                      Inl err \<Rightarrow> Inl err
                                    | Inr u \<Rightarrow> (case parse_uint64 (fs ! 12) of Inl err \<Rightarrow> Inl err | Inr st \<Rightarrow> Inr (u, st))))"

text \<open>Names are compared without regard to case; none of the letters of the name folds beyond ASCII.\<close>

definition to_lower :: "char \<Rightarrow> char" where
  "to_lower c = (let n = of_char c :: nat in if 65 \<le> n \<and> n \<le> 90 then char_of (n + 32) else c)"

definition findProcessPIDs :: "string \<Rightarrow> (int \<times> string result) list result \<Rightarrow> int list" where
  "findProcessPIDs name procs =
     (case procs of
        Inl err \<Rightarrow> []
      | Inr ps \<Rightarrow> map fst (filter (\<lambda>(pid, pname). case pname of Inl err \<Rightarrow> False | Inr n \<Rightarrow> map to_lower n = map to_lower name) ps))"

text \<open>Ticks are unsigned, and their difference wraps around.\<close>

definition cpu_percent :: "time \<Rightarrow> u64 \<Rightarrow> u64 \<Rightarrow> proc_sample option \<Rightarrow> float64" where
  "cpu_percent t utime stime old =
     (case old of
        None \<Rightarrow> 0
      | Some p \<Rightarrow>
          if p_ts p div second > 0
          then let deltaTicks = (utime + stime) - (p_utime p + p_stime p);
                   deltaSec = of_int (t - p_ts p) / of_int second :: float64
               in if deltaSec > 0 then real (unat deltaTicks) / deltaSec / clkTck * 100 else 0
          else 0)"

fun cpu_loop :: "(int \<Rightarrow> string result) \<Rightarrow> time \<Rightarrow> int list \<Rightarrow> float64 \<Rightarrow> (int \<rightharpoonup> proc_sample) \<Rightarrow> (float64 \<times> int list \<times> (int \<rightharpoonup> proc_sample)) go" where
  "cpu_loop stat t [] totalCPU m = Inr (totalCPU, [], m)"
| "cpu_loop stat t (pid # pids) totalCPU m =
     (case readProcStat (stat pid) of
        Inl e \<Rightarrow> Inl e
      | Inr (Inl err) \<Rightarrow> cpu_loop stat t pids totalCPU (m(pid := None))
      | Inr (Inr (u, st)) \<Rightarrow>
          (case cpu_loop stat t pids (totalCPU + cpu_percent t u st (m pid)) (m(pid \<mapsto> \<lparr>p_utime = u, p_stime = st, p_ts = t\<rparr>)) of
             Inl e \<Rightarrow> Inl e
           | Inr (totalCPU, alive, m) \<Rightarrow> Inr (totalCPU, pid # alive, m)))"

definition getProcessCPU :: "(int \<Rightarrow> string result) \<Rightarrow> (int \<times> string result) list result \<Rightarrow> time \<Rightarrow> cpu_state \<Rightarrow> (float64 result \<times> cpu_state) go" where
  "getProcessCPU stat procs t s =
     (let s = (if procPIDs s = [] then s\<lparr>procPIDs := findProcessPIDs processName procs\<rparr> else s)
      in if procPIDs s = [] then Inr (Inl (''process '' @ processName @ '' not found''), s)
         else case cpu_loop stat t (procPIDs s) 0 (procLast s) of
                Inl e \<Rightarrow> Inl e
              | Inr (totalCPU, alive, m) \<Rightarrow> Inr (Inr totalCPU, s\<lparr>procPIDs := alive, procLast := m\<rparr>))"

definition sample :: "(int \<Rightarrow> string result) \<Rightarrow> (int \<times> string result) list result \<Rightarrow> time \<Rightarrow> cpu_state \<Rightarrow> cpu_state go" where
  "sample stat procs t s =
     (case getProcessCPU stat procs t s of
        Inl e \<Rightarrow> Inl e
      | Inr (Inl err, s) \<Rightarrow> Inr s
      | Inr (Inr percent, s) \<Rightarrow>
          let s = s\<lparr>currUsage := percent\<rparr>;
              s = (if \<not> firstSample s
                   then let d = \<bar>percent - prevUsage s\<bar> in if d > maxDelta s then s\<lparr>maxDelta := d\<rparr> else s
                   else s\<lparr>firstSample := False\<rparr>)
          in Inr (s\<lparr>prevUsage := percent\<rparr>))"

definition collectCPU :: "cpu_state \<Rightarrow> CPUInfo \<times> cpu_state" where
  "collectCPU s =
     (\<lparr>PhysicalCore = physicalCores s, LogicalCore = logicalCores s, Usage = (if currUsage s \<le> 1 then 1 else currUsage s),
       Load1Min = 0, LoadDelta = maxDelta s\<rparr>,
      s\<lparr>maxDelta := 0, firstSample := True\<rparr>)"

section \<open>The other parts of a report\<close>

text \<open>The answers of gopsutil, with the fields that are used.\<close>

record usage_stat =
  u_Total :: u64
  u_Used :: u64
  u_Free :: u64
  u_UsedPercent :: float64

record host_info =
  h_OS :: string
  h_KernelVersion :: string
  h_Hostname :: string
  h_BootTime :: u64

record io_stat =
  BytesSent :: u64
  BytesRecv :: u64

text \<open>A process with its name and its shares, which are empty or zero when the library fails.\<close>

record proc_info =
  pi_Pid :: int
  pi_Name :: string
  pi_CPU :: float64
  pi_Mem :: float64

definition collectMemory :: "usage_stat result \<Rightarrow> MemoryInfo result" where
  "collectMemory v =
     (case v of
        Inl err \<Rightarrow> Inl err
      | Inr v \<Rightarrow> Inr \<lparr>mem_Total = u_Total v, mem_Used = u_Used v, mem_Free = u_Free v, mem_Usage = u_UsedPercent v\<rparr>)"

definition collectDisk :: "(string \<Rightarrow> usage_stat result) \<Rightarrow> DiskInfo result" where
  "collectDisk disk_usage =
     (case disk_usage ''/'' of
        Inl err \<Rightarrow> Inl err
      | Inr v \<Rightarrow> Inr \<lparr>disk_Total = u_Total v, disk_Used = u_Used v, disk_Free = u_Free v, disk_Usage = u_UsedPercent v, disk_Path = ''/''\<rparr>)"

text \<open>The byte counters of the interfaces are added modulo \<open>2 ^ 64\<close>; \<open>ports\<close> is the number of connections.\<close>

definition collectNetwork :: "NodeConfig \<Rightarrow> nat result \<Rightarrow> io_stat list result \<Rightarrow> NetworkInfo result" where
  "collectNetwork c ports ioStat =
     (case ports of
        Inl err \<Rightarrow> Inl err
      | Inr n \<Rightarrow>
          (case ioStat of
             Inl err \<Rightarrow> Inl err
           | Inr stats \<Rightarrow> Inr \<lparr>net_PublicIP = ip_Public (nc_IP c), net_PrivateIP = ip_Private (nc_IP c), net_PortCount = int n,
               net_TrafficIn = foldl (\<lambda>a st. a + BytesRecv st) 0 stats, net_TrafficOut = foldl (\<lambda>a st. a + BytesSent st) 0 stats\<rparr>))"

definition collectOS :: "host_info result \<Rightarrow> OSInfo result" where
  "collectOS info =
     (case info of
        Inl err \<Rightarrow> Inl err
      | Inr h \<Rightarrow> Inr \<lparr>OSName = h_OS h, KernelVer = h_KernelVersion h, Hostname = h_Hostname h, BootTime = sint (h_BootTime h)\<rparr>)"

definition top_processes :: "(ProcessDetail list \<Rightarrow> ProcessDetail list) \<Rightarrow> (proc_info \<Rightarrow> float64) \<Rightarrow> proc_info list \<Rightarrow> ProcessDetail list" where
  "top_processes srt share ps =
     (let ds = map (\<lambda>p. \<lparr>PID = pi_Pid p, proc_Name = pi_Name p, proc_Usage = share p\<rparr>) (filter (\<lambda>p. \<not> (pi_Name p = '''' \<or> share p = 0)) ps);
          ds = srt ds
      in if length ds > 3 then take 3 ds else ds)"

definition collectProcess :: "(ProcessDetail list \<Rightarrow> ProcessDetail list) \<Rightarrow> proc_info list result \<Rightarrow> ProcessInfo result" where
  "collectProcess srt processes =
     (case processes of
        Inl err \<Rightarrow> Inl err
      | Inr ps \<Rightarrow> Inr \<lparr>ActiveCount = int (length ps), TopCPU = top_processes srt pi_CPU ps, TopMem = top_processes srt pi_Mem ps\<rparr>)"

section \<open>Collecting and reporting\<close>

text \<open>What a collection meets.\<close>

record machine =
  m_memory :: "usage_stat result"
  m_disk :: "string \<Rightarrow> usage_stat result"
  m_ports :: "nat result"
  m_io :: "io_stat list result"
  m_host :: "host_info result"
  m_procs :: "proc_info list result"
  m_results :: "string \<rightharpoonup> Result"
  m_keys :: "string list"
  m_now :: time

text \<open>The window of the CPU sampler is reset whether or not the rest succeeds.\<close>

definition Collect :: "(ProcessDetail list \<Rightarrow> ProcessDetail list) \<Rightarrow> NodeConfig \<Rightarrow> machine \<Rightarrow> cpu_state \<Rightarrow> vm_report result \<times> cpu_state" where
  "Collect srt c env s =
     (case collectCPU s of (cpu, s) \<Rightarrow>
        (case collectMemory (m_memory env) of Inl err \<Rightarrow> Inl err | Inr mem \<Rightarrow>
         case collectDisk (m_disk env) of Inl err \<Rightarrow> Inl err | Inr dsk \<Rightarrow>
         case collectNetwork c (m_ports env) (m_io env) of Inl err \<Rightarrow> Inl err | Inr net \<Rightarrow>
         case collectOS (m_host env) of Inl err \<Rightarrow> Inl err | Inr os \<Rightarrow>
         case collectProcess srt (m_procs env) of Inl err \<Rightarrow> Inl err | Inr prc \<Rightarrow>
           Inr \<lparr>report_CPU = cpu, report_Links = BuildLinkCongestion (m_keys env) (m_results env),
                VMID = ''vm-'' @ net_PublicIP net @ ''-001'', CollectTime = Some (m_now env), ReportID = '''',
                report_Memory = mem, report_Disk = dsk, report_Network = net, report_OS = os, report_Process = prc\<rparr>, s))"

definition ReportURL :: string where "ReportURL = ''/api/v1/vm/receive''"
definition ReportInterval :: duration where "ReportInterval = 5 * second"

text \<open>\<open>post\<close> encodes and sends a report and decodes the code and the message of the answer.\<close>

definition Report :: "(string \<Rightarrow> vm_report \<Rightarrow> (int \<times> string) result) \<Rightarrow> string \<Rightarrow> string \<Rightarrow> NodeConfig \<Rightarrow> vm_report \<Rightarrow> unit result \<times> vm_report" where
  "Report post uuid host c r =
     (let r = (if ReportID r = '''' then r\<lparr>ReportID := uuid\<rparr> else r)
      in (case post (host @ ReportURL @ ''?ip='' @ ip_Public (nc_IP c)) r of
            Inl err \<Rightarrow> Inl err
          | Inr (code, msg) \<Rightarrow> if code \<noteq> 200 then Inl (''report failed, '' @ msg) else Inr (), r))"

definition reportOnce :: "(string \<Rightarrow> vm_report \<Rightarrow> (int \<times> string) result) \<Rightarrow> string \<Rightarrow> string \<Rightarrow> (ProcessDetail list \<Rightarrow> ProcessDetail list)
    \<Rightarrow> NodeConfig \<Rightarrow> machine \<Rightarrow> cpu_state \<Rightarrow> unit result \<times> cpu_state" where
  "reportOnce post uuid host srt c env s =
     (case Collect srt c env s of
        (Inl err, s) \<Rightarrow> (Inl err, s)
      | (Inr r, s) \<Rightarrow> (fst (Report post uuid host c r), s))"

section \<open>Facts\<close>

text \<open>The share of a process is what its ticks say, as long as they do not go down; a process that
  took over the number of another one, with fewer ticks, gets a share from the difference modulo
  \<open>2 ^ 64\<close>.\<close>

lemma cpu_percent_exact:
  assumes "second \<le> p_ts p" "p_ts p < t" "p_utime p + p_stime p \<le> u + st"
  shows "cpu_percent t u st (Some p) =
    (real (unat (u + st)) - real (unat (p_utime p + p_stime p))) / (of_int (t - p_ts p) / of_int second)"
proof -
  have "0 < second" by (simp add: second_def millisecond_def)
  moreover from this have "0 < p_ts p div second" using assms(1) by (simp add: pos_imp_zdiv_pos_iff)
  moreover have "real (unat (u + st - (p_utime p + p_stime p))) = real (unat (u + st)) - real (unat (p_utime p + p_stime p))"
    using assms(3) by (simp add: unat_sub word_le_nat_alt of_nat_diff)
  ultimately show ?thesis using assms(2) by (simp add: cpu_percent_def Let_def clkTck_def) (simp add: field_simps)
qed

lemma cpu_percent_wraps:
  "cpu_percent (20 * second) 5 0 (Some \<lparr>p_utime = 6, p_stime = 0, p_ts = 19 * second\<rparr>) = 2 ^ 64 - 1"
proof -
  have "unat (- 1 :: u64) = 2 ^ 64 - 1" by (simp add: unsigned_minus_1_eq_mask mask_eq_exp_minus_1)
  then have "real (unat (- 1 :: u64)) = 18446744073709551615" by (simp only:) simp
  then show ?thesis by (simp add: cpu_percent_def Let_def clkTck_def second_def millisecond_def)
qed

lemma readProcStat_panics: "readProcStat (Inr (s @ [CHR '')''])) = Inl SliceBounds"
  by (simp add: readProcStat_def)

text \<open>A usage below one percent is reported as one, and a report of a configured node is one that the
  control plane accepts.\<close>

lemma collectCPU_usage: "1 \<le> Usage (fst (collectCPU s))"
  by (simp add: collectCPU_def)

lemma Collect_valid:
  assumes "Collect srt c env s = (Inr r, s')" "m_memory env = Inr v" "u_Total v \<noteq> 0"
    and "ip_Public (nc_IP c) \<noteq> ''''" "0 \<le> physicalCores s" "0 \<le> logicalCores s"
  shows "validate r = [] \<and> 1 \<le> Usage (report_CPU r) \<and> report_Links r = BuildLinkCongestion (m_keys env) (m_results env)"
  using assms
  by (auto simp: Collect_def collectCPU_def collectMemory_def collectNetwork_def validate_def split: sum.splits)

text \<open>The processes that are reported are the ones with the largest shares.\<close>

lemma sorted_take_drop:
  assumes "sorted (map f xs)" "a \<in> set (take n xs)" "b \<in> set xs" "b \<notin> set (take n xs)"
  shows "f a \<le> f b"
proof -
  have "b \<in> set (drop n xs)" using assms(3,4) by (metis UnE append_take_drop_id set_append)
  moreover have "sorted (map f (take n xs) @ map f (drop n xs))" using assms(1) by (metis append_take_drop_id map_append)
  ultimately show ?thesis using assms(2) unfolding sorted_append by simp
qed

lemma top_processes_largest:
  assumes "sorts (\<lambda>d. - proc_Usage d) srt" "d \<in> set (top_processes srt share ps)"
    and "p \<in> set ps" "pi_Name p \<noteq> ''''" "share p \<noteq> 0"
    and "\<lparr>PID = pi_Pid p, proc_Name = pi_Name p, proc_Usage = share p\<rparr> \<notin> set (top_processes srt share ps)"
  shows "share p \<le> proc_Usage d"
proof -
  let ?ds = "map (\<lambda>p. \<lparr>PID = pi_Pid p, proc_Name = pi_Name p, proc_Usage = share p\<rparr>) (filter (\<lambda>p. \<not> (pi_Name p = '''' \<or> share p = 0)) ps)"
  let ?x = "\<lparr>PID = pi_Pid p, proc_Name = pi_Name p, proc_Usage = share p\<rparr>"
  have t: "top_processes srt share ps = take 3 (srt ?ds)" by (simp add: top_processes_def Let_def)
  have s: "sorted (map (\<lambda>d. - proc_Usage d) (srt ?ds))" and "mset (srt ?ds) = mset ?ds" using assms(1) unfolding sorts_def by blast+
  then have "set (srt ?ds) = set ?ds" by (intro mset_eq_setD)
  moreover have "?x \<in> set ?ds" using assms(3-5) by simp
  ultimately have "?x \<in> set (srt ?ds)" by simp
  from sorted_take_drop [OF s assms(2) [unfolded t] this assms(6) [unfolded t]] show ?thesis by simp
qed

end
