(* ===== verification/Spec2Isabelle.thy ===== *)
theory Spec2Isabelle
  imports Tunnel_Packet Proxy_Util Aggregator Disaggregator Tunnel_Manager Tunnel_Handler
    Backsourcer Telemetry Graph_Manager K_Shortest Yen Live_Style Onewan Carousel Carousel_Opt Edge_Routing
    Routing Control_Plane Proxy_Server Aggregator_V2 Node_Config IP_Library Edge_Telemetry Probing Collector
begin

text \<open>
  SkyAccel carries the requests of clients over a network of relays to origin servers. It has three
  programs under \<open>src/\<close>: the data proxy (\<open>data-proxy\<close>) takes requests, packs them into tunnel
  packets and relays them; the data plane (\<open>data-plane\<close>) measures a node and reports to the control
  plane; the control plane (\<open>control-plane\<close>) keeps a graph of the network and computes routes.

  \<^bold>\<open>Conventions.\<close> A struct is a record, machine words are words where they wrap, a \<open>float64\<close> is a real
  number, so that rounding, infinities and NaN are not modelled (except the infinite distance of
  \<open>Go_Float\<close> and the underflow of the exponential in \<open>Edge_Routing\<close>), a string is the list of its bytes, and time is an int in nanoseconds. A Go map is a
  map; the order in which it is iterated is a list that is a parameter, subject to \<open>range_order\<close>.
  A panic is a value of \<open>panic\<close>, an error value one of \<open>'a result\<close>. A lock makes the section it protects
  one step; goroutines are steps that interleave, or requests that are pending in the state. Some
  functions that lock more than once are still one step; the theories name them (\<open>handleMsg\<close> and
  \<open>evictStaleBatches\<close> in \<open>Aggregator\<close>, \<open>find_route\<close> in \<open>Proxy_Server\<close>).
  Randomness, clocks, sockets, HTTP, JSON, YAML, etcd, QUIC, gopsutil and ip2location are parameters.
  Logging is left out.

  \<^bold>\<open>Foundations.\<close> \<open>Go_Prelude\<close> has the types, errors, maps and the exchange sort; \<open>Go_Bytes\<close> the byte
  codecs (locale \<open>byte_codec\<close>); \<open>Go_Strings\<close> strings, numbers and addresses; \<open>Go_Heap\<close> the binary heap
  of container/heap (locale \<open>heap_item\<close>); \<open>Go_Machine\<close> state machines with an invariant and an
  accounted quantity (locales \<open>state_machine\<close>, \<open>accounted_machine\<close>); \<open>Go_Float\<close> the infinite distance.

  \<^bold>\<open>Data proxy.\<close> \<open>Tunnel_Packet\<close> (tunnel-packet.go): the packet and its parser; serialising and parsing
  are inverse, appending refines a list of sub-packets, parsing is total. \<open>Aggregator\<close> (aggregator.go):
  batches, deadlines and eviction as steps on a store; messages are sent exactly once along
  interleavings without eviction, and an eviction loses exactly what waits in the batches it drops.
  \<open>Aggregator_V2\<close> (aggregator_v2.go): its shards lose messages. \<open>Disaggregator\<close>, \<open>Tunnel_Manager\<close>, \<open>Tunnel_Handler\<close>, \<open>Backsourcer\<close>, \<open>Proxy_Util\<close>
  (disaggregator.go, tunnel-manager, tunnel-handler.go, backsourcer, util): delivery to the waiting
  request only and in order, tunnels under any interleaving of senders, the round trip of request and
  response, the pool of connections, identifiers. \<open>Proxy_Server\<close> (server, config): the TCP and UDP
  handlers, the cache of routes, the rate limiter, and the management of listeners under any
  interleaving of start requests, accept loops and stop requests. \<open>Node_Config\<close>: the identity of a node.

  \<^bold>\<open>Control plane.\<close> \<open>Telemetry\<close> (aggregator, receive-info) and \<open>Graph_Manager\<close> (update-graph.go): weighted
  means, the graph and its invariant. The solvers of core-domain: \<open>K_Shortest\<close> and \<open>Yen\<close>
  (k-shortest.go), \<open>Live_Style\<close> (livenet.go), \<open>Onewan\<close> (onewan-multi.go), \<open>Carousel\<close> and \<open>Carousel_Opt\<close>
  (carousel-greed.go), under the locale \<open>middle_solver\<close> where they promise routes in the graph. They
  return routes with their costs, not the cheapest ones: a direct link hides every detour. The routers
  of edge-domain are in \<open>Edge_Routing\<close>, under \<open>nonneg_weights\<close>, \<open>positive_weights\<close> and, in \<open>Routing\<close>,
  \<open>last_router\<close>.
  \<open>Route_Info\<close> has the data of routes, \<open>Routing\<close> (routing.go, api/routing.go) the choice of a solver by
  name, \<open>Control_Plane\<close> (api, etcd_client.go, main.go) the handlers, the watches and the rebuilds.

  \<^bold>\<open>Data plane.\<close> \<open>IP_Library\<close> (ip-lib.go, continent.go): locations and overrides. \<open>Edge_Telemetry\<close>
  (edge-domain): reading the access log and its summary. \<open>Probing\<close> (probing, links.go): probes and the
  links reported from them. \<open>Collector\<close> (collector): the CPU sampler and the report of a machine.

  \<^bold>\<open>Across the parts.\<close> This theory follows a request from the client through the route of the control
  plane and the relays to the origin. \<open>Control_Plane\<close> follows a report of a machine to the graph, and
  \<open>Probing\<close> a failed probe to the weight of an edge.

  \<^bold>\<open>Fuel and termination.\<close> Loops are structural or have a termination proof, except the shortest path
  search, which need not end with negative weights and so has fuel: the number of edges and two for
  its iterations, since a node is expanded once, and the number of nodes and two for following the
  predecessors. Without negative weights this is enough, which the properties of \<open>Yen\<close> and of its
  clients state as a result that is reached. \<open>relay n\<close> follows a packet through at most \<open>n\<close> proxies;
  a packet visits fewer than \<open>MaxHops\<close> of them.

  \<^bold>\<open>Not modelled.\<close> The start-up code of the three mains, except the start of the listeners, and their loggers, and the random tags of log
  lines, have no behaviour of their own. The kernel call for the round-trip time (tcp_rtt_linux.go)
  and the start of the embedded etcd (etcd_server.go) are calls of the operating system and of a
  library. Finding the executable and parsing YAML are not modelled. Of the time stamps of the log
  only the result of parsing is used. Deadlines of sockets appear as reads and writes that fail. The
  read loop of the UDP server and the accept loops are modelled per datagram and per connection.
\<close>

section \<open>From the client to the origin\<close>

text \<open>The control plane as the proxy sees it: the handler of the request, with the default algorithm. The
  JSON on the way is the identity; a panic closes the connection.\<close>

definition control_plane :: "string list \<Rightarrow> (int \<rightharpoonup> SourceTarget) \<Rightarrow> GraphManager \<Rightarrow> string \<Rightarrow> EndPoints \<Rightarrow> RoutingResponse result" where
  "control_plane ks sourceTargetMap g url req =
     (case GetMiddleRoute ks sourceTargetMap g (Inr req) '''' of
        Some (Inr r) \<Rightarrow> Inr \<lparr>resp_Code = Code r, resp_Msg = ApiResponse.Msg r, resp_Data = (case ApiResponse.Data r of None \<Rightarrow> no_routing | Some d \<Rightarrow> d)\<rparr>
      | _ \<Rightarrow> Inl ''EOF'')"

text \<open>Nodes are named by their addresses.\<close>

definition addressed_nodes :: "GraphManager \<Rightarrow> bool" where
  "addressed_nodes g \<longleftrightarrow> (\<forall>k \<in> dom (nodes g). \<exists>w. w \<noteq> 0 \<and> k = ip_string w)"

lemma edge_line_inject:
  assumes "CHR ''-'' \<notin> set a'" "CHR ''-'' \<notin> set b'" "edge_line a b = edge_line a' b'"
  shows "a = a' \<and> b = b'"
  using assms(1,3)
proof (induction a arbitrary: a')
  case Nil
  then show ?case by (cases a') (auto simp: edge_line_def)
next
  case (Cons c a)
  show ?case
  proof (cases a')
    case Nil
    then have "a @ CHR ''-'' # CHR ''>'' # b = CHR ''>'' # b'" using Cons.prems(2) by (simp add: edge_line_def)
    then have "CHR ''-'' \<in> set (CHR ''>'' # b')" by (metis in_set_conv_decomp)
    then show ?thesis using assms(2) by simp
  next
    case (Cons d r)
    then show ?thesis using Cons.IH [of r] Cons.prems by (auto simp: edge_line_def)
  qed
qed

lemma hop_addressed:
  assumes "graph_ok g" "range_order (edges g) ks" "edge_names_ok (GetEdges ks g)" "addressed_nodes g"
    and "GetEdge (edge_line a b) g \<noteq> None"
  shows "\<exists>w. w \<noteq> 0 \<and> a = ip_string w"
proof -
  obtain e where e: "edges g (edge_line a b) = Some e" using assms(5) by (auto simp: GetEdge_def)
  then have ok: "edge_line a b = edge_line (SourceIp e) (DestinationIp e)" "SourceIp e \<in> dom (nodes g)"
    using assms(1) by (auto simp: graph_ok_def edge_ok_def)
  have "edge_line a b \<in> set ks" using assms(2) e by (auto simp: range_order_def)
  then have "e \<in> set (GetEdges ks g)" using e by (force simp: GetEdges_def)
  then have "CHR ''-'' \<notin> set (SourceIp e)" "CHR ''-'' \<notin> set (DestinationIp e)"
    using assms(3) by (auto simp: edge_names_ok_def list_all_iff name_ok_def)
  from edge_line_inject [OF this ok(1)] ok(2) assms(4) show ?thesis by (auto simp: addressed_nodes_def)
qed

lemma map_preimage:
  "(\<And>h. h \<in> set hs \<Longrightarrow> \<exists>w. P w \<and> h = f w) \<Longrightarrow> \<exists>ws. hs = map f ws \<and> (\<forall>w \<in> set ws. P w)"
proof (induction hs)
  case (Cons h hs)
  obtain w where "P w" "h = f w" using Cons.prems [of h] by auto
  moreover obtain ws where "hs = map f ws" "\<forall>w \<in> set ws. P w" using Cons.IH Cons.prems by auto
  ultimately show ?case by (intro exI [of _ "w # ws"]) simp
qed simp

text \<open>A path of the graph to an origin has the form of a route.\<close>

lemma route_addresses:
  assumes "graph_ok g" "range_order (edges g) ks" "edge_names_ok (GetEdges ks g)" "addressed_nodes g"
    and p: "follows_graph g s (ip_string orig @ '':'' @ itoa n) p" "2 \<le> length (Hops p)" "orig \<noteq> 0"
  shows "\<exists>ips. Hops p = route_hops ips n \<and> length ips = length (Hops p) \<and> last ips = orig \<and> 0 \<notin> set ips"
proof -
  let ?b = "butlast (Hops p)"
  have "\<exists>w. w \<noteq> 0 \<and> h = ip_string w" if "h \<in> set ?b" for h
  proof -
    obtain i where i: "i < length ?b" "h = ?b ! i" using \<open>h \<in> set ?b\<close> by (auto simp: in_set_conv_nth)
    then have "GetEdge (edge_line h (Hops p ! Suc i)) g \<noteq> None" using p(1) by (auto simp: follows_graph_def nth_butlast)
    from hop_addressed [OF assms(1-4) this] show ?thesis .
  qed
  then obtain ws where ws: "?b = map ip_string ws" "0 \<notin> set ws" using map_preimage [of ?b "\<lambda>w. w \<noteq> 0" ip_string] by blast
  have "Hops p = ?b @ [last (Hops p)]" using p(2) by (metis append_butlast_last_id list.size(3) not_numeral_le_zero)
  then have "Hops p = route_hops (ws @ [orig]) n" using ws p(1) by (simp add: route_hops_def follows_graph_def)
  moreover have "length (ws @ [orig]) = length (Hops p)" using calculation by (simp add: route_hops_def)
  ultimately show ?thesis using ws(2) p(3) by (intro exI [of _ "ws @ [orig]"]) auto
qed

text \<open>C3. End to end through both planes: a TCP request arrives at a proxy that has no route for its
  port. The proxy asks the control plane, whose graph was built by any sequence of telemetry
  updates. When the path it selects from the answer has three or four hops, the request becomes
  one message along this path of the graph; the packet of the message is relayed over the hops of
  the path and ends as exactly one task for the configured origin server, with the bytes of the
  request and the identifier under which the client waits.\<close>

theorem request_reaches_origin:
  assumes graph: "go_run graph_step es NewGraphManager = Inr g" "range_order (edges g) ks" "edge_names_ok (GetEdges ks g)" "addressed_nodes g"
    and origin: "sourceTargetMap port = Some source" "st_IP source = ip_string orig" "orig \<noteq> 0" "st_Port source = int n" "0 < n" "n \<le> 65535"
    and proxy: "test_route c port = None" "routingMap s port = None"
      "fetched env = GetRoutingFromControlPlane (control_plane ks sourceTargetMap g) c port"
    and path: "Routing (fetched env) \<noteq> []" "p = select_path (Routing (fetched env))" "length (Hops p) = 3 \<or> length (Hops p) = 4"
    and client: "ReadBytes conn [] = Some (dat, rest)" "dat \<noteq> []" "HeaderSize + 6 + length dat \<le> m" "m < HeaderSize + 2 ^ 16"
  shows "\<exists>reqID ch s' msg ips pkt task.
      handleConnection env clientIP port conn s = Inr (Waiting reqID ch, s') \<and> inputChan s' = inputChan s @ [msg]
    \<and> waiters (disagg s') reqID = Some ch
    \<and> follows_graph g (self_ip c) (origin_of source) p \<and> Hops p = route_hops ips n
    \<and> send_now m msg w = Inr (w\<lparr>sent := sent w @ [\<lparr>send_p = pkt, send_routingKey = strings_join '','' (map ip_string ips), send_next = Some (ips ! 1)\<rparr>]\<rparr>)
    \<and> relay 3 pkt = Some (map Some (drop 2 (butlast ips)), [Submit ''tcp'' task])
    \<and> task_OriginAddr task = JoinHostPort (ip_string orig) (itoa n) \<and> task_ReqData task = dat \<and> task_UserID task = reqID"
proof -
  let ?req = "route_request c port" and ?id = "fst (GenShortReqID clientIP (reqSeq s))"
  note ok = graph_run_ok(1) [OF graph(1)]
  have req: "ep_IP (ep_Source ?req) = self_ip c" "ep_Port (ep_Dest ?req) = port"
    by (simp_all add: route_request_def zero_endpoint_def)
  have org: "origin_of source = ip_string orig @ '':'' @ itoa n" using origin(2,4) by (simp add: origin_of_def itoa_int_def)
  obtain paths where ans: "GetMiddleRoute ks sourceTargetMap g (Inr ?req) '''' =
        Some (Inr \<lparr>Code = 200, Msg = ''Successfully obtained path'', Data = Some \<lparr>Routing = paths\<rparr>\<rparr>)"
      "list_all (follows_graph g (self_ip c) (origin_of source)) paths"
    using GetMiddleRoute_answer [OF ok graph(2,3), of sourceTargetMap ?req source "''''"] origin(1) req by auto
  have f: "fetched env = \<lparr>Routing = paths\<rparr>"
    by (simp add: proxy(1,3) GetRoutingFromControlPlane_def control_plane_def ans(1))
  then have used: "used_route env port s = \<lparr>Routing = paths\<rparr>" by (simp add: used_route_def proxy(2))
  have fg: "follows_graph g (self_ip c) (origin_of source) p"
    using ans(2) select_path_in [of paths] path(1,2) by (simp add: f list_all_iff)
  from route_addresses [OF ok graph(2-4) fg [unfolded org] _ origin(3)] path(3) obtain ips where
    ips: "Hops p = route_hops ips n" "length ips = length (Hops p)" "last ips = orig" "0 \<notin> set ips" by auto
  let ?msg = "\<lparr>msg_emerge = False, msg_routingKey = strings_join '','' (map ip_string ips), msg_protocol = ''tcp'', msg_port = of_nat n,
      msg_routingInfo = \<lparr>Hops = map ip_string ips, Rtt = 0, RawRTT = 0\<rparr>, msg_nextHop = Some (ips ! 1), msg_userID = ?id, msg_data = dat\<rparr>"
  have len: "length ips = 3 \<or> length ips = 4" using path(3) ips(2) by simp
  have "make_msg False ''tcp'' p ?id dat = Inr ?msg"
    using make_msg_route [OF _ origin(6) ips(1), of False "''tcp''" ?id dat] len by auto
  then have "make_msg False ''tcp'' (select_path (Routing (used_route env port s))) ?id dat = Inr ?msg"
    using path(2) by (simp add: used f)
  from handleConnection_submits [OF client(1) _ this] path(1) obtain s' where
    s': "handleConnection env clientIP port conn s = Inr (Waiting ?id (next_chan (disagg s)), s')" "inputChan s' = inputChan s @ [?msg]"
      "waiters (disagg s') ?id = Some (next_chan (disagg s))" by (auto simp: used f)
  have n: "unat (of_nat n :: u16) = n" using origin(6) by (simp add: unsigned_of_nat take_bit_nat_eq_self)
  then have "(of_nat n :: u16) \<noteq> 0" using origin(5) by (metis unsigned_0 less_numeral_extra(3))
  with outbound_journey [OF len ips(4), of ?msg m w] client(2-4) obtain pkt where
    "send_now m ?msg w = Inr (w\<lparr>sent := sent w @ [\<lparr>send_p = pkt, send_routingKey = msg_routingKey ?msg, send_next = msg_nextHop ?msg\<rparr>]\<rparr>)"
    "relay 3 pkt = Some (map Some (drop 2 (butlast ips)), [Submit ''tcp''
          \<lparr>task_HopIP = padded ips, task_Port = of_nat n, task_UserID = ?id,
           task_OriginAddr = JoinHostPort (ip_string orig) (itoa n), task_ReqData = dat\<rparr>])" by (auto simp: n ips(3))
  with s' fg ips(1) show ?thesis
    by (intro exI [of _ ?id] exI [of _ "next_chan (disagg s)"] exI [of _ s'] exI [of _ ?msg] exI [of _ ips] exI [of _ pkt] exI) auto
qed

text \<open>Two proxies and an origin: the first has measured the second, the second the origin.\<close>

definition line_link :: "string \<Rightarrow> string \<Rightarrow> int \<Rightarrow> LinkCongestion" where
  "line_link kind ip port = \<lparr>TargetIP = ip, Target = \<lparr>TargetType = kind, task_Provider = '''', task_IP = ip,
     task_TargetPort = port, task_Region = '''', task_ID = ''''\<rparr>, PacketLoss = 0, AverageLatency = 0\<rparr>"

definition line_events :: "graph_event list" where
  "line_events = [AddE (sample_node ''0.0.0.2'' [''0.0.0.3'' \<mapsto> line_link ''source'' ''0.0.0.3'' 80]) [''0.0.0.3''],
     AddE (sample_node ''0.0.0.1'' [''0.0.0.2'' \<mapsto> line_link ''node'' ''0.0.0.2'' 7083]) [''0.0.0.2'']]"

definition line_edges :: "Edge list" where
  "line_edges = [\<lparr>SourceIp = ''0.0.0.1'', DestinationIp = ''0.0.0.2'', EdgeWeight = 0, Load = 20, Latency = 0, Loss = 0\<rparr>,
     \<lparr>SourceIp = ''0.0.0.2'', DestinationIp = ''0.0.0.3:80'', EdgeWeight = 0, Load = 0, Latency = 0, Loss = 0\<rparr>]"

definition line_source :: SourceTarget where
  "line_source = \<lparr>ServerPort = 8080, st_Provider = '''', st_IP = ''0.0.0.3'', st_Port = 80, st_Region = '''', st_ID = ''''\<rparr>"

definition line_proxy :: proxy where
  "line_proxy = (sample_proxy [])\<lparr>routingMap := Map.empty\<rparr>"

lemma line_run:
  "\<exists>g. go_run graph_step line_events NewGraphManager = Inr g \<and> dom (nodes g) = {''0.0.0.1'', ''0.0.0.2''}
     \<and> edges g = [''0.0.0.1->0.0.0.2'' \<mapsto> line_edges ! 0, ''0.0.0.2->0.0.0.3:80'' \<mapsto> line_edges ! 1]"
  by (auto simp: line_events_def AddNode_def add_link_def link_edge_def edge_line_def NewGraphManager_def fun_upd_twist
      sample_node_def line_link_def line_edges_def port_80 EdgeRisk_eq Let_def)

lemma line_ips: "ip_string 1 = ''0.0.0.1''" "ip_string 2 = ''0.0.0.2''" "ip_string 3 = ''0.0.0.3''"
  by code_simp+

lemma line_solve:
  "KShortest_solve line_edges ''0.0.0.1'' ''0.0.0.3:80'' =
     Some (Inr (Inr [\<lparr>Hops = [''0.0.0.1'', ''0.0.0.2'', ''0.0.0.3:80''], Rtt = 0, RawRTT = 0\<rparr>]))"
  by code_simp

lemma route_hops_inject: "ips \<noteq> [] \<Longrightarrow> js \<noteq> [] \<Longrightarrow> route_hops ips n = route_hops js n \<Longrightarrow> ips = js"
  by (metis strip_route prod.inject list.inj_map_strong ip_string_inject)

lemma line_hops: "route_hops [1, 2, 3] 80 = [''0.0.0.1'', ''0.0.0.2'', ''0.0.0.3:80'']"
  by code_simp

theorem request_reaches_origin_witness:
  "\<exists>g ks c env reqID ch s' msg pkt task.
      ks = [''0.0.0.1->0.0.0.2'', ''0.0.0.2->0.0.0.3:80'']
    \<and> go_run graph_step line_events NewGraphManager = Inr g \<and> range_order (edges g) ks \<and> addressed_nodes g
    \<and> c = sample_proxy_config \<and> fetched env = GetRoutingFromControlPlane (control_plane ks [8080 \<mapsto> line_source] g) c 8080
    \<and> map Hops (Routing (fetched env)) = [[''0.0.0.1'', ''0.0.0.2'', ''0.0.0.3:80'']]
    \<and> handleConnection env ''9.9.9.9'' 8080 [[71, 10]] line_proxy = Inr (Waiting reqID ch, s') \<and> inputChan s' = [msg]
    \<and> send_now 64 msg new_worker = Inr (new_worker\<lparr>sent := sent new_worker @
        [\<lparr>send_p = pkt, send_routingKey = ''0.0.0.1,0.0.0.2,0.0.0.3'', send_next = Some 2\<rparr>]\<rparr>)
    \<and> relay 3 pkt = Some ([], [Submit ''tcp'' task]) \<and> task_OriginAddr task = ''0.0.0.3:80'' \<and> task_ReqData task = [71, 10]"
proof -
  let ?ks = "[''0.0.0.1->0.0.0.2'', ''0.0.0.2->0.0.0.3:80'']" and ?m = "[8080 \<mapsto> line_source] :: int \<rightharpoonup> SourceTarget"
  let ?p = "\<lparr>Hops = [''0.0.0.1'', ''0.0.0.2'', ''0.0.0.3:80''], Rtt = 0, RawRTT = 0\<rparr>"
  let ?env = "\<lparr>now = 1, tcpRTT = 0, fetched = \<lparr>Routing = [?p]\<rparr>\<rparr>"
  obtain g where g: "go_run graph_step line_events NewGraphManager = Inr g" "dom (nodes g) = {''0.0.0.1'', ''0.0.0.2''}"
    "edges g = [''0.0.0.1->0.0.0.2'' \<mapsto> line_edges ! 0, ''0.0.0.2->0.0.0.3:80'' \<mapsto> line_edges ! 1]" using line_run by blast
  have E: "GetEdges ?ks g = line_edges" using g(3) by (simp add: GetEdges_def line_edges_def)
  have ks: "range_order (edges g) ?ks" "edge_names_ok (GetEdges ?ks g)"
    using g(3) by (auto simp: range_order_def E edge_names_ok_def name_ok_def line_edges_def)
  have an: "addressed_nodes g" unfolding addressed_nodes_def g(2) using line_ips by (auto intro: exI [of _ 1] exI [of _ 2])
  have org: "origin_of line_source = ''0.0.0.3:80''" by (simp add: origin_of_def line_source_def port_80)
  have self: "self_ip sample_proxy_config = ''0.0.0.1''" by (simp add: self_ip_def sample_proxy_config_def)
  have t: "test_route sample_proxy_config 8080 = None" by (simp add: test_route_def TestPathMap_def sample_proxy_config_def)
  have mid: "GetMiddleRoute ?ks ?m g (Inr (route_request sample_proxy_config 8080)) '''' =
      Some (Inr \<lparr>Code = 200, Msg = ''Successfully obtained path'', Data = Some \<lparr>Routing = [?p]\<rparr>\<rparr>)"
    by (subst GetMiddleRoute_known [where source = line_source])
      (simp_all add: route_request_def zero_endpoint_def E org self line_solve answer_def LiveStyle_def)
  have f: "fetched ?env = GetRoutingFromControlPlane (control_plane ?ks ?m g) sample_proxy_config 8080"
    by (simp add: GetRoutingFromControlPlane_def t control_plane_def mid)
  have sel: "?p = select_path (Routing (fetched ?env))" by (simp add: select_path_def)
  have "\<exists>reqID ch s' msg ips pkt task.
      handleConnection ?env ''9.9.9.9'' 8080 [[71, 10]] line_proxy = Inr (Waiting reqID ch, s') \<and> inputChan s' = inputChan line_proxy @ [msg]
    \<and> waiters (disagg s') reqID = Some ch
    \<and> follows_graph g (self_ip sample_proxy_config) (origin_of line_source) ?p \<and> Hops ?p = route_hops ips 80
    \<and> send_now 64 msg new_worker = Inr (new_worker\<lparr>sent := sent new_worker @
        [\<lparr>send_p = pkt, send_routingKey = strings_join '','' (map ip_string ips), send_next = Some (ips ! 1)\<rparr>]\<rparr>)
    \<and> relay 3 pkt = Some (map Some (drop 2 (butlast ips)), [Submit ''tcp'' task])
    \<and> task_OriginAddr task = JoinHostPort (ip_string 3) (itoa 80) \<and> task_ReqData task = [71, 10] \<and> task_UserID task = reqID"
    by (rule request_reaches_origin [OF g(1) ks an _ _ _ _ _ _ t _ f _ sel, where rest = "[]"])
      (simp_all add: line_source_def line_ips line_proxy_def newline_def HeaderSize_def)
  then obtain reqID ch s' msg ips pkt task where
    R: "handleConnection ?env ''9.9.9.9'' 8080 [[71, 10]] line_proxy = Inr (Waiting reqID ch, s')" "inputChan s' = inputChan line_proxy @ [msg]"
      "Hops ?p = route_hops ips 80"
      "send_now 64 msg new_worker = Inr (new_worker\<lparr>sent := sent new_worker @
        [\<lparr>send_p = pkt, send_routingKey = strings_join '','' (map ip_string ips), send_next = Some (ips ! 1)\<rparr>]\<rparr>)"
      "relay 3 pkt = Some (map Some (drop 2 (butlast ips)), [Submit ''tcp'' task])"
      "task_OriginAddr task = JoinHostPort (ip_string 3) (itoa 80)" "task_ReqData task = [71, 10]" by blast
  have "ips \<noteq> []" using R(3) by (auto simp: route_hops_def)
  then have ips: "ips = [1, 2, 3]" using R(3) route_hops_inject [of ips "[1, 2, 3]" 80] by (simp add: line_hops)
  have "JoinHostPort (ip_string 3) (itoa 80) = ''0.0.0.3:80''" by code_simp
  with R ks(1) g(1) an f [symmetric] show ?thesis
    by (intro exI [of _ g] exI [of _ ?ks] exI [of _ sample_proxy_config] exI [of _ ?env] exI [of _ reqID] exI [of _ ch] exI [of _ s']
        exI [of _ msg] exI [of _ pkt] exI [of _ task])
      (simp add: ips line_ips line_proxy_def sample_proxy_def)
qed

end
